(* ===== verification/Prelude.thy ===== *)
theory Prelude
  imports Main "HOL-Library.Word"
begin

text \<open>
  Shared ground of the development: Go's \<open>int64\<close> and \<open>uint64\<close> arithmetic, the bit tricks of
  the ring (masks, shifts, power-of-two sizes), Go's \<open>select\<close> statement, and the generic
  lemmas on residues and intervals that several components use.
\<close>

unbundle bit_operations_syntax

section \<open>Collections\<close>

text \<open>
  \<open>i64_simps\<close> removes wrap-arounds that a range hypothesis excludes; \<open>heap_simps\<close> reads
  a cell of the shared store after an update; \<open>slot_simps\<close> turns masks and shifts into
  \<open>mod\<close> and \<open>div\<close>.
\<close>

named_theorems i64_simps
named_theorems heap_simps
named_theorems slot_simps

section \<open>Go integers\<close>

text \<open>
  An \<open>int64\<close> is an integer in \<open>[-2^63, 2^63)\<close>; every addition and subtraction of the source
  is followed by \<open>i64\<close>, which wraps as two's complement does. \<open>u64\<close> is the conversion
  \<open>uint64(x)\<close> and \<open>s64\<close> the conversion \<open>int64(w)\<close>.
\<close>

type_synonym int64 = int
type_synonym uint64 = "64 word"
type_synonym uint8 = "8 word"

definition i64 :: "int \<Rightarrow> int64" where
  "i64 x = (x + 2 ^ 63) mod 2 ^ 64 - 2 ^ 63"

definition u64 :: "int64 \<Rightarrow> uint64" where
  "u64 x = word_of_int x"

definition s64 :: "uint64 \<Rightarrow> int64" where
  "s64 w = sint w"

definition in_i64 :: "int \<Rightarrow> bool" where
  "in_i64 x \<longleftrightarrow> - (2 ^ 63) \<le> x \<and> x < 2 ^ 63"

definition MaxInt64 :: int64 where
  "MaxInt64 = s64 (drop_bit 1 (NOT 0))"

lemma i64_range: "in_i64 (i64 x)"
  by (simp add: in_i64_def i64_def)

lemma i64_id [i64_simps]: "- (2 ^ 63) \<le> x \<Longrightarrow> x < 2 ^ 63 \<Longrightarrow> i64 x = x"
  by (simp add: i64_def)

lemma i64_in [simp]: "in_i64 x \<Longrightarrow> i64 x = x"
  by (simp add: in_i64_def i64_id)

lemma i64_word: "i64 x = s64 (u64 x)"
  by (simp add: i64_def s64_def u64_def int_word_sint)

lemma s64_eq_iff: "s64 v = s64 w \<longleftrightarrow> v = w"
  unfolding s64_def by (metis word_eq_iff_signed)

lemma u64_eq_iff: "u64 a = u64 b \<longleftrightarrow> a mod 2 ^ 64 = b mod 2 ^ 64"
  by (simp add: u64_def word_of_int_eq_iff take_bit_eq_mod)

lemma MaxInt64_eq [simp]: "MaxInt64 = 9223372036854775807"
  by (simp add: MaxInt64_def s64_def mask_eq_exp_minus_1)

section \<open>Masks, shifts and powers of two\<close>

lemma mask_index [slot_simps]:
  assumes "k < 64"
  shows "unat (u64 s AND u64 (2 ^ k - 1)) = nat (s mod 2 ^ k)"
proof -
  have m: "u64 (2 ^ k - 1) = mask k"
    by (simp add: u64_def mask_eq_exp_minus_1)
  have "u64 s AND mask k = word_of_int (s mod 2 ^ k)"
    by (simp add: u64_def and_mask_wi take_bit_eq_mod)
  moreover have "s mod 2 ^ k < 2 ^ 64"
  proof -
    have "s mod 2 ^ k < 2 ^ k" by simp
    also have "(2::int) ^ k \<le> 2 ^ 64" using assms by (intro power_increasing) auto
    finally show ?thesis .
  qed
  ultimately have "uint (u64 s AND mask k) = s mod 2 ^ k"
    by (simp add: uint_word_of_int_eq take_bit_eq_mod)
  then show ?thesis
    by (simp add: m flip: nat_uint_eq)
qed

lemma shift_lap [slot_simps]:
  assumes "0 \<le> s" "s < 2 ^ 63"
  shows "s64 (drop_bit k (u64 s)) = s div 2 ^ k"
proof -
  have u: "uint (u64 s) = s"
    using assms by (simp add: u64_def uint_word_of_int)
  have d: "uint (drop_bit k (u64 s)) = s div 2 ^ k"
    by (metis drop_bit_eq_div of_nat_unat u unat_drop_bit_eq zdiv_int of_nat_power of_nat_numeral)
  have "s div 2 ^ k \<le> s" "0 \<le> s div 2 ^ k"
    using zdiv_mono2 [of s 1 "2 ^ k"] assms by (simp_all add: pos_imp_zdiv_nonneg_iff)
  then show ?thesis using assms d
    by (simp add: s64_def sint_uint signed_take_bit_eq_take_bit_shift take_bit_eq_mod)
qed

lemma or_shift_word:
  assumes "0 \<le> st" "st < 4"
  shows "push_bit 2 (u64 f) OR u64 st = u64 (4 * f + st)"
proof -
  have "push_bit 2 (u64 f) AND u64 st = 0"
  proof (rule bit_word_eqI)
    fix n assume "n < LENGTH(64)"
    have "st = take_bit 2 st" using assms by (simp add: take_bit_eq_mod)
    then have "2 \<le> n \<Longrightarrow> \<not> bit st n" by (metis bit_take_bit_iff not_less)
    then show "bit (push_bit 2 (u64 f) AND u64 st) n = bit 0 n"
      by (auto simp: u64_def bit_simps)
  qed
  then have "push_bit 2 (u64 f) OR u64 st = push_bit 2 (u64 f) + u64 st"
    by (simp add: disjunctive_add_eq_or)
  also have "\<dots> = u64 (4 * f + st)"
    by (simp add: u64_def push_bit_eq_mult)
  finally show ?thesis .
qed

lemma and_pred_zero_exp: "(2::int) ^ k AND (2 ^ k - 1) = 0"
  by (simp flip: mask_eq_exp_minus_1 take_bit_eq_mask)

lemma and_pred_zero_imp_exp:
  fixes s :: int
  assumes "1 \<le> s" "s AND (s - 1) = 0"
  shows "\<exists>k. s = 2 ^ k"
  using assms
proof (induction "nat s" arbitrary: s rule: less_induct)
  case less
  show ?case
  proof (cases "even s")
    case True
    then obtain m where m: "s = 2 * m" by blast
    then have s1: "s - 1 = 1 + 2 * (m - 1)" by simp
    have half: "(1 + 2 * (m - 1)) div 2 = m - 1" by simp
    have "(2 * m) AND (1 + 2 * (m - 1)) = 2 * (m AND (m - 1))"
      by (subst and_int_rec) (simp only: half even_mult_iff, simp)
    then have "s AND (s - 1) = 2 * (m AND (m - 1))"
      unfolding s1 by (simp only: m)
    with less.prems m have "m AND (m - 1) = 0" "1 \<le> m" by auto
    moreover have "nat m < nat s" using m less.prems by auto
    ultimately obtain k where "m = 2 ^ k" using less.hyps by blast
    then have "s = 2 ^ Suc k" using m by simp
    then show ?thesis by blast
  next
    case False
    then obtain m where m: "s = 2 * m + 1" by (elim oddE)
    have "s AND (s - 1) = 2 * m"
      by (subst and_int_rec) (simp add: m)
    with less.prems m have "s = 2 ^ 0" by simp
    then show ?thesis by blast
  qed
qed

lemma power_of_two_test:
  fixes s :: int
  shows "1 \<le> s \<and> s AND (s - 1) = 0 \<longleftrightarrow> (\<exists>k. s = 2 ^ k)"
  using and_pred_zero_imp_exp and_pred_zero_exp by fastforce

text \<open>
  \<open>bits.TrailingZeros64\<close> of the standard library: the position of the lowest set bit, 64 for 0.
\<close>

function TrailingZeros64 :: "int \<Rightarrow> nat" where
  "TrailingZeros64 x =
     (if x \<le> 0 then 64 else if odd x then 0 else Suc (TrailingZeros64 (x div 2)))"
  by pat_completeness auto
termination
  by (relation "measure nat") auto

declare TrailingZeros64.simps [simp del]

lemma TrailingZeros64_exp [slot_simps]: "TrailingZeros64 (2 ^ k) = k"
proof (induction k)
  case 0
  show ?case by (simp add: TrailingZeros64.simps)
next
  case (Suc k)
  then show ?case by (simp add: TrailingZeros64.simps [of "2 * 2 ^ k"])
qed

text \<open>
  A ring size that \<open>New\<close> accepts and an \<open>int64\<close> can hold: \<open>2^k\<close> with \<open>k < 63\<close>.
\<close>

definition ring_size :: "int64 \<Rightarrow> bool" where
  "ring_size n \<longleftrightarrow> 1 \<le> n \<and> n < 2 ^ 63 \<and> n AND (n - 1) = 0"

lemma ring_sizeE:
  assumes "ring_size n"
  obtains k where "n = 2 ^ k" "k < 63"
proof -
  from assms obtain k where k: "n = 2 ^ k"
    unfolding ring_size_def using power_of_two_test by blast
  moreover from assms k have "(2::int) ^ k < 2 ^ 63" unfolding ring_size_def by simp
  then have "k < 63" by (simp only: power_strict_increasing_iff)
  ultimately show ?thesis using that by blast
qed

lemma ring_size_exp: "k < 63 \<Longrightarrow> ring_size (2 ^ k)"
  unfolding ring_size_def using and_pred_zero_exp [of k] power_strict_increasing [of k 63 "2::int"]
  by simp

lemma ring_size_pos: "ring_size n \<Longrightarrow> 0 < n"
  by (simp add: ring_size_def)

lemma ring_size_le: "ring_size n \<Longrightarrow> n \<le> 2 ^ 62"
proof -
  assume "ring_size n"
  then obtain k where "n = 2 ^ k" "k < 63" by (rule ring_sizeE)
  then show "n \<le> 2 ^ 62" using power_increasing [of k 62 "2 :: int"] by simp
qed

text \<open>Two sequences less than a lap apart never share a slot.\<close>

lemma mod_eq_close:
  fixes a b n :: int
  assumes "a mod n = b mod n" "\<bar>a - b\<bar> < n"
  shows "a = b"
proof -
  from assms(1) have "n dvd a - b" by (simp add: mod_eq_dvd_iff)
  with assms(2) show ?thesis
    using dvd_imp_le_int [of "a - b" n] by fastforce
qed

lemma nat_mod_eq_close:
  fixes a b n :: int
  assumes "nat (a mod n) = nat (b mod n)" "\<bar>a - b\<bar> < n"
  shows "a = b"
proof -
  have "0 < n" using assms(2) by arith
  then have "a mod n = b mod n" using assms(1) by (simp add: eq_nat_nat_iff)
  then show ?thesis using assms(2) by (rule mod_eq_close)
qed

text \<open>
  The slot of a sequence in a ring of \<open>n\<close> entries, and a loop that visits the slots of a range
  in order, updating each: as long as the range is not longer than the ring it touches every slot
  at most once.
\<close>

definition slot :: "int \<Rightarrow> int \<Rightarrow> nat" where
  "slot n q = nat (q mod n)"

lemma mask_slot [slot_simps]:
  assumes "ring_size n" shows "unat (u64 q AND u64 (i64 (n - 1))) = slot n q"
proof -
  from assms obtain k where k: "n = 2 ^ k" "k < 63" by (rule ring_sizeE)
  have "i64 (n - 1) = n - 1" using assms by (intro i64_id) (auto simp: ring_size_def)
  with k show ?thesis by (simp add: slot_def mask_index)
qed

lemma slot_less: "0 < n \<Longrightarrow> slot n q < nat n"
  by (simp add: slot_def nat_less_eq_zless)

lemma slot_eq_close: "slot n p = slot n q \<Longrightarrow> \<bar>p - q\<bar> < n \<Longrightarrow> p = q"
  unfolding slot_def by (rule nat_mod_eq_close)

definition visit_slots :: "int \<Rightarrow> (int \<Rightarrow> 'v \<Rightarrow> 'v) \<Rightarrow> int list \<Rightarrow> 'v list \<Rightarrow> 'v list" where
  "visit_slots n f = fold (\<lambda>q d. d[slot n q := f q (d ! slot n q)])"

lemma visit_slots_simps [simp]:
  "visit_slots n f [] d = d"
  "visit_slots n f (q # qs) d = visit_slots n f qs (d[slot n q := f q (d ! slot n q)])"
  "length (visit_slots n f qs d) = length d"
  by (induction qs arbitrary: d) (simp_all add: visit_slots_def)

lemma visit_slots_miss:
  "slot n q \<notin> slot n ` set qs \<Longrightarrow> visit_slots n f qs d ! slot n q = d ! slot n q"
  by (induction qs arbitrary: d) auto

lemma visit_slots_hit:
  assumes "0 < n" "length d = nat n" "distinct (map (slot n) qs)" "q \<in> set qs"
  shows "visit_slots n f qs d ! slot n q = f q (d ! slot n q)"
  using assms
proof (induction qs arbitrary: d)
  case (Cons p qs)
  let ?d = "d[slot n p := f p (d ! slot n p)]"
  show ?case
  proof (cases "q = p")
    case True
    with Cons.prems show ?thesis by (simp add: visit_slots_miss slot_less)
  next
    case False
    with Cons.prems have "q \<in> set qs" "slot n p \<noteq> slot n q" by auto
    with Cons.IH [of ?d] Cons.prems show ?thesis by simp
  qed
qed simp

lemma slots_distinct: "high - low < n \<Longrightarrow> distinct (map (slot n) [low..high])"
  unfolding distinct_map
proof
  assume "high - low < n"
  then show "inj_on (slot n) (set [low..high])"
    by (intro inj_onI slot_eq_close [of n]) auto
qed simp

lemma visit_range:
  assumes "0 < n" "length d = nat n" "high - low < n" "\<bar>q - low\<bar> < n" "\<bar>high - q\<bar> < n"
  shows "visit_slots n f [low..high] d ! slot n q =
    (if low \<le> q \<and> q \<le> high then f q (d ! slot n q) else d ! slot n q)"
proof (cases "low \<le> q \<and> q \<le> high")
  case True
  with assms show ?thesis by (simp add: visit_slots_hit slots_distinct)
next
  case False
  have "slot n q \<noteq> slot n p" if "low \<le> p" "p \<le> high" for p
  proof
    assume "slot n q = slot n p"
    moreover have "\<bar>q - p\<bar> < n" using that assms(4,5) False by auto
    ultimately have "q = p" by (rule slot_eq_close)
    with that False show False by simp
  qed
  then have "slot n q \<notin> slot n ` set [low..high]" by (metis atLeastAtMost_iff imageE set_upto)
  with False show ?thesis by (auto simp: visit_slots_miss)
qed

lemma visit_slots_range:
  assumes "\<And>q. q \<in> set qs \<Longrightarrow> P (slot n q) (f q (d ! slot n q))"
    and "distinct (map (slot n) qs)" "0 < n" "length d = nat n"
    and "\<And>i. i < nat n \<Longrightarrow> P i (d ! i)"
  shows "i < nat n \<Longrightarrow> P i (visit_slots n f qs d ! i)"
  using assms
proof (induction qs arbitrary: d)
  case (Cons q qs)
  let ?d = "d[slot n q := f q (d ! slot n q)]"
  show ?case
    unfolding visit_slots_simps
  proof (rule Cons.IH)
    fix p assume "p \<in> set qs"
    moreover from this have "slot n q \<noteq> slot n p" using Cons.prems(3) by auto
    ultimately show "P (slot n p) (f p (?d ! slot n p))" using Cons.prems(2) [of p] by simp
  next
    fix j assume j: "j < nat n"
    show "P j (?d ! j)"
    proof (cases "j = slot n q")
      case True
      with j Cons.prems show ?thesis by simp
    next
      case False
      with j Cons.prems(6) show ?thesis by simp
    qed
  qed (use Cons.prems in auto)
qed simp

section \<open>Go's select\<close>

text \<open>
  A \<open>select\<close> without \<open>default\<close>: the ready cases, of which the runtime takes an arbitrary one
  (here the one that \<open>pick\<close> names); \<open>None\<close> when no case is ready, so that the goroutine stays
  parked, or takes its \<open>default\<close>.
\<close>

definition select_case :: "nat \<Rightarrow> (bool \<times> 'r) list \<Rightarrow> 'r option" where
  "select_case pick cs =
     (let ready = filter fst cs
      in if ready = [] then None else Some (snd (ready ! (pick mod length ready))))"

lemma select_case_None: "select_case pick cs = None \<longleftrightarrow> (\<forall>c \<in> set cs. \<not> fst c)"
  by (auto simp: select_case_def Let_def filter_empty_conv)

lemma select_case_Some:
  assumes "select_case pick cs = Some r"
  shows "(True, r) \<in> set cs"
proof -
  let ?ready = "filter fst cs"
  from assms have ne: "?ready \<noteq> []" and r: "r = snd (?ready ! (pick mod length ?ready))"
    by (auto simp: select_case_def Let_def split: if_splits)
  from ne have "?ready ! (pick mod length ?ready) \<in> set ?ready"
    by (intro nth_mem) simp
  then have "fst (?ready ! (pick mod length ?ready))"
    and "?ready ! (pick mod length ?ready) \<in> set cs" by auto
  with r show ?thesis by (metis prod.collapse)
qed

section \<open>Text\<close>

text \<open>\<open>strings.TrimSpace\<close> on ASCII text.\<close>

definition is_space :: "char \<Rightarrow> bool" where
  "is_space c \<longleftrightarrow> c \<in> set [CHR '' '', CHR 0x09, CHR 0x0A, CHR 0x0B, CHR 0x0C, CHR 0x0D]"

definition TrimSpace :: "string \<Rightarrow> string" where
  "TrimSpace s = rev (dropWhile is_space (rev (dropWhile is_space s)))"

text \<open>\<open>%d\<close> of \<open>fmt\<close>, and reading it back.\<close>

fun decimal :: "nat \<Rightarrow> string" where
  "decimal n = (if n < 10 then [char_of (48 + n)] else decimal (n div 10) @ [char_of (48 + n mod 10)])"

declare decimal.simps [simp del]

definition decimal_int :: "int \<Rightarrow> string" where
  "decimal_int x = (if x < 0 then CHR ''-'' # decimal (nat (- x)) else decimal (nat x))"

definition digits_value :: "string \<Rightarrow> nat" where
  "digits_value = foldl (\<lambda>n c. 10 * n + (of_char c - 48)) 0"

lemma digits_value_decimal: "digits_value (decimal n) = n"
proof (induction n rule: decimal.induct)
  case (1 n)
  show ?case
  proof (cases "n < 10")
    case True
    then show ?thesis by (simp add: decimal.simps [of n] digits_value_def of_char_of)
  next
    case False
    have d: "(of_char (char_of (48 + n mod 10) :: char) :: nat) = 48 + n mod 10"
      by (simp add: of_char_of)
    from False 1 show ?thesis by (simp add: decimal.simps [of n] digits_value_def d)
  qed
qed

lemma decimal_digits: "c \<in> set (decimal n) \<Longrightarrow> of_char c \<in> {48..<58 :: nat}"
proof (induction n rule: decimal.induct)
  case (1 n)
  have "of_char (char_of (48 + d) :: char) \<in> {48..<58 :: nat}" if "d < 10" for d :: nat
    using that by (simp add: of_char_of)
  from this [of n] this [of "n mod 10"] 1 show ?case
    by (auto simp: decimal.simps [of n] split: if_splits)
qed

lemma decimal_plain: "CHR ''-'' \<notin> set (decimal n)" "CHR '':'' \<notin> set (decimal n)"
  using decimal_digits [of "CHR ''-''" n] decimal_digits [of "CHR '':''" n] by auto

lemma decimal_int_inject: "decimal_int x = decimal_int y \<longleftrightarrow> x = y"
proof
  have minus: "decimal n \<noteq> CHR ''-'' # s" for n s
    using decimal_plain(1) [of n] by auto
  have inj: "decimal m = decimal n \<Longrightarrow> m = n" for m n
    by (metis digits_value_decimal)
  assume "decimal_int x = decimal_int y"
  then show "x = y"
    using minus minus [symmetric] inj by (fastforce simp: decimal_int_def split: if_splits)
qed simp

end
