(* ===== verification/Errors.thy ===== *)
theory Errors
  imports Prelude
begin

text \<open>
  The errors of the library: the sentinels of \<open>errors.go\<close>, the two sequence-aware wrappers of
  \<open>processor_error.go\<close> with their \<open>Unwrap\<close> methods, and the errors that reach the library from
  outside, which are those of a context and those of the application. A panic carries either an
  error value or some other value. \<open>errors_Is\<close> is the standard library's \<open>errors.Is\<close> over these
  wrappers, and \<open>outcome\<close> is how a call of application code ends. Wrappers are pointers in Go and are
  compared by value here; the library itself only asks for sentinels.
\<close>

datatype error =
    ErrInvalidBufferSize
  | ErrInvalidProducerType
  | ErrInvalidProducerWaitMode
  | ErrInvalidClaimSize
  | ErrInsufficientCapacity
  | ErrNilFactory
  | ErrNilTranslator
  | ErrNilHandler
  | ErrInvalidBatchSize
  | ErrAlerted
  | ErrClosed
  | ErrAlreadyRunning
  | Canceled
  | DeadlineExceeded
  | AppError string
  | HandlerError int64 error
  | HandlerPanicError int64 panic
  | WrappedError string error
and panic =
    PanicError error
  | PanicOther string

text \<open>\<open>HandlerError.Unwrap\<close> and \<open>HandlerPanicError.Unwrap\<close>; \<open>WrappedError\<close> is an error made by \<open>fmt.Errorf\<close>
  with \<open>%w\<close>, and the other errors wrap nothing.\<close>

fun Unwrap :: "error \<Rightarrow> error option" where
  "Unwrap (HandlerError sequence err) = Some err"
| "Unwrap (HandlerPanicError sequence (PanicError err)) = Some err"
| "Unwrap (WrappedError message err) = Some err"
| "Unwrap _ = None"

lemma Unwrap_size [termination_simp]: "Unwrap e = Some e' \<Longrightarrow> size e' < size e"
  by (induction e rule: Unwrap.induct) auto

fun errors_Is :: "error \<Rightarrow> error \<Rightarrow> bool" where
  "errors_Is err target =
     (err = target \<or> (case Unwrap err of None \<Rightarrow> False | Some err' \<Rightarrow> errors_Is err' target))"

declare errors_Is.simps [simp del]

lemma errors_Is_refl [simp]: "errors_Is e e"
  by (simp add: errors_Is.simps)

lemma errors_Is_leaf [simp]: "Unwrap e = None \<Longrightarrow> errors_Is e t \<longleftrightarrow> e = t"
  by (simp add: errors_Is.simps)

datatype 'r outcome = Returned 'r | Panicked panic

text \<open>
  \<open>errors.Is\<close> sees through the handler wrappers: a handler error or a panic with an error value
  matches whatever the wrapped error matches, and a panic with another value matches only itself.
\<close>

lemma errors_Is_wrappers:
  "(errors_Is (HandlerError q err) target \<longleftrightarrow> HandlerError q err = target \<or> errors_Is err target) \<and>
   (errors_Is (HandlerPanicError q (PanicError err)) target \<longleftrightarrow>
      HandlerPanicError q (PanicError err) = target \<or> errors_Is err target) \<and>
   (errors_Is (HandlerPanicError q (PanicOther v)) target \<longleftrightarrow> HandlerPanicError q (PanicOther v) = target)"
  by (simp add: errors_Is.simps [of "HandlerError q err"]
      errors_Is.simps [of "HandlerPanicError q (PanicError err)"])

text \<open>
  The text of an error: the messages of \<open>errors.go\<close>, \<open>HandlerError.Error\<close> and \<open>HandlerPanicError.Error\<close>;
  \<open>%v\<close> of an error is its text. \<open>PanicOther\<close> carries the text of its value.
\<close>

fun Error :: "error \<Rightarrow> string" and panic_text :: "panic \<Rightarrow> string" where
  "Error ErrInvalidBufferSize = ''disruptor: buffer size must be a positive power of two''"
| "Error ErrInvalidProducerType = ''disruptor: invalid producer type''"
| "Error ErrInvalidProducerWaitMode = ''disruptor: invalid producer wait mode''"
| "Error ErrInvalidClaimSize = ''disruptor: claim size must be between one and the buffer size''"
| "Error ErrInsufficientCapacity = ''disruptor: insufficient capacity''"
| "Error ErrNilFactory = ''disruptor: event factory must not be nil''"
| "Error ErrNilTranslator = ''disruptor: event translator must not be nil''"
| "Error ErrNilHandler = ''disruptor: event handler must not be nil''"
| "Error ErrInvalidBatchSize = ''disruptor: batch size must be positive''"
| "Error ErrAlerted = ''disruptor: barrier alerted''"
| "Error ErrClosed = ''disruptor: ring buffer closed''"
| "Error ErrAlreadyRunning = ''disruptor: processor already running''"
| "Error Canceled = ''context canceled''"
| "Error DeadlineExceeded = ''context deadline exceeded''"
| "Error (AppError message) = message"
| "Error (HandlerError sequence err) = ''disruptor: handler failed at sequence '' @ decimal_int sequence @ '': '' @ Error err"
| "Error (HandlerPanicError sequence v) =
     ''disruptor: handler panicked at sequence '' @ decimal_int sequence @ '': '' @ panic_text v"
| "Error (WrappedError message err) = message @ '': '' @ Error err"
| "panic_text (PanicError err) = Error err"
| "panic_text (PanicOther v) = v"

text \<open>The text of a handler failure determines the sequence and the text of the cause.\<close>

lemma sequence_text_inject:
  "decimal_int p @ '': '' @ s = decimal_int q @ '': '' @ t \<longleftrightarrow> p = q \<and> s = t"
proof
  assume eq: "decimal_int p @ '': '' @ s = decimal_int q @ '': '' @ t"
  have colon: "CHR '':'' \<notin> set (decimal_int x)" for x
    using decimal_plain(2) by (auto simp: decimal_int_def)
  have cut: "takeWhile (\<lambda>c. c \<noteq> CHR '':'') (decimal_int x @ '': '' @ u) = decimal_int x" for x u
    using colon [of x] by (subst takeWhile_append2) auto
  have "decimal_int p = decimal_int q" using cut [of p s] cut [of q t] eq by simp
  with eq show "p = q \<and> s = t" by (simp add: decimal_int_inject)
qed simp

lemma Error_handler_inject:
  "Error (HandlerError p e) = Error (HandlerError q f) \<longleftrightarrow> p = q \<and> Error e = Error f"
  "Error (HandlerPanicError p v) = Error (HandlerPanicError q w) \<longleftrightarrow> p = q \<and> panic_text v = panic_text w"
  using sequence_text_inject by simp_all

end
