(* ===== verification/Sequences.thy ===== *)
theory Sequences
  imports Errors
begin

text \<open>
  The shared store and the two components whose objects are passed by pointer everywhere:
  \<open>Sequence\<close> (\<open>sequence.go\<close>) and \<open>producerWaiter\<close> (\<open>producer_wait.go\<close>). The store holds the
  cells that several goroutines reach through pointers: sequences, producer waiters, the channel
  of a blocking consumer wait strategy, the \<open>atomic.Bool\<close> flags and the channels, each a closed
  or open broadcast channel. Address 0 is \<open>nil\<close>.
\<close>

section \<open>The store\<close>

type_synonym addr = nat

type_synonym ProducerWaitMode = uint8

definition ProducerWaitYielding :: ProducerWaitMode where "ProducerWaitYielding = 0"
definition ProducerWaitBlocking :: ProducerWaitMode where "ProducerWaitBlocking = 1"
definition ProducerWaitBusySpin :: ProducerWaitMode where "ProducerWaitBusySpin = 2"

lemmas wait_mode_defs =
  ProducerWaitYielding_def ProducerWaitBlocking_def ProducerWaitBusySpin_def

record producerWaiter =
  pw_mode :: ProducerWaitMode
  pw_ch :: addr
  pw_waiting :: int64
  pw_waits :: uint64

record Sequence =
  seq_value :: int64
  seq_signals :: "addr list option"

record heap =
  sequences :: "addr \<Rightarrow> Sequence"
  waiters :: "addr \<Rightarrow> producerWaiter"
  blockings :: "addr \<Rightarrow> addr"
  flags :: "addr \<Rightarrow> bool"
  chans :: "addr \<Rightarrow> bool"
  next_addr :: addr

definition empty_heap :: heap where
  "empty_heap =
     \<lparr>sequences = (\<lambda>_. \<lparr>seq_value = 0, seq_signals = None\<rparr>),
      waiters = (\<lambda>_. \<lparr>pw_mode = 0, pw_ch = 0, pw_waiting = 0, pw_waits = 0\<rparr>),
      blockings = (\<lambda>_. 0), flags = (\<lambda>_. False), chans = (\<lambda>_. False), next_addr = 1\<rparr>"

text \<open>
  The Go runtime: a fresh channel, closing it, and whether a receive from it proceeds (a receive
  from \<open>nil\<close> or from an open channel, on which nothing is ever sent, blocks).
\<close>

definition make_chan :: "heap \<Rightarrow> addr \<times> heap" where
  "make_chan h =
     (next_addr h,
      h\<lparr>chans := (chans h)(next_addr h := False), next_addr := Suc (next_addr h)\<rparr>)"

definition close_chan :: "addr \<Rightarrow> heap \<Rightarrow> heap" where
  "close_chan c h = h\<lparr>chans := (chans h)(c := True)\<rparr>"

definition chan_ready :: "addr \<Rightarrow> heap \<Rightarrow> bool" where
  "chan_ready c h \<longleftrightarrow> c \<noteq> 0 \<and> chans h c"

definition new_flag :: "heap \<Rightarrow> addr \<times> heap" where
  "new_flag h =
     (next_addr h,
      h\<lparr>flags := (flags h)(next_addr h := False), next_addr := Suc (next_addr h)\<rparr>)"

definition flag_Store :: "addr \<Rightarrow> bool \<Rightarrow> heap \<Rightarrow> heap" where
  "flag_Store f b h = h\<lparr>flags := (flags h)(f := b)\<rparr>"

section \<open>Turns of a blocking loop\<close>

text \<open>
  A loop that waits for other goroutines runs against a list of turns, one per iteration. A turn
  says what the other goroutines do to the state before the iteration (\<open>t_pre\<close>), between its
  reads (\<open>t_mid\<close>) and while the goroutine is parked or has yielded (\<open>t_park\<close>), what \<open>ctx.Err()\<close>
  is when the iteration looks at the context (\<open>None\<close>: not done), and which ready \<open>select\<close> case
  the runtime takes. A loop that exhausts its turns, or stays parked, has not returned: \<open>None\<close>.
\<close>

record 's turn =
  t_pre :: "'s \<Rightarrow> 's"
  t_mid :: "'s \<Rightarrow> 's"
  t_park :: "'s \<Rightarrow> 's"
  t_ctx :: "error option"
  t_pick :: nat

definition quiet :: "'s turn" where
  "quiet = \<lparr>t_pre = id, t_mid = id, t_park = id, t_ctx = None, t_pick = 0\<rparr>"

lemma quiet_simps [simp]:
  "t_pre quiet = id" "t_mid quiet = id" "t_park quiet = id" "t_ctx quiet = None"
  "t_pick quiet = 0"
  by (simp_all add: quiet_def)

section \<open>Producer waiters\<close>

record ringConfig =
  cfg_producerWait :: ProducerWaitMode

type_synonym RingOption = "ringConfig \<Rightarrow> error + ringConfig"

definition WithProducerWait :: "ProducerWaitMode \<Rightarrow> RingOption" where
  "WithProducerWait mode config =
     (if mode > ProducerWaitBusySpin then Inl ErrInvalidProducerWaitMode
      else Inr (config\<lparr>cfg_producerWait := mode\<rparr>))"

definition newProducerWaiter :: "ProducerWaitMode \<Rightarrow> heap \<Rightarrow> addr \<times> heap" where
  "newProducerWaiter mode h =
     (let (ch, h1) = (if mode = ProducerWaitBlocking then make_chan h else (0, h));
          w = next_addr h1
      in (w, h1\<lparr>waiters := (waiters h1)
                  (w := \<lparr>pw_mode = mode, pw_ch = ch, pw_waiting = 0, pw_waits = 0\<rparr>),
                next_addr := Suc w\<rparr>))"

definition producerWaiter_needsSignals :: "addr \<Rightarrow> heap \<Rightarrow> bool" where
  "producerWaiter_needsSignals w h \<longleftrightarrow> pw_mode (waiters h w) = ProducerWaitBlocking"

definition producerWaiter_prepare :: "addr \<Rightarrow> heap \<Rightarrow> addr" where
  "producerWaiter_prepare w h =
     (if pw_mode (waiters h w) \<noteq> ProducerWaitBlocking then 0 else pw_ch (waiters h w))"

definition producerWaiter_count :: "addr \<Rightarrow> uint64 \<Rightarrow> int64 \<Rightarrow> heap \<Rightarrow> heap" where
  "producerWaiter_count w waits waiting h =
     h\<lparr>waiters := (waiters h)(w := (waiters h w)
         \<lparr>pw_waits := pw_waits (waiters h w) + waits,
          pw_waiting := i64 (pw_waiting (waiters h w) + waiting)\<rparr>)\<rparr>"

text \<open>
  \<open>wait\<close>: parked in blocking mode until the prepared channel, the context or the closed channel
  is ready; otherwise a look at the context and the closed channel.
\<close>

definition producerWaiter_wait ::
  "addr \<Rightarrow> (heap \<times> 'b) turn \<Rightarrow> addr \<Rightarrow> addr \<Rightarrow> heap \<times> 'b \<Rightarrow> (error option \<times> heap \<times> 'b) option"
where
  "producerWaiter_wait w t prepared closed hb =
     (let (h, b) = hb; mode = pw_mode (waiters h w) in
      if mode = ProducerWaitBlocking then
        (let (h1, b1) = t_park t (producerWaiter_count w 1 1 h, b) in
         case select_case (t_pick t)
                [(chan_ready prepared h1, None),
                 (t_ctx t \<noteq> None, t_ctx t),
                 (chan_ready closed h1, Some ErrClosed)] of
           None \<Rightarrow> None
         | Some r \<Rightarrow> Some (r, producerWaiter_count w 0 (-1) h1, b1))
      else
        (case select_case (t_pick t)
                [(t_ctx t \<noteq> None, t_ctx t), (chan_ready closed h, Some ErrClosed)] of
           Some r \<Rightarrow> Some (r, h, b)
         | None \<Rightarrow>
             if mode = ProducerWaitBusySpin then Some (None, h, b)
             else (let (h1, b1) = t_park t (h, b) in Some (None, h1, b1))))"

definition producerWaiter_signalAll :: "addr \<Rightarrow> heap \<Rightarrow> heap" where
  "producerWaiter_signalAll w h =
     (if pw_mode (waiters h w) \<noteq> ProducerWaitBlocking then h
      else let (ch, h1) = make_chan (close_chan (pw_ch (waiters h w)) h)
           in h1\<lparr>waiters := (waiters h1)(w := (waiters h1 w)\<lparr>pw_ch := ch\<rparr>)\<rparr>)"

section \<open>Sequences\<close>

definition InitialSequence :: int64 where "InitialSequence = -1"

definition NewSequence :: "int64 \<Rightarrow> heap \<Rightarrow> addr \<times> heap" where
  "NewSequence initial h =
     (next_addr h,
      h\<lparr>sequences := (sequences h)(next_addr h := \<lparr>seq_value = initial, seq_signals = None\<rparr>),
        next_addr := Suc (next_addr h)\<rparr>)"

definition Sequence_Load :: "addr \<Rightarrow> heap \<Rightarrow> int64" where
  "Sequence_Load s h = seq_value (sequences h s)"

definition Sequence_store :: "addr \<Rightarrow> int64 \<Rightarrow> heap \<Rightarrow> heap" where
  "Sequence_store s v h =
     h\<lparr>sequences := (sequences h)(s := (sequences h s)\<lparr>seq_value := v\<rparr>)\<rparr>"

definition Sequence_compareAndSwap :: "addr \<Rightarrow> int64 \<Rightarrow> int64 \<Rightarrow> heap \<Rightarrow> bool \<times> heap" where
  "Sequence_compareAndSwap s old new h =
     (if Sequence_Load s h = old then (True, Sequence_store s new h) else (False, h))"

definition Sequence_signalAll :: "addr \<Rightarrow> heap \<Rightarrow> heap" where
  "Sequence_signalAll s h =
     (case seq_signals (sequences h s) of
        None \<Rightarrow> h
      | Some signals \<Rightarrow> fold producerWaiter_signalAll signals h)"

definition Sequence_Store :: "addr \<Rightarrow> int64 \<Rightarrow> heap \<Rightarrow> heap" where
  "Sequence_Store s v h = Sequence_signalAll s (Sequence_store s v h)"

definition Sequence_Add :: "addr \<Rightarrow> int64 \<Rightarrow> heap \<Rightarrow> int64 \<times> heap" where
  "Sequence_Add s delta h =
     (let v = i64 (Sequence_Load s h + delta)
      in (v, Sequence_signalAll s (Sequence_store s v h)))"

definition Sequence_CompareAndSwap :: "addr \<Rightarrow> int64 \<Rightarrow> int64 \<Rightarrow> heap \<Rightarrow> bool \<times> heap" where
  "Sequence_CompareAndSwap s old new h =
     (let (swapped, h1) = Sequence_compareAndSwap s old new h
      in if \<not> swapped then (False, h1) else (True, Sequence_signalAll s h1))"

text \<open>
  Registration of a waiter. The source copies the slice and swaps it in with a compare-and-swap,
  which it retries when another goroutine changed the slice; a successful swap is one atomic step
  on the slice it read, and that step is the definition.
\<close>

definition set_signals :: "addr \<Rightarrow> addr list option \<Rightarrow> heap \<Rightarrow> heap" where
  "set_signals s signals h =
     h\<lparr>sequences := (sequences h)(s := (sequences h s)\<lparr>seq_signals := signals\<rparr>)\<rparr>"

definition signal_list :: "addr list option \<Rightarrow> addr list" where
  "signal_list signals = (case signals of None \<Rightarrow> [] | Some ws \<Rightarrow> ws)"

definition signalCount :: "addr list option \<Rightarrow> nat" where
  "signalCount signals = (case signals of None \<Rightarrow> 0 | Some ws \<Rightarrow> length ws)"

definition Sequence_addSignal :: "addr \<Rightarrow> addr \<Rightarrow> heap \<Rightarrow> heap" where
  "Sequence_addSignal s signal h =
     (let current = seq_signals (sequences h s) in
      if signal \<in> set (signal_list current) then h
      else set_signals s (Some (signal_list current @ [signal])) h)"

text \<open>\<open>remove_index i xs\<close> is \<open>append(xs[:i], xs[i+1:]...)\<close> on a fresh slice.\<close>

definition remove_index :: "nat \<Rightarrow> 'a list \<Rightarrow> 'a list" where
  "remove_index i xs = take i xs @ drop (Suc i) xs"

fun find_index :: "'a \<Rightarrow> 'a list \<Rightarrow> nat option" where
  "find_index x [] = None"
| "find_index x (y # ys) = (if y = x then Some 0 else map_option Suc (find_index x ys))"

definition Sequence_removeSignal :: "addr \<Rightarrow> addr \<Rightarrow> heap \<Rightarrow> heap" where
  "Sequence_removeSignal s signal h =
     (case seq_signals (sequences h s) of
        None \<Rightarrow> h
      | Some current \<Rightarrow>
          (case find_index signal current of
             None \<Rightarrow> h
           | Some index \<Rightarrow> set_signals s (Some (remove_index index current)) h))"

text \<open>The minimum over a list of sequences, as the two loops of \<open>sequence.go\<close> compute it.\<close>

fun minimum_loop :: "int64 \<Rightarrow> addr list \<Rightarrow> heap \<Rightarrow> int64" where
  "minimum_loop minimum [] h = minimum"
| "minimum_loop minimum (sequence # rest) h =
     (let v = Sequence_Load sequence h
      in minimum_loop (if v < minimum then v else minimum) rest h)"

fun minimumSequence :: "addr list \<Rightarrow> int64 \<Rightarrow> heap \<Rightarrow> int64" where
  "minimumSequence [] fallback h = fallback"
| "minimumSequence (sequence # rest) fallback h = minimum_loop (Sequence_Load sequence h) rest h"

fun sequenceGroup_Load :: "addr list \<Rightarrow> heap \<Rightarrow> int64" where
  "sequenceGroup_Load [] h = InitialSequence"
| "sequenceGroup_Load (sequence # rest) h = minimum_loop (Sequence_Load sequence h) rest h"

datatype sequenceReader = SequenceReader addr | GroupReader "addr list"

fun sequenceReader_Load :: "sequenceReader \<Rightarrow> heap \<Rightarrow> int64" where
  "sequenceReader_Load (SequenceReader s) h = Sequence_Load s h"
| "sequenceReader_Load (GroupReader g) h = sequenceGroup_Load g h"

section \<open>Minimum of a group\<close>

lemma minimum_loop_ge_iff:
  "x \<le> minimum_loop m ss h \<longleftrightarrow> x \<le> m \<and> (\<forall>s \<in> set ss. x \<le> Sequence_Load s h)"
  by (induction ss arbitrary: m) (auto simp: Let_def)

lemma minimum_loop_mem:
  "minimum_loop m ss h = m \<or> (\<exists>s \<in> set ss. minimum_loop m ss h = Sequence_Load s h)"
proof (induction ss arbitrary: m)
  case (Cons s ss)
  show ?case
    using Cons.IH [of "if Sequence_Load s h < m then Sequence_Load s h else m"]
    by (auto simp: Let_def split: if_splits)
qed simp

text \<open>The loops compute the minimum: a lower bound of the group that one member attains.\<close>

lemma minimumSequence_ge_iff:
  "x \<le> minimumSequence ss fb h \<longleftrightarrow> (if ss = [] then x \<le> fb else \<forall>s \<in> set ss. x \<le> Sequence_Load s h)"
  by (cases ss) (auto simp: minimum_loop_ge_iff)

lemma minimumSequence_mem:
  "ss \<noteq> [] \<Longrightarrow> \<exists>s \<in> set ss. minimumSequence ss fb h = Sequence_Load s h"
  using minimum_loop_mem by (cases ss) auto

lemma minimumSequence_le: "s \<in> set ss \<Longrightarrow> minimumSequence ss fb h \<le> Sequence_Load s h"
  using minimumSequence_ge_iff [of "minimumSequence ss fb h" ss fb h] by (auto split: if_splits)

lemma minimumSequence_less_iff:
  "minimumSequence ss fb h < x \<longleftrightarrow> (if ss = [] then fb < x else \<exists>s \<in> set ss. Sequence_Load s h < x)"
  using minimumSequence_ge_iff [of x ss fb h] by (auto simp: not_le split: if_splits)

lemma minimumSequence_Min:
  "ss \<noteq> [] \<Longrightarrow> minimumSequence ss fb h = Min ((\<lambda>s. Sequence_Load s h) ` set ss)"
  using minimumSequence_mem minimumSequence_le
  by (intro Min_eqI [symmetric]) force+

lemma sequenceGroup_Load_minimum: "sequenceGroup_Load g h = minimumSequence g InitialSequence h"
  by (cases g) auto

lemma minimumSequence_cong:
  "(\<And>s. s \<in> set ss \<Longrightarrow> Sequence_Load s h = Sequence_Load s h') \<Longrightarrow>
   minimumSequence ss fb h = minimumSequence ss fb h'"
proof (induction ss)
  case (Cons s ss)
  have "minimum_loop m ss h = minimum_loop m ss h'" for m
    using Cons.prems by (induction ss arbitrary: m) (auto simp: Let_def)
  with Cons.prems show ?case by simp
qed simp

section \<open>Reading the store after an update\<close>

lemma Sequence_Load_store [heap_simps]:
  "Sequence_Load s (Sequence_store s' v h) = (if s = s' then v else Sequence_Load s h)"
  by (simp add: Sequence_Load_def Sequence_store_def)

lemma store_store [heap_simps]:
  "Sequence_store c v (Sequence_store c u h) = Sequence_store c v h"
  "Sequence_store c (Sequence_Load c h) h = h"
  by (simp_all add: Sequence_store_def Sequence_Load_def)

lemma store_frame [heap_simps]:
  "waiters (Sequence_store s v h) = waiters h"
  "flags (Sequence_store s v h) = flags h"
  "chans (Sequence_store s v h) = chans h"
  "blockings (Sequence_store s v h) = blockings h"
  "next_addr (Sequence_store s v h) = next_addr h"
  "seq_signals (sequences (Sequence_store s v h) s') = seq_signals (sequences h s')"
  by (simp_all add: Sequence_store_def)

lemma signalAll_frame [heap_simps]:
  "sequences (producerWaiter_signalAll w h) = sequences h"
  "flags (producerWaiter_signalAll w h) = flags h"
  "blockings (producerWaiter_signalAll w h) = blockings h"
  "pw_mode (waiters (producerWaiter_signalAll w h) w') = pw_mode (waiters h w')"
  by (simp_all add: producerWaiter_signalAll_def make_chan_def close_chan_def Let_def)

lemma fold_signalAll_frame [heap_simps]:
  "sequences (fold producerWaiter_signalAll ws h) = sequences h"
  "flags (fold producerWaiter_signalAll ws h) = flags h"
  "blockings (fold producerWaiter_signalAll ws h) = blockings h"
  "pw_mode (waiters (fold producerWaiter_signalAll ws h) w') = pw_mode (waiters h w')"
  by (induction ws arbitrary: h) (simp_all add: heap_simps)

lemma Sequence_signalAll_frame [heap_simps]:
  "sequences (Sequence_signalAll s h) = sequences h"
  "flags (Sequence_signalAll s h) = flags h"
  "blockings (Sequence_signalAll s h) = blockings h"
  "pw_mode (waiters (Sequence_signalAll s h) w) = pw_mode (waiters h w)"
  by (simp_all add: Sequence_signalAll_def heap_simps split: option.splits)

lemma Sequence_Store_Load [heap_simps]:
  "Sequence_Load s (Sequence_Store s' v h) = (if s = s' then v else Sequence_Load s h)"
  by (simp add: Sequence_Store_def Sequence_Load_def heap_simps) (simp add: Sequence_store_def)

lemma set_signals_frame [heap_simps]:
  "Sequence_Load s (set_signals s' ws h) = Sequence_Load s h"
  "flags (set_signals s' ws h) = flags h"
  "waiters (set_signals s' ws h) = waiters h"
  "chans (set_signals s' ws h) = chans h"
  "blockings (set_signals s' ws h) = blockings h"
  "next_addr (set_signals s' ws h) = next_addr h"
  "seq_signals (sequences (set_signals s' ws h) s) =
     (if s = s' then ws else seq_signals (sequences h s))"
  by (simp_all add: set_signals_def Sequence_Load_def)

section \<open>Channels: nothing is closed twice, no wake-up is lost\<close>

text \<open>
  A broadcast channel is owned by a blocking producer waiter or by a blocking consumer strategy,
  which closes it and replaces it in one critical section. In a well-formed store every owned
  channel is allocated and still open and no two owners share one, so \<open>close\<close> never panics.
\<close>

datatype chan_owner = WaiterOwner addr | BlockingOwner addr

fun owns :: "heap \<Rightarrow> chan_owner \<Rightarrow> bool" where
  "owns h (WaiterOwner w) \<longleftrightarrow> pw_mode (waiters h w) = ProducerWaitBlocking"
| "owns h (BlockingOwner b) \<longleftrightarrow> blockings h b \<noteq> 0"

fun owned_chan :: "heap \<Rightarrow> chan_owner \<Rightarrow> addr" where
  "owned_chan h (WaiterOwner w) = pw_ch (waiters h w)"
| "owned_chan h (BlockingOwner b) = blockings h b"

definition heap_wf :: "heap \<Rightarrow> bool" where
  "heap_wf h \<longleftrightarrow>
     0 < next_addr h \<and>
     (\<forall>a. owns h a \<longrightarrow>
        0 < owned_chan h a \<and> owned_chan h a < next_addr h \<and> \<not> chans h (owned_chan h a)) \<and>
     (\<forall>a b. owns h a \<and> owns h b \<and> owned_chan h a = owned_chan h b \<longrightarrow> a = b)"

lemma heap_wf_empty: "heap_wf empty_heap"
proof -
  have "\<not> owns empty_heap a" for a
    by (cases a) (simp_all add: empty_heap_def wait_mode_defs)
  then show ?thesis by (auto simp: heap_wf_def) (simp add: empty_heap_def)
qed

text \<open>One owner replaces its channel by a fresh one and closes the old one.\<close>

lemma heap_wf_replace:
  assumes wf: "heap_wf h" and a: "owns h a"
    and ow: "\<And>b. owns h' b \<longleftrightarrow> owns h b"
    and ch: "\<And>b. owned_chan h' b = (if b = a then next_addr h else owned_chan h b)"
    and cl: "chans h' = (chans h)(owned_chan h a := True, next_addr h := False)"
    and nx: "next_addr h' = Suc (next_addr h)"
  shows "heap_wf h'"
proof -
  have old: "0 < owned_chan h b \<and> owned_chan h b < next_addr h \<and> \<not> chans h (owned_chan h b)"
    if "owns h b" for b using wf that by (auto simp: heap_wf_def)
  have inj: "b = c" if "owns h b" "owns h c" "owned_chan h b = owned_chan h c" for b c
    using wf that by (auto simp: heap_wf_def)
  have "0 < owned_chan h' b \<and> owned_chan h' b < next_addr h' \<and> \<not> chans h' (owned_chan h' b)"
    if "owns h' b" for b
  proof (cases "b = a")
    case True
    with wf show ?thesis by (simp add: ch cl nx heap_wf_def)
  next
    case False
    with that a inj [of b a] old [of b] show ?thesis by (auto simp: ch cl nx ow)
  qed
  moreover have "b = c" if "owns h' b" "owns h' c" "owned_chan h' b = owned_chan h' c" for b c
    using that old [of b] old [of c] inj [of b c] by (auto simp: ow ch split: if_splits)
  ultimately show ?thesis by (auto simp: heap_wf_def nx)
qed

lemma heap_wf_signalAll:
  assumes "heap_wf h" shows "heap_wf (producerWaiter_signalAll w h)"
proof (cases "pw_mode (waiters h w) = ProducerWaitBlocking")
  case True
  let ?h' = "producerWaiter_signalAll w h"
  have ow: "owns ?h' b \<longleftrightarrow> owns h b" for b
    by (cases b) (simp_all add: heap_simps)
  have ch: "owned_chan ?h' b = (if b = WaiterOwner w then next_addr h else owned_chan h b)" for b
    using True by (cases b)
      (auto simp: producerWaiter_signalAll_def make_chan_def close_chan_def)
  have cl: "chans ?h' = (chans h)(owned_chan h (WaiterOwner w) := True, next_addr h := False)"
    and nx: "next_addr ?h' = Suc (next_addr h)"
    using True by (auto simp: producerWaiter_signalAll_def make_chan_def close_chan_def)
  have "owns h (WaiterOwner w)" using True by simp
  from heap_wf_replace [OF assms this ow ch cl nx] show ?thesis .
qed (simp add: assms producerWaiter_signalAll_def)

lemma heap_wf_cong:
  assumes "heap_wf h" "waiters h' = waiters h" "blockings h' = blockings h"
    "chans h' = chans h" "next_addr h' = next_addr h"
  shows "heap_wf h'"
proof -
  have "owns h' b = owns h b" "owned_chan h' b = owned_chan h b" for b
    using assms by (cases b; simp)+
  then show ?thesis using assms by (simp add: heap_wf_def)
qed

lemma heap_wf_fold_signalAll: "heap_wf h \<Longrightarrow> heap_wf (fold producerWaiter_signalAll ws h)"
  by (induction ws arbitrary: h) (auto intro: heap_wf_signalAll)

lemma heap_wf_Sequence_signalAll: "heap_wf h \<Longrightarrow> heap_wf (Sequence_signalAll s h)"
  by (auto simp: Sequence_signalAll_def intro: heap_wf_fold_signalAll split: option.splits)

lemma heap_wf_store: "heap_wf h \<Longrightarrow> heap_wf (Sequence_store s v h)"
  by (erule heap_wf_cong) (simp_all add: heap_simps)

lemma heap_wf_Store: "heap_wf h \<Longrightarrow> heap_wf (Sequence_Store s v h)"
  by (simp add: Sequence_Store_def heap_wf_Sequence_signalAll heap_wf_store)

text \<open>Closed channels stay closed.\<close>

definition closed_mono :: "heap \<Rightarrow> heap \<Rightarrow> bool" where
  "closed_mono h h' \<longleftrightarrow>
     next_addr h \<le> next_addr h' \<and> (\<forall>c < next_addr h. chans h c \<longrightarrow> chans h' c)"

lemma closed_mono_refl [simp]: "closed_mono h h"
  by (simp add: closed_mono_def)

lemma closed_mono_trans [trans]: "closed_mono h1 h2 \<Longrightarrow> closed_mono h2 h3 \<Longrightarrow> closed_mono h1 h3"
  by (force simp: closed_mono_def)

lemma closed_mono_signalAll: "closed_mono h (producerWaiter_signalAll w h)"
  by (simp add: closed_mono_def producerWaiter_signalAll_def make_chan_def close_chan_def Let_def)

lemma closed_mono_fold: "closed_mono h (fold producerWaiter_signalAll ws h)"
  by (induction ws arbitrary: h) (auto intro: closed_mono_trans closed_mono_signalAll)

lemma closed_mono_ready:
  "chan_ready c h \<Longrightarrow> c < next_addr h \<Longrightarrow> closed_mono h h' \<Longrightarrow> chan_ready c h'"
  by (auto simp: closed_mono_def chan_ready_def)

lemma prepare_signalAll_other:
  "w \<noteq> v \<Longrightarrow> producerWaiter_prepare w (producerWaiter_signalAll v h) = producerWaiter_prepare w h"
  by (simp add: producerWaiter_prepare_def producerWaiter_signalAll_def make_chan_def
      close_chan_def Let_def)

lemma signalAll_wakes:
  assumes "heap_wf h" "producerWaiter_needsSignals w h"
  shows "chan_ready (producerWaiter_prepare w h) (producerWaiter_signalAll w h)"
proof -
  from assms have "owns h (WaiterOwner w)" by (simp add: producerWaiter_needsSignals_def)
  with assms(1) have "0 < pw_ch (waiters h w) \<and> pw_ch (waiters h w) < next_addr h"
    by (auto simp: heap_wf_def dest!: spec [of _ "WaiterOwner w"])
  with assms(2) show ?thesis
    by (simp add: producerWaiter_needsSignals_def producerWaiter_prepare_def chan_ready_def
        producerWaiter_signalAll_def make_chan_def close_chan_def)
qed

lemma prepare_allocated:
  assumes "heap_wf h" "producerWaiter_needsSignals w h"
  shows "producerWaiter_prepare w h < next_addr h"
proof -
  from assms have "owns h (WaiterOwner w)" by (simp add: producerWaiter_needsSignals_def)
  with assms(1) have "owned_chan h (WaiterOwner w) < next_addr h"
    unfolding heap_wf_def by blast
  with assms(2) show ?thesis
    by (simp add: producerWaiter_needsSignals_def producerWaiter_prepare_def)
qed

lemma fold_signalAll_wakes:
  assumes "heap_wf h" "producerWaiter_needsSignals w h" "w \<in> set ws"
  shows "chan_ready (producerWaiter_prepare w h) (fold producerWaiter_signalAll ws h)"
  using assms
proof (induction ws arbitrary: h)
  case (Cons v ws)
  have needs: "producerWaiter_needsSignals w (producerWaiter_signalAll v h)"
    using Cons.prems(2) by (simp add: producerWaiter_needsSignals_def heap_simps)
  show ?case
  proof (cases "v = w")
    case True
    have "producerWaiter_prepare w h < next_addr (producerWaiter_signalAll w h)"
      using prepare_allocated [OF Cons.prems(1,2)] closed_mono_signalAll [of h w]
      by (simp add: closed_mono_def)
    then show ?thesis
      using True signalAll_wakes [OF Cons.prems(1,2)] closed_mono_fold
      by (auto intro: closed_mono_ready)
  next
    case False
    then have "chan_ready (producerWaiter_prepare w (producerWaiter_signalAll v h))
                 (fold producerWaiter_signalAll ws (producerWaiter_signalAll v h))"
      using Cons.prems needs by (intro Cons.IH heap_wf_signalAll) auto
    with False show ?thesis by (simp add: prepare_signalAll_other)
  qed
qed simp

lemma Store_wakes:
  assumes "heap_wf h" "producerWaiter_needsSignals w h"
    and "w \<in> set (signal_list (seq_signals (sequences h s)))"
  shows "chan_ready (producerWaiter_prepare w h) (Sequence_Store s v h)"
proof -
  let ?h = "Sequence_store s v h"
  have "producerWaiter_prepare w h = producerWaiter_prepare w ?h"
    "producerWaiter_needsSignals w ?h"
    using assms(2) by (simp_all add: producerWaiter_prepare_def producerWaiter_needsSignals_def
        heap_simps)
  with assms fold_signalAll_wakes [of ?h w "signal_list (seq_signals (sequences h s))"]
  show ?thesis
    by (auto simp: Sequence_Store_def Sequence_signalAll_def signal_list_def heap_simps
        heap_wf_store split: option.splits)
qed

section \<open>Registered signals\<close>

text \<open>\<open>signalled w s h\<close>: an update of sequence \<open>s\<close> wakes the producers parked on waiter \<open>w\<close>.\<close>

definition signalled :: "addr \<Rightarrow> addr \<Rightarrow> heap \<Rightarrow> bool" where
  "signalled w s h \<longleftrightarrow> w \<in> set (signal_list (seq_signals (sequences h s)))"

definition signals_distinct :: "heap \<Rightarrow> bool" where
  "signals_distinct h \<longleftrightarrow> (\<forall>s. distinct (signal_list (seq_signals (sequences h s))))"

lemma find_index_None: "find_index x xs = None \<longleftrightarrow> x \<notin> set xs"
  by (induction xs) auto

lemma find_index_remove1: "find_index x xs = Some i \<Longrightarrow> remove_index i xs = remove1 x xs"
proof (induction xs arbitrary: i)
  case (Cons y ys)
  then show ?case by (cases "y = x") (auto simp: remove_index_def)
qed simp

lemma signal_list_simps [simp]: "signal_list None = []" "signal_list (Some ws) = ws"
  by (simp_all add: signal_list_def)

lemma signalCount_length: "signalCount signals = length (signal_list signals)"
  by (cases signals) (simp_all add: signalCount_def)

lemma signal_list_removeSignal:
  "signal_list (seq_signals (sequences (Sequence_removeSignal s w h) s')) =
     (if s' = s then remove1 w (signal_list (seq_signals (sequences h s')))
      else signal_list (seq_signals (sequences h s')))"
proof (cases "seq_signals (sequences h s)")
  case None
  then show ?thesis by (simp add: Sequence_removeSignal_def)
next
  case (Some ws)
  moreover have "find_index w ws = None \<Longrightarrow> remove1 w ws = ws"
    by (simp add: find_index_None remove1_idem)
  ultimately show ?thesis
    by (cases "find_index w ws")
      (simp_all add: Sequence_removeSignal_def heap_simps find_index_remove1)
qed

lemma signalled_addSignal:
  "signalled v s' (Sequence_addSignal s w h) \<longleftrightarrow> signalled v s' h \<or> v = w \<and> s' = s"
  by (auto simp: signalled_def Sequence_addSignal_def Let_def heap_simps)

lemma signalled_removeSignal:
  assumes "signals_distinct h"
  shows "signalled v s' (Sequence_removeSignal s w h) \<longleftrightarrow> signalled v s' h \<and> \<not> (v = w \<and> s' = s)"
  using assms by (auto simp: signalled_def signal_list_removeSignal signals_distinct_def)

lemma signals_distinct_addSignal: "signals_distinct h \<Longrightarrow> signals_distinct (Sequence_addSignal s w h)"
  by (auto simp: signals_distinct_def Sequence_addSignal_def Let_def heap_simps)

lemma signals_distinct_removeSignal:
  "signals_distinct h \<Longrightarrow> signals_distinct (Sequence_removeSignal s w h)"
  by (simp add: signals_distinct_def signal_list_removeSignal)

lemma addSignal_frame [heap_simps]:
  "Sequence_Load s (Sequence_addSignal s' w h) = Sequence_Load s h"
  "flags (Sequence_addSignal s' w h) = flags h"
  "waiters (Sequence_addSignal s' w h) = waiters h"
  "chans (Sequence_addSignal s' w h) = chans h"
  "blockings (Sequence_addSignal s' w h) = blockings h"
  "next_addr (Sequence_addSignal s' w h) = next_addr h"
  by (simp_all add: Sequence_addSignal_def Let_def heap_simps)

lemma removeSignal_frame [heap_simps]:
  "Sequence_Load s (Sequence_removeSignal s' w h) = Sequence_Load s h"
  "flags (Sequence_removeSignal s' w h) = flags h"
  "waiters (Sequence_removeSignal s' w h) = waiters h"
  "chans (Sequence_removeSignal s' w h) = chans h"
  "blockings (Sequence_removeSignal s' w h) = blockings h"
  "next_addr (Sequence_removeSignal s' w h) = next_addr h"
  by (simp_all add: Sequence_removeSignal_def heap_simps split: option.splits)

lemma Store_frame [heap_simps]:
  "flags (Sequence_Store s v h) = flags h"
  "blockings (Sequence_Store s v h) = blockings h"
  "pw_mode (waiters (Sequence_Store s v h) w) = pw_mode (waiters h w)"
  "seq_signals (sequences (Sequence_Store s v h) s') = seq_signals (sequences h s')"
  by (simp_all add: Sequence_Store_def heap_simps)

lemma signalled_frame [heap_simps]:
  "signalled w s (Sequence_Store s' v h) \<longleftrightarrow> signalled w s h"
  "signalled w s (Sequence_store s' v h) \<longleftrightarrow> signalled w s h"
  "signalled w s (producerWaiter_signalAll w' h) \<longleftrightarrow> signalled w s h"
  by (simp_all add: signalled_def heap_simps)

lemma signals_distinct_frame [heap_simps]:
  "signals_distinct (Sequence_Store s' v h) \<longleftrightarrow> signals_distinct h"
  "signals_distinct (Sequence_store s' v h) \<longleftrightarrow> signals_distinct h"
  "signals_distinct (producerWaiter_signalAll w' h) \<longleftrightarrow> signals_distinct h"
  by (simp_all add: signals_distinct_def heap_simps)

lemma needsSignals_frame [heap_simps]:
  "producerWaiter_needsSignals w (Sequence_Store s v h) \<longleftrightarrow> producerWaiter_needsSignals w h"
  "producerWaiter_needsSignals w (Sequence_store s v h) \<longleftrightarrow> producerWaiter_needsSignals w h"
  "producerWaiter_needsSignals w (Sequence_addSignal s w' h) \<longleftrightarrow> producerWaiter_needsSignals w h"
  "producerWaiter_needsSignals w (Sequence_removeSignal s w' h) \<longleftrightarrow> producerWaiter_needsSignals w h"
  "producerWaiter_needsSignals w (producerWaiter_signalAll w' h) \<longleftrightarrow> producerWaiter_needsSignals w h"
  by (simp_all add: producerWaiter_needsSignals_def heap_simps)

lemma heap_wf_addSignal: "heap_wf h \<Longrightarrow> heap_wf (Sequence_addSignal s w h)"
  by (erule heap_wf_cong) (simp_all add: heap_simps)

lemma heap_wf_removeSignal: "heap_wf h \<Longrightarrow> heap_wf (Sequence_removeSignal s w h)"
  by (erule heap_wf_cong) (simp_all add: heap_simps)

text \<open>A new waiter of either kind joins a well-formed store.\<close>

lemma heap_wf_newProducerWaiter:
  assumes wf: "heap_wf h" and new: "newProducerWaiter mode h = (w, h')"
  shows "heap_wf h'"
proof (cases "mode = ProducerWaitBlocking")
  case True
  then have h': "w = Suc (next_addr h)"
    "h' = h\<lparr>chans := (chans h)(next_addr h := False), next_addr := Suc (Suc (next_addr h)),
       waiters := (waiters h)(w := \<lparr>pw_mode = mode, pw_ch = next_addr h, pw_waiting = 0, pw_waits = 0\<rparr>)\<rparr>"
    using new by (auto simp: newProducerWaiter_def make_chan_def)
  have ow: "owns h' b \<longleftrightarrow> b = WaiterOwner w \<or> owns h b" for b using True by (cases b) (auto simp: h')
  have ch: "owned_chan h' b = (if b = WaiterOwner w then next_addr h else owned_chan h b)" for b
    by (cases b) (auto simp: h')
  have old: "0 < owned_chan h b \<and> owned_chan h b < next_addr h \<and> \<not> chans h (owned_chan h b)"
    if "owns h b" for b using wf that by (auto simp: heap_wf_def)
  have inj: "b = c" if "owns h b" "owns h c" "owned_chan h b = owned_chan h c" for b c
    using wf that by (auto simp: heap_wf_def)
  have pos: "0 < next_addr h" using wf by (simp add: heap_wf_def)
  have cl: "chans h' = (chans h)(next_addr h := False)" "next_addr h' = Suc (Suc (next_addr h))"
    by (simp_all add: h'(2))
  have "0 < owned_chan h' b \<and> owned_chan h' b < next_addr h' \<and> \<not> chans h' (owned_chan h' b)"
    if "owns h' b" for b
    using that [unfolded ow] pos old [of b] unfolding ch cl by (cases "b = WaiterOwner w") auto
  moreover have "b = c" if "owns h' b" "owns h' c" "owned_chan h' b = owned_chan h' c" for b c
  proof (cases "b = WaiterOwner w \<or> c = WaiterOwner w")
    case True
    with that old [of b] old [of c] show ?thesis unfolding ow ch by (auto split: if_splits)
  next
    case False
    with that have "owns h b" "owns h c" "owned_chan h b = owned_chan h c" unfolding ow ch by simp_all
    then show ?thesis by (rule inj)
  qed
  ultimately show ?thesis unfolding heap_wf_def cl by blast
next
  case False
  then have h': "h' = h\<lparr>waiters := (waiters h)(w := \<lparr>pw_mode = mode, pw_ch = 0, pw_waiting = 0, pw_waits = 0\<rparr>),
      next_addr := Suc w\<rparr>" "w = next_addr h"
    using new by (auto simp: newProducerWaiter_def Let_def)
  have "owns h' b \<longrightarrow> owns h b \<and> owned_chan h' b = owned_chan h b" for b
    using False by (cases b) (auto simp: h')
  with wf show ?thesis by (force simp: heap_wf_def h')
qed

text \<open>
  Broadcast channels: in a well-formed store a signalled waiter's channel is still open when it
  is closed, so \<open>close\<close> never panics; the parked goroutines' channel becomes ready; and the store
  stays well formed under signals, acknowledgements and new waiters.
\<close>

theorem signals_never_close_twice:
  assumes "heap_wf h"
  shows "(producerWaiter_needsSignals w h \<longrightarrow>
       \<not> chans h (producerWaiter_prepare w h) \<and>
       chan_ready (producerWaiter_prepare w h) (producerWaiter_signalAll w h)) \<and>
    heap_wf (producerWaiter_signalAll w h) \<and> heap_wf (Sequence_Store s v h) \<and>
    heap_wf (snd (newProducerWaiter mode h))"
proof -
  have "\<not> chans h (producerWaiter_prepare w h)" if "producerWaiter_needsSignals w h"
  proof -
    have "owns h (WaiterOwner w)" using that by (simp add: producerWaiter_needsSignals_def)
    then have "\<not> chans h (owned_chan h (WaiterOwner w))" using assms unfolding heap_wf_def by blast
    then show ?thesis using that by (simp add: producerWaiter_prepare_def producerWaiter_needsSignals_def)
  qed
  then show ?thesis
    using assms signalAll_wakes heap_wf_signalAll heap_wf_Store heap_wf_newProducerWaiter
    by (metis prod.collapse)
qed

theorem signals_never_close_twice_witness:
  "chan_ready (producerWaiter_prepare 2 (snd (newProducerWaiter ProducerWaitBlocking empty_heap)))
     (producerWaiter_signalAll 2 (snd (newProducerWaiter ProducerWaitBlocking empty_heap)))"
proof -
  let ?h = "snd (newProducerWaiter ProducerWaitBlocking empty_heap)"
  have "heap_wf ?h" using heap_wf_newProducerWaiter [OF heap_wf_empty] by (metis prod.collapse)
  moreover have "producerWaiter_needsSignals 2 ?h" by code_simp
  ultimately show ?thesis using signals_never_close_twice [of ?h 2] by blast
qed

end
