(* ===== verification/Wait_Strategy.thy ===== *)
theory Wait_Strategy
  imports Sequences
begin

text \<open>
  The four consumer wait strategies of \<open>wait_strategy.go\<close>. Each \<open>waitFor\<close> is a loop over turns
  (see \<open>Sequences\<close>) and returns its result with the turns it did not use. The locale
  \<open>wait_strategy\<close> is the contract the barrier relies on; it is interpreted for each strategy.
\<close>

section \<open>Wait state and check\<close>

record waitState =
  ws_alerted :: addr
  ws_closed :: addr
  ws_closedCh :: addr

definition checkWait :: "error option \<Rightarrow> waitState \<Rightarrow> heap \<Rightarrow> error option" where
  "checkWait ctx state h =
     (if flags h (ws_alerted state) then Some ErrAlerted
      else if flags h (ws_closed state) then Some ErrClosed
      else ctx)"

type_synonym 'b wait_result = "((error + int64) \<times> (heap \<times> 'b) turn list \<times> heap \<times> 'b) option"

section \<open>The strategies\<close>

datatype WaitStrategy =
    BusySpinWaitStrategy
  | YieldingWaitStrategy
  | SleepingWaitStrategy (SpinTries: int64) (YieldTries: int64) (Sleep: int64)
  | BlockingWaitStrategy addr

definition BusySpinWait :: WaitStrategy where
  "BusySpinWait = BusySpinWaitStrategy"

definition YieldingWait :: WaitStrategy where
  "YieldingWait = YieldingWaitStrategy"

text \<open>The sleep is a \<open>time.Duration\<close> in nanoseconds: \<open>time.Microsecond\<close>.\<close>

definition SleepingWait :: WaitStrategy where
  "SleepingWait = SleepingWaitStrategy 100 100 1000"

definition BlockingWait :: "heap \<Rightarrow> WaitStrategy \<times> heap" where
  "BlockingWait h =
     (let (ch, h1) = make_chan h; a = next_addr h1
      in (BlockingWaitStrategy a,
          h1\<lparr>blockings := (blockings h1)(a := ch), next_addr := Suc a\<rparr>))"

fun BusySpin_waitFor ::
  "int64 \<Rightarrow> (heap \<times> 'b) turn list \<Rightarrow> int64 \<Rightarrow> sequenceReader \<Rightarrow> waitState \<Rightarrow> heap \<times> 'b \<Rightarrow> 'b wait_result"
where
  "BusySpin_waitFor spins [] desired dependent state hb = None"
| "BusySpin_waitFor spins (t # ts) desired dependent state hb =
     (let (h, b) = t_pre t hb; available = sequenceReader_Load dependent h in
      if available \<ge> desired then Some (Inr available, ts, h, b)
      else let (h1, b1) = t_mid t (h, b) in
        if spins AND 63 = 0 then
          (case checkWait (t_ctx t) state h1 of
             Some err \<Rightarrow> Some (Inl err, ts, h1, b1)
           | None \<Rightarrow> BusySpin_waitFor (i64 (spins + 1)) ts desired dependent state (h1, b1))
        else BusySpin_waitFor (i64 (spins + 1)) ts desired dependent state (h1, b1))"

fun Yielding_waitFor ::
  "(heap \<times> 'b) turn list \<Rightarrow> int64 \<Rightarrow> sequenceReader \<Rightarrow> waitState \<Rightarrow> heap \<times> 'b \<Rightarrow> 'b wait_result"
where
  "Yielding_waitFor [] desired dependent state hb = None"
| "Yielding_waitFor (t # ts) desired dependent state hb =
     (let (h, b) = t_pre t hb; available = sequenceReader_Load dependent h in
      if available \<ge> desired then Some (Inr available, ts, h, b)
      else let (h1, b1) = t_mid t (h, b) in
        (case checkWait (t_ctx t) state h1 of
           Some err \<Rightarrow> Some (Inl err, ts, h1, b1)
         | None \<Rightarrow>
             let (h2, b2) = t_park t (h1, b1)
             in Yielding_waitFor ts desired dependent state (h2, b2)))"

text \<open>
  The sleeping strategy spins, then yields, then sleeps on a timer. When its \<open>select\<close> resolves the
  timer has fired, or one of the other two cases was ready before it and is the one taken.
\<close>

fun Sleeping_waitFor ::
  "int64 \<Rightarrow> int64 \<Rightarrow> int64 \<Rightarrow> (heap \<times> 'b) turn list \<Rightarrow> int64 \<Rightarrow> sequenceReader \<Rightarrow> waitState \<Rightarrow>
   heap \<times> 'b \<Rightarrow> 'b wait_result"
where
  "Sleeping_waitFor spinTries yieldTries tries [] desired dependent state hb = None"
| "Sleeping_waitFor spinTries yieldTries tries (t # ts) desired dependent state hb =
     (let (h, b) = t_pre t hb; available = sequenceReader_Load dependent h in
      if available \<ge> desired then Some (Inr available, ts, h, b)
      else let (h1, b1) = t_mid t (h, b) in
        (case checkWait (t_ctx t) state h1 of
           Some err \<Rightarrow> Some (Inl err, ts, h1, b1)
         | None \<Rightarrow>
             if tries < spinTries then
               Sleeping_waitFor spinTries yieldTries (i64 (tries + 1)) ts desired dependent state (h1, b1)
             else if tries < i64 (spinTries + yieldTries) then
               (let (h2, b2) = t_park t (h1, b1)
                in Sleeping_waitFor spinTries yieldTries (i64 (tries + 1)) ts desired dependent state
                     (h2, b2))
             else let (h2, b2) = t_park t (h1, b1) in
               (case select_case (t_pick t)
                       [(t_ctx t \<noteq> None, t_ctx t),
                        (chan_ready (ws_closedCh state) h2, Some ErrClosed),
                        (True, None)] of
                  Some (Some err) \<Rightarrow> Some (Inl err, ts, h2, b2)
                | _ \<Rightarrow> Sleeping_waitFor spinTries yieldTries (i64 (tries + 1)) ts desired dependent state
                         (h2, b2))))"

text \<open>
  The blocking strategy parks on its channel until the producer cursor reaches the desired
  sequence and then yields until the dependency does.
\<close>

fun Blocking_waitFor ::
  "addr \<Rightarrow> (heap \<times> 'b) turn list \<Rightarrow> int64 \<Rightarrow> sequenceReader \<Rightarrow> sequenceReader \<Rightarrow> waitState \<Rightarrow>
   heap \<times> 'b \<Rightarrow> 'b wait_result"
where
  "Blocking_waitFor s [] desired cursor dependent state hb = None"
| "Blocking_waitFor s (t # ts) desired cursor dependent state hb =
     (let (h, b) = t_pre t hb in
      if \<not> sequenceReader_Load cursor h < desired
      then Yielding_waitFor ts desired dependent state (h, b)
      else let ch = blockings h s; (h1, b1) = t_mid t (h, b) in
        if sequenceReader_Load cursor h1 \<ge> desired
        then Yielding_waitFor ts desired dependent state (h1, b1)
        else
          (case checkWait (t_ctx t) state h1 of
             Some err \<Rightarrow> Some (Inl err, ts, h1, b1)
           | None \<Rightarrow>
               let (h2, b2) = t_park t (h1, b1) in
               (case select_case (t_pick t)
                       [(chan_ready ch h2, None),
                        (t_ctx t \<noteq> None, t_ctx t),
                        (chan_ready (ws_closedCh state) h2, Some ErrClosed)] of
                  None \<Rightarrow> None
                | Some (Some err) \<Rightarrow> Some (Inl err, ts, h2, b2)
                | Some None \<Rightarrow> Blocking_waitFor s ts desired cursor dependent state (h2, b2))))"

fun WaitStrategy_waitFor ::
  "WaitStrategy \<Rightarrow> (heap \<times> 'b) turn list \<Rightarrow> int64 \<Rightarrow> sequenceReader \<Rightarrow> sequenceReader \<Rightarrow> waitState \<Rightarrow>
   heap \<times> 'b \<Rightarrow> 'b wait_result"
where
  "WaitStrategy_waitFor BusySpinWaitStrategy ts desired cursor dependent state hb =
     BusySpin_waitFor 0 ts desired dependent state hb"
| "WaitStrategy_waitFor YieldingWaitStrategy ts desired cursor dependent state hb =
     Yielding_waitFor ts desired dependent state hb"
| "WaitStrategy_waitFor (SleepingWaitStrategy spinTries yieldTries sleep) ts desired cursor dependent state hb =
     Sleeping_waitFor spinTries yieldTries 0 ts desired dependent state hb"
| "WaitStrategy_waitFor (BlockingWaitStrategy s) ts desired cursor dependent state hb =
     Blocking_waitFor s ts desired cursor dependent state hb"

fun WaitStrategy_signalAll :: "WaitStrategy \<Rightarrow> heap \<Rightarrow> heap" where
  "WaitStrategy_signalAll (BlockingWaitStrategy s) h =
     (let (ch, h1) = make_chan (close_chan (blockings h s) h)
      in h1\<lparr>blockings := (blockings h1)(s := ch)\<rparr>)"
| "WaitStrategy_signalAll _ h = h"

section \<open>The contract of a wait strategy\<close>

text \<open>
  Why a wait may end with an error: the barrier is alerted, the ring is closed, or the context of
  some turn is done.
\<close>

definition wait_cause :: "(heap \<times> 'b) turn list \<Rightarrow> waitState \<Rightarrow> heap \<Rightarrow> error \<Rightarrow> bool" where
  "wait_cause ts state h err \<longleftrightarrow>
     err = ErrAlerted \<and> flags h (ws_alerted state) \<or>
     err = ErrClosed \<and> (flags h (ws_closed state) \<or> chan_ready (ws_closedCh state) h) \<or>
     (\<exists>t \<in> set ts. t_ctx t = Some err)"

locale wait_strategy =
  fixes waitFor :: "(heap \<times> 'b) turn list \<Rightarrow> int64 \<Rightarrow> sequenceReader \<Rightarrow> sequenceReader \<Rightarrow>
    waitState \<Rightarrow> heap \<times> 'b \<Rightarrow> 'b wait_result"
  assumes reached: "waitFor ts desired cursor dependent state hb = Some (Inr available, ts', h, b)
      \<Longrightarrow> desired \<le> available \<and> available = sequenceReader_Load dependent h"
    and failed: "waitFor ts desired cursor dependent state hb = Some (Inl err, ts', h, b)
      \<Longrightarrow> wait_cause ts state h err"
    and visible: "desired \<le> sequenceReader_Load dependent h \<Longrightarrow>
      desired \<le> sequenceReader_Load cursor h \<Longrightarrow>
      \<exists>ts'. waitFor (quiet # quiet # ts) desired cursor dependent state (h, b)
        = Some (Inr (sequenceReader_Load dependent h), ts', h, b)"
    and interrupted: "sequenceReader_Load dependent h < desired \<Longrightarrow>
      checkWait None state h = Some err \<Longrightarrow>
      \<exists>ts'. waitFor (quiet # quiet # ts) desired cursor dependent state (h, b)
        = Some (Inl err, ts', h, b)"
begin

lemma never_short:
  "waitFor ts desired cursor dependent state hb = Some (Inr available, ts', h, b) \<Longrightarrow>
   \<not> available < desired"
  using reached by fastforce

text \<open>With nobody else running, a closed or alerted wait ends at once, one way or the other.\<close>

lemma decided:
  assumes "checkWait None state h = Some err"
    and "desired \<le> sequenceReader_Load dependent h \<longrightarrow> desired \<le> sequenceReader_Load cursor h"
  shows "\<exists>ts'. waitFor (quiet # quiet # ts) desired cursor dependent state (h, b) =
    Some (if desired \<le> sequenceReader_Load dependent h
          then Inr (sequenceReader_Load dependent h) else Inl err, ts', h, b)"
proof (cases "desired \<le> sequenceReader_Load dependent h")
  case True
  with assms(2) visible [of desired dependent h cursor ts state b] show ?thesis by simp
next
  case False
  with assms(1) interrupted [of dependent h desired state err ts cursor b] show ?thesis by simp
qed

end

lemma checkWait_cause:
  "checkWait (t_ctx t) state h = Some err \<Longrightarrow> t \<in> set ts \<Longrightarrow> wait_cause ts state h err"
  by (auto simp: checkWait_def wait_cause_def split: if_splits)

lemma wait_cause_Cons: "wait_cause ts state h err \<Longrightarrow> wait_cause (t # ts) state h err"
  by (auto simp: wait_cause_def)

lemma BusySpin_reached:
  "BusySpin_waitFor spins ts desired dependent state hb = Some (Inr available, ts', h, b) \<Longrightarrow>
   desired \<le> available \<and> available = sequenceReader_Load dependent h"
  by (induction ts arbitrary: spins hb)
    (auto simp: Let_def split: prod.splits if_splits option.splits)

lemma BusySpin_failed:
  "BusySpin_waitFor spins ts desired dependent state hb = Some (Inl err, ts', h, b) \<Longrightarrow>
   wait_cause ts state h err"
  by (induction ts arbitrary: spins hb)
    (auto simp: Let_def split: prod.splits if_splits option.splits
      intro: checkWait_cause wait_cause_Cons)

interpretation busy_spin: wait_strategy
  "\<lambda>ts desired cursor dependent state hb. BusySpin_waitFor 0 ts desired dependent state hb"
  by unfold_locales (auto dest: BusySpin_reached BusySpin_failed)

lemma Yielding_reached:
  "Yielding_waitFor ts desired dependent state hb = Some (Inr available, ts', h, b) \<Longrightarrow>
   desired \<le> available \<and> available = sequenceReader_Load dependent h"
  by (induction ts arbitrary: hb)
    (auto simp: Let_def split: prod.splits if_splits option.splits)

lemma Yielding_failed:
  "Yielding_waitFor ts desired dependent state hb = Some (Inl err, ts', h, b) \<Longrightarrow>
   wait_cause ts state h err"
  by (induction ts arbitrary: hb)
    (auto simp: Let_def split: prod.splits if_splits option.splits
      intro: checkWait_cause wait_cause_Cons, metis surj_pair wait_cause_Cons)

interpretation yielding: wait_strategy
  "\<lambda>ts desired cursor dependent state hb. Yielding_waitFor ts desired dependent state hb"
  by unfold_locales (auto dest: Yielding_reached Yielding_failed)

lemma Sleeping_reached:
  "Sleeping_waitFor st yt tries ts desired dependent state hb = Some (Inr available, ts', h, b) \<Longrightarrow>
   desired \<le> available \<and> available = sequenceReader_Load dependent h"
  by (induction ts arbitrary: tries hb)
    (auto simp: Let_def split: prod.splits if_splits option.splits)

text \<open>A \<open>select\<close> with a context and a closed channel fails only for one of the two.\<close>

lemma select_cause:
  assumes "(True, Some err) \<in> {(x, None), (t_ctx t \<noteq> None, t_ctx t),
                     (chan_ready (ws_closedCh state) h, Some ErrClosed)}"
  shows "wait_cause (t # ts) state h err"
  using assms by (auto simp: wait_cause_def)

lemma select_cause_park:
  "select_case pick [(x, None), (t_ctx t \<noteq> None, t_ctx t),
     (chan_ready (ws_closedCh state) h, Some ErrClosed)] = Some (Some err) \<Longrightarrow>
   wait_cause (t # ts) state h err"
  by (rule select_cause, drule select_case_Some) simp

lemma select_cause_sleep:
  "select_case pick [(t_ctx t \<noteq> None, t_ctx t),
     (chan_ready (ws_closedCh state) h, Some ErrClosed), (x, None)] = Some (Some err) \<Longrightarrow>
   wait_cause (t # ts) state h err"
  by (rule select_cause, drule select_case_Some) auto

lemma Sleeping_failed:
  "Sleeping_waitFor st yt tries ts desired dependent state hb = Some (Inl err, ts', h, b) \<Longrightarrow>
   wait_cause ts state h err"
  by (induction ts arbitrary: tries hb)
    (auto simp: Let_def split: prod.splits if_splits option.splits
      intro: checkWait_cause wait_cause_Cons select_cause_sleep,
      metis surj_pair wait_cause_Cons)

interpretation sleeping: wait_strategy
  "\<lambda>ts desired cursor dependent state hb. Sleeping_waitFor st yt 0 ts desired dependent state hb"
  for st yt
  by unfold_locales (auto dest: Sleeping_reached Sleeping_failed)

lemma Blocking_reached:
  "Blocking_waitFor s ts desired cursor dependent state hb = Some (Inr available, ts', h, b) \<Longrightarrow>
   desired \<le> available \<and> available = sequenceReader_Load dependent h"
  by (induction ts arbitrary: hb)
    (auto simp: Let_def dest: Yielding_reached split: prod.splits if_splits option.splits)

lemma Blocking_failed:
  "Blocking_waitFor s ts desired cursor dependent state hb = Some (Inl err, ts', h, b) \<Longrightarrow>
   wait_cause ts state h err"
proof (induction ts arbitrary: hb)
  case (Cons t ts)
  have inner: "Yielding_waitFor ts desired dependent state hb = Some (Inl err, ts', h, b) \<Longrightarrow>
      wait_cause (t # ts) state h err" for hb
    by (rule wait_cause_Cons, erule Yielding_failed)
  from Cons.prems show ?case
    by (auto simp: Let_def simp del: not_None_eq split: prod.splits if_splits option.splits
      intro: checkWait_cause wait_cause_Cons Cons.IH
      dest!: inner select_cause_park [where ts = ts])
qed simp

interpretation blocking: wait_strategy "Blocking_waitFor s" for s
  by unfold_locales (auto dest: Blocking_reached Blocking_failed simp: checkWait_def)

text \<open>The dispatch on the strategy's type satisfies the contract because every strategy does.\<close>

lemma WaitStrategy_waitFor_eqs:
  "WaitStrategy_waitFor BusySpinWaitStrategy =
     (\<lambda>ts desired cursor dependent state hb. BusySpin_waitFor 0 ts desired dependent state hb)"
  "WaitStrategy_waitFor YieldingWaitStrategy =
     (\<lambda>ts desired cursor dependent state hb. Yielding_waitFor ts desired dependent state hb)"
  "WaitStrategy_waitFor (SleepingWaitStrategy st yt sl) =
     (\<lambda>ts desired cursor dependent state hb. Sleeping_waitFor st yt 0 ts desired dependent state hb)"
  "WaitStrategy_waitFor (BlockingWaitStrategy s) = Blocking_waitFor s"
  by (intro ext, simp)+

interpretation strategy: wait_strategy "WaitStrategy_waitFor w" for w
  by (cases w)
    (simp_all only: WaitStrategy_waitFor_eqs busy_spin.wait_strategy_axioms
      yielding.wait_strategy_axioms sleeping.wait_strategy_axioms blocking.wait_strategy_axioms)

section \<open>Properties\<close>

text \<open>
  C18. Every wait strategy keeps its contract, whatever the other goroutines do: it returns a sequence
  only when the dependency has reached it and then returns the dependency's position, and it fails
  only because the barrier is alerted, the ring is closed or the context is done.
\<close>

theorem wait_strategy_sound:
  assumes "WaitStrategy_waitFor w ts desired cursor dependent state hb = Some (r, ts', h, b)"
  shows "case r of
      Inr avail \<Rightarrow> desired \<le> avail \<and> avail = sequenceReader_Load dependent h
    | Inl err \<Rightarrow> wait_cause ts state h err"
proof (cases r)
  case (Inl err)
  with strategy.failed [OF assms [unfolded Inl]] show ?thesis by simp
next
  case (Inr avail)
  with strategy.reached [OF assms [unfolded Inr]] show ?thesis by simp
qed

theorem wait_strategy_sound_witness:
  "WaitStrategy_waitFor YieldingWait [quiet] 0 (SequenceReader 5) (SequenceReader 5)
     \<lparr>ws_alerted = 0, ws_closed = 0, ws_closedCh = 0\<rparr> (empty_heap, ()) = Some (Inr 0, [], empty_heap, ()) \<and>
   (0 :: int64) \<le> 0"
proof -
  have w: "WaitStrategy_waitFor YieldingWait [quiet] 0 (SequenceReader 5) (SequenceReader 5)
     \<lparr>ws_alerted = 0, ws_closed = 0, ws_closedCh = 0\<rparr> (empty_heap, ()) = Some (Inr 0, [], empty_heap, ())"
    by (simp add: YieldingWait_def Sequence_Load_def empty_heap_def)
  from wait_strategy_sound [OF this] w show ?thesis by simp
qed

text \<open>
  C27. Every wait strategy returns: with nobody else running, a wait whose sequence is visible returns it
  within two turns, and a wait on a closed or alerted barrier ends with that error within two turns.
\<close>

theorem wait_strategy_returns:
  assumes "desired \<le> sequenceReader_Load dependent h \<longrightarrow> desired \<le> sequenceReader_Load cursor h"
  shows "(desired \<le> sequenceReader_Load dependent h \<longrightarrow>
      (\<exists>ts'. WaitStrategy_waitFor w (quiet # quiet # ts) desired cursor dependent state (h, b) =
         Some (Inr (sequenceReader_Load dependent h), ts', h, b))) \<and>
    (\<forall>err. checkWait None state h = Some err \<and> sequenceReader_Load dependent h < desired \<longrightarrow>
      (\<exists>ts'. WaitStrategy_waitFor w (quiet # quiet # ts) desired cursor dependent state (h, b) =
         Some (Inl err, ts', h, b)))"
  using assms strategy.visible [of desired dependent h cursor w ts state b]
    strategy.interrupted [of dependent h desired state _ w ts cursor b] by blast

theorem wait_strategy_returns_witness:
  "\<exists>ts'. WaitStrategy_waitFor (BlockingWaitStrategy 9) [quiet, quiet] 0 (SequenceReader 5) (SequenceReader 5)
     \<lparr>ws_alerted = 0, ws_closed = 0, ws_closedCh = 0\<rparr> (empty_heap, ()) = Some (Inr 0, ts', empty_heap, ())"
proof -
  have "sequenceReader_Load (SequenceReader 5) empty_heap = 0" by (simp add: Sequence_Load_def empty_heap_def)
  then show ?thesis
    using wait_strategy_returns [of 0 "SequenceReader 5" empty_heap "SequenceReader 5"
        "BlockingWaitStrategy 9" "[]" "\<lparr>ws_alerted = 0, ws_closed = 0, ws_closedCh = 0\<rparr>" "()"] by auto
qed

end
