(* ===== verification/Sequencer_Base.thy ===== *)
theory Sequencer_Base
  imports Wait_Strategy
begin

text \<open>
  \<open>sequencerBase\<close> of \<open>sequencer.go\<close>: the state both sequencers embed, the registration of gating
  sequences, the wait for capacity, and closing and draining a ring. The sequencers extend the
  record, as the Go structs embed the pointer, and every operation here works on any extension.
  The gating list is the copy-on-write snapshot the source keeps behind an atomic pointer; the
  mutex that serialises registrations makes each of them one step.
\<close>

section \<open>State\<close>

record sequencerBase =
  bufferSize :: int64
  cursor :: addr
  wait_with :: WaitStrategy
  producerWait :: addr
  gating :: "addr list"
  closed_flag :: addr
  sealed :: bool
  closedCh :: addr
  closeOnce :: bool

record SequenceBarrier =
  sb_wait :: WaitStrategy
  sb_cursor :: addr
  sb_dependent :: sequenceReader
  sb_alerted :: addr
  sb_closed :: addr
  sb_closedCh :: addr

text \<open>A \<open>nil\<close> strategy is replaced by a blocking one.\<close>

definition newSequencerBase ::
  "int64 \<Rightarrow> WaitStrategy option \<Rightarrow> ProducerWaitMode \<Rightarrow> heap \<Rightarrow> sequencerBase \<times> heap"
where
  "newSequencerBase bsize wait mode h =
     (let (strategy, h0) = (case wait of None \<Rightarrow> BlockingWait h | Some w \<Rightarrow> (w, h));
          (cur, h1) = NewSequence InitialSequence h0;
          (waiter, h2) = newProducerWaiter mode h1;
          (ch, h3) = make_chan h2;
          (flag, h4) = new_flag h3
      in (\<lparr>bufferSize = bsize, cursor = cur, wait_with = strategy, producerWait = waiter,
           gating = [], closed_flag = flag, sealed = False, closedCh = ch, closeOnce = False\<rparr>, h4))"

section \<open>Gates\<close>

fun add_gates :: "addr \<Rightarrow> int64 \<Rightarrow> addr option list \<Rightarrow> addr list \<Rightarrow> heap \<Rightarrow> addr list \<times> heap" where
  "add_gates waiter cur [] next h = (next, h)"
| "add_gates waiter cur (None # rest) next h = add_gates waiter cur rest next h"
| "add_gates waiter cur (Some sequence # rest) next h =
     (let h1 = Sequence_Store sequence cur h;
          h2 = (if producerWaiter_needsSignals waiter h1
                then Sequence_addSignal sequence waiter h1 else h1)
      in add_gates waiter cur rest (next @ [sequence]) h2)"

definition base_AddGatingSequences ::
  "addr option list \<Rightarrow> heap \<times> 'a sequencerBase_scheme \<Rightarrow> heap \<times> 'a sequencerBase_scheme"
where
  "base_AddGatingSequences ss hb =
     (let (h, b) = hb in
      if flags h (closed_flag b) then (h, b)
      else let (next, h1) = add_gates (producerWait b) (Sequence_Load (cursor b) h) ss (gating b) h
           in (h1, b\<lparr>gating := next\<rparr>))"

definition base_RemoveGatingSequence ::
  "addr \<Rightarrow> heap \<times> 'a sequencerBase_scheme \<Rightarrow> bool \<times> heap \<times> 'a sequencerBase_scheme"
where
  "base_RemoveGatingSequence target hb =
     (let (h, b) = hb in
      case find_index target (gating b) of
        None \<Rightarrow> (False, h, b)
      | Some found \<Rightarrow>
          (let next = remove_index found (gating b); b1 = b\<lparr>gating := next\<rparr> in
           if producerWaiter_needsSignals (producerWait b) h then
             (let h1 = (if target \<in> set next then h
                        else Sequence_removeSignal target (producerWait b) h)
              in (True, producerWaiter_signalAll (producerWait b) h1, b1))
           else (True, h, b1)))"

definition base_minimumGate :: "int64 \<Rightarrow> heap \<Rightarrow> 'a sequencerBase_scheme \<Rightarrow> int64" where
  "base_minimumGate fallback h b = minimumSequence (gating b) fallback h"

definition base_NewBarrier ::
  "addr list \<Rightarrow> heap \<times> 'a sequencerBase_scheme \<Rightarrow> SequenceBarrier \<times> heap"
where
  "base_NewBarrier dependencies hb =
     (let (h, b) = hb; (alert, h1) = new_flag h;
          dependent = (if dependencies = [] then SequenceReader (cursor b)
                       else GroupReader dependencies)
      in (\<lparr>sb_wait = wait_with b, sb_cursor = cursor b, sb_dependent = dependent,
           sb_alerted = alert, sb_closed = closed_flag b, sb_closedCh = closedCh b\<rparr>, h1))"

section \<open>Closing and draining\<close>

fun remove_signals :: "addr \<Rightarrow> addr list \<Rightarrow> addr list \<Rightarrow> heap \<Rightarrow> heap" where
  "remove_signals waiter seen [] h = h"
| "remove_signals waiter seen (sequence # rest) h =
     (if sequence \<in> set seen then remove_signals waiter seen rest h
      else remove_signals waiter (sequence # seen) rest (Sequence_removeSignal sequence waiter h))"

definition base_removeGateSignals :: "heap \<Rightarrow> 'a sequencerBase_scheme \<Rightarrow> heap" where
  "base_removeGateSignals h b =
     (if \<not> producerWaiter_needsSignals (producerWait b) h then h
      else remove_signals (producerWait b) [] (gating b) h)"

definition base_Close :: "heap \<times> 'a sequencerBase_scheme \<Rightarrow> heap \<times> 'a sequencerBase_scheme" where
  "base_Close hb =
     (let (h, b) = hb; b1 = b\<lparr>sealed := True\<rparr> in
      if closeOnce b then (h, b1)
      else let h1 = flag_Store (closed_flag b) True h;
               h2 = close_chan (closedCh b) h1;
               h3 = producerWaiter_signalAll (producerWait b) h2;
               h4 = WaitStrategy_signalAll (wait_with b) h3
           in (base_removeGateSignals h4 b, b1\<lparr>closeOnce := True\<rparr>))"

definition base_beginShutdown ::
  "heap \<times> 'a sequencerBase_scheme \<Rightarrow> error option \<times> heap \<times> 'a sequencerBase_scheme"
where
  "base_beginShutdown hb =
     (let (h, b) = hb in
      if flags h (closed_flag b) \<or> sealed b then (Some ErrClosed, h, b)
      else (None, producerWaiter_signalAll (producerWait b) h, b\<lparr>sealed := True\<rparr>))"

type_synonym 'a base_turns = "(heap \<times> 'a sequencerBase_scheme) turn list"

text \<open>
  The drain loop watches the snapshot of the gates taken when it starts; \<open>Close\<close> is deferred, so
  it runs on every return.
\<close>

fun drain_loop ::
  "'a base_turns \<Rightarrow> addr list \<Rightarrow> int64 \<Rightarrow> heap \<times> 'a sequencerBase_scheme \<Rightarrow>
   (error option \<times> 'a base_turns \<times> heap \<times> 'a sequencerBase_scheme) option"
where
  "drain_loop [] gates boundary hb = None"
| "drain_loop (t # ts) gates boundary hb =
     (let (h, b) = t_pre t hb in
      if \<not> minimumSequence gates boundary h < boundary then Some (None, ts, h, b)
      else let (h1, b1) = t_mid t (h, b) in
        if flags h1 (closed_flag b1) then Some (Some ErrClosed, ts, h1, b1)
        else
          (case t_ctx t of
             Some err \<Rightarrow> Some (Some err, ts, h1, b1)
           | None \<Rightarrow> (let (h2, b2) = t_park t (h1, b1) in drain_loop ts gates boundary (h2, b2))))"

definition base_awaitShutdown ::
  "'a base_turns \<Rightarrow> int64 \<Rightarrow> heap \<times> 'a sequencerBase_scheme \<Rightarrow>
   (error option \<times> 'a base_turns \<times> heap \<times> 'a sequencerBase_scheme) option"
where
  "base_awaitShutdown ts boundary hb =
     (case drain_loop ts (gating (snd hb)) boundary hb of
        None \<Rightarrow> None
      | Some (r, ts', hb') \<Rightarrow> Some (r, ts', base_Close hb'))"

section \<open>Waiting for capacity\<close>

fun base_waitForCapacity ::
  "'a base_turns \<Rightarrow> int64 \<Rightarrow> int64 \<Rightarrow> heap \<times> 'a sequencerBase_scheme \<Rightarrow>
   ((error + int64) \<times> 'a base_turns \<times> heap \<times> 'a sequencerBase_scheme) option"
where
  "base_waitForCapacity [] wrapPoint fallback hb = None"
| "base_waitForCapacity (t # ts) wrapPoint fallback hb =
     (let (h, b) = t_pre t hb in
      if sealed b then Some (Inl ErrClosed, ts, h, b)
      else let prepared = producerWaiter_prepare (producerWait b) h;
               (h1, b1) = t_mid t (h, b);
               minimum = base_minimumGate fallback h1 b1 in
        if wrapPoint \<le> minimum then Some (Inr minimum, ts, h1, b1)
        else
          (case producerWaiter_wait (producerWait b1) t prepared (closedCh b1) (h1, b1) of
             None \<Rightarrow> None
           | Some (Some err, h2, b2) \<Rightarrow> Some (Inl err, ts, h2, b2)
           | Some (None, h2, b2) \<Rightarrow> base_waitForCapacity ts wrapPoint fallback (h2, b2)))"

section \<open>Registration of gates\<close>

lemma add_gates_list:
  "fst (add_gates w c ss next h) = next @ List.map_filter (\<lambda>s. s) ss"
  by (induction w c ss "next" h rule: add_gates.induct) (simp_all add: Let_def)

lemma add_gates_Load:
  "Sequence_Load s (snd (add_gates w c ss next h)) =
     (if Some s \<in> set ss then c else Sequence_Load s h)"
  by (induction w c ss "next" h rule: add_gates.induct) (auto simp: Let_def heap_simps)

lemma add_gates_frame [heap_simps]:
  "flags (snd (add_gates w c ss next h)) = flags h"
  "blockings (snd (add_gates w c ss next h)) = blockings h"
  "producerWaiter_needsSignals v (snd (add_gates w c ss next h)) \<longleftrightarrow> producerWaiter_needsSignals v h"
  by (induction w c ss "next" h rule: add_gates.induct) (simp_all add: Let_def heap_simps)

lemma add_gates_signalled:
  "signalled v s (snd (add_gates w c ss next h)) \<longleftrightarrow>
     signalled v s h \<or> producerWaiter_needsSignals w h \<and> v = w \<and> Some s \<in> set ss"
  by (induction w c ss "next" h rule: add_gates.induct)
    (auto simp: Let_def heap_simps signalled_addSignal)

lemma add_gates_wf:
  "heap_wf h \<Longrightarrow> heap_wf (snd (add_gates w c ss next h))"
  by (induction w c ss "next" h rule: add_gates.induct)
    (simp_all add: Let_def heap_wf_Store heap_wf_addSignal)

lemma add_gates_distinct:
  "signals_distinct h \<Longrightarrow> signals_distinct (snd (add_gates w c ss next h))"
  by (induction w c ss "next" h rule: add_gates.induct)
    (simp_all add: Let_def heap_simps signals_distinct_addSignal)

lemma in_map_filter_id: "s \<in> set (List.map_filter (\<lambda>s. s) ss) \<longleftrightarrow> Some s \<in> set ss"
  by (induction ss) (auto simp: List.map_filter_simps split: option.splits)

text \<open>
  Exact registration: the ring's waiter is signalled by a sequence if and only if the ring waits
  on a channel and the sequence is one of its gates.
\<close>

definition gates_signalled :: "heap \<times> 'a sequencerBase_scheme \<Rightarrow> bool" where
  "gates_signalled hb \<longleftrightarrow>
     (let (h, b) = hb in
      signals_distinct h \<and>
      (\<forall>s. signalled (producerWait b) s h \<longleftrightarrow>
         producerWaiter_needsSignals (producerWait b) h \<and> s \<in> set (gating b)))"

lemma AddGatingSequences_open:
  assumes "\<not> flags h (closed_flag b)"
  shows "base_AddGatingSequences ss (h, b) =
    (snd (add_gates (producerWait b) (Sequence_Load (cursor b) h) ss (gating b) h),
     b\<lparr>gating := gating b @ List.map_filter (\<lambda>s. s) ss\<rparr>)"
  using assms add_gates_list
  by (auto simp: base_AddGatingSequences_def split: prod.splits) (metis fst_conv)

lemma gates_signalled_add:
  assumes "gates_signalled (h, b)"
  shows "gates_signalled (base_AddGatingSequences ss (h, b))"
proof (cases "flags h (closed_flag b)")
  case True
  then show ?thesis using assms by (simp add: base_AddGatingSequences_def)
next
  case False
  with assms show ?thesis
    by (auto simp: AddGatingSequences_open gates_signalled_def add_gates_signalled heap_simps
        in_map_filter_id add_gates_distinct)
qed

lemma gates_signalled_remove:
  assumes "gates_signalled (h, b)"
  shows "gates_signalled (snd (base_RemoveGatingSequence target (h, b)))"
proof (cases "find_index target (gating b)")
  case None
  then show ?thesis using assms by (simp add: base_RemoveGatingSequence_def)
next
  case (Some i)
  let ?next = "remove1 target (gating b)"
  let ?h1 = "if target \<in> set ?next then h else Sequence_removeSignal target (producerWait b) h"
  have mem: "s \<in> set ?next \<longleftrightarrow> s \<in> set (gating b) \<and> (s = target \<longrightarrow> target \<in> set ?next)" for s
    using set_remove1_subset [of target "gating b"] by (cases "s = target") auto
  have dist: "signals_distinct h" and sig: "\<And>s. signalled (producerWait b) s h \<longleftrightarrow>
      producerWaiter_needsSignals (producerWait b) h \<and> s \<in> set (gating b)"
    using assms by (auto simp: gates_signalled_def)
  have "signalled (producerWait b) s ?h1 \<longleftrightarrow>
      producerWaiter_needsSignals (producerWait b) h \<and> s \<in> set ?next"
    if "producerWaiter_needsSignals (producerWait b) h" for s
    using that mem [of s] dist sig by (simp add: signalled_removeSignal)
  moreover have "signals_distinct ?h1" using dist by (simp add: signals_distinct_removeSignal)
  ultimately show ?thesis
    using Some dist sig
    by (simp add: base_RemoveGatingSequence_def gates_signalled_def Let_def heap_simps
        find_index_remove1)
qed

lemma gates_signalled_Store:
  "gates_signalled (h, b) \<Longrightarrow> gates_signalled (Sequence_Store s v h, b)"
  by (simp add: gates_signalled_def heap_simps)

lemma RemoveGatingSequence_gating:
  "fst (base_RemoveGatingSequence target (h, b)) \<longleftrightarrow> target \<in> set (gating b)"
  "gating (snd (snd (base_RemoveGatingSequence target (h, b)))) = remove1 target (gating b)"
  using find_index_None [of target "gating b"]
  by (auto simp: base_RemoveGatingSequence_def Let_def find_index_remove1 remove1_idem
      split: option.splits)

section \<open>Close\<close>

lemma remove_signals_frame [heap_simps]:
  "Sequence_Load s (remove_signals w seen ss h) = Sequence_Load s h"
  "flags (remove_signals w seen ss h) = flags h"
  "waiters (remove_signals w seen ss h) = waiters h"
  "chans (remove_signals w seen ss h) = chans h"
  "blockings (remove_signals w seen ss h) = blockings h"
  "next_addr (remove_signals w seen ss h) = next_addr h"
  by (induction w seen ss h rule: remove_signals.induct) (simp_all add: heap_simps)

lemma remove_signals_signalled:
  "signals_distinct h \<Longrightarrow>
   signalled v s (remove_signals w seen ss h) \<longleftrightarrow>
     signalled v s h \<and> \<not> (v = w \<and> s \<in> set ss \<and> s \<notin> set seen)"
  by (induction w seen ss h rule: remove_signals.induct)
    (auto simp: signalled_removeSignal signals_distinct_removeSignal)

lemma WaitStrategy_signalAll_frame [heap_simps]:
  "sequences (WaitStrategy_signalAll ws h) = sequences h"
  "flags (WaitStrategy_signalAll ws h) = flags h"
  "waiters (WaitStrategy_signalAll ws h) = waiters h"
  by (cases ws; simp add: make_chan_def close_chan_def Let_def)+

lemma WaitStrategy_signalAll_Load [heap_simps]:
  "Sequence_Load s (WaitStrategy_signalAll ws h) = Sequence_Load s h"
  by (simp add: Sequence_Load_def heap_simps)

lemma producerWaiter_signalAll_Load [heap_simps]:
  "Sequence_Load s (producerWaiter_signalAll w h) = Sequence_Load s h"
  by (simp add: Sequence_Load_def heap_simps)

lemma closed_mono_WaitStrategy: "closed_mono h (WaitStrategy_signalAll ws h)"
  by (cases ws) (simp_all add: closed_mono_def make_chan_def close_chan_def Let_def)

lemma chan_flag_frame [heap_simps]:
  "sequences (close_chan c h) = sequences h"
  "sequences (flag_Store f v h) = sequences h"
  "waiters (close_chan c h) = waiters h"
  "waiters (flag_Store f v h) = waiters h"
  "flags (close_chan c h) = flags h"
  "flags (flag_Store f v h) = (flags h)(f := v)"
  "chans (close_chan c h) = (chans h)(c := True)"
  "chans (flag_Store f v h) = chans h"
  "next_addr (close_chan c h) = next_addr h"
  "next_addr (flag_Store f v h) = next_addr h"
  "Sequence_Load s (close_chan c h) = Sequence_Load s h"
  "Sequence_Load s (flag_Store f v h) = Sequence_Load s h"
  by (simp_all add: close_chan_def flag_Store_def Sequence_Load_def)

lemma base_removeGateSignals_frame [heap_simps]:
  "Sequence_Load s (base_removeGateSignals h b) = Sequence_Load s h"
  "flags (base_removeGateSignals h b) = flags h"
  "chans (base_removeGateSignals h b) = chans h"
  "next_addr (base_removeGateSignals h b) = next_addr h"
  by (simp_all add: base_removeGateSignals_def heap_simps)

lemma Close_base: "snd (base_Close (h, b)) = b\<lparr>sealed := True, closeOnce := True\<rparr>"
  by (cases "closeOnce b") (simp_all add: base_Close_def Let_def)

lemma Close_Load [heap_simps]: "Sequence_Load s (fst (base_Close (h, b))) = Sequence_Load s h"
  by (simp add: base_Close_def Let_def heap_simps)

lemma Close_closed:
  assumes "\<not> closeOnce b" "0 < closedCh b" "closedCh b < next_addr h"
  shows "flags (fst (base_Close (h, b))) (closed_flag b)"
    and "chan_ready (closedCh b) (fst (base_Close (h, b)))"
proof -
  let ?h2 = "close_chan (closedCh b) (flag_Store (closed_flag b) True h)"
  let ?h4 = "WaitStrategy_signalAll (wait_with b) (producerWaiter_signalAll (producerWait b) ?h2)"
  have fst: "fst (base_Close (h, b)) = base_removeGateSignals ?h4 b"
    using assms(1) by (simp add: base_Close_def Let_def)
  show "flags (fst (base_Close (h, b))) (closed_flag b)"
    by (simp add: fst heap_simps)
  have "closed_mono ?h2 ?h4"
    using closed_mono_signalAll closed_mono_WaitStrategy closed_mono_trans by blast
  moreover have "chan_ready (closedCh b) ?h2" "closedCh b < next_addr ?h2"
    using assms(2,3) by (simp_all add: chan_ready_def heap_simps)
  ultimately have "chan_ready (closedCh b) ?h4"
    using closed_mono_ready by blast
  then show "chan_ready (closedCh b) (fst (base_Close (h, b)))"
    by (simp add: fst chan_ready_def heap_simps)
qed

section \<open>Capacity: only with room, and no lost wake-up\<close>

lemma producerWaiter_count_frame [heap_simps]:
  "sequences (producerWaiter_count w n m h) = sequences h"
  "flags (producerWaiter_count w n m h) = flags h"
  "chans (producerWaiter_count w n m h) = chans h"
  "blockings (producerWaiter_count w n m h) = blockings h"
  "next_addr (producerWaiter_count w n m h) = next_addr h"
  "pw_mode (waiters (producerWaiter_count w n m h) v) = pw_mode (waiters h v)"
  "pw_ch (waiters (producerWaiter_count w n m h) v) = pw_ch (waiters h v)"
  by (simp_all add: producerWaiter_count_def)

lemma producerWaiter_count_reads [heap_simps]:
  "Sequence_Load s (producerWaiter_count w n m h) = Sequence_Load s h"
  "producerWaiter_prepare v (producerWaiter_count w n m h) = producerWaiter_prepare v h"
  "producerWaiter_needsSignals v (producerWaiter_count w n m h) \<longleftrightarrow> producerWaiter_needsSignals v h"
  "signalled v s (producerWaiter_count w n m h) \<longleftrightarrow> signalled v s h"
  "chan_ready c (producerWaiter_count w n m h) \<longleftrightarrow> chan_ready c h"
  by (simp_all add: Sequence_Load_def producerWaiter_prepare_def producerWaiter_needsSignals_def
      signalled_def chan_ready_def heap_simps)

lemma heap_wf_count: "heap_wf h \<Longrightarrow> heap_wf (producerWaiter_count w n m h)"
proof -
  assume wf: "heap_wf h"
  have "owns (producerWaiter_count w n m h) a = owns h a"
    "owned_chan (producerWaiter_count w n m h) a = owned_chan h a" for a
    by (cases a; simp add: heap_simps)+
  with wf show ?thesis by (simp add: heap_wf_def heap_simps)
qed

lemma minimumGate_count [heap_simps]:
  "base_minimumGate fb (producerWaiter_count w n m h) b = base_minimumGate fb h b"
  unfolding base_minimumGate_def by (rule minimumSequence_cong) (simp add: heap_simps)

lemma waitForCapacity_room:
  "base_waitForCapacity ts wp fb hb = Some (Inr m, ts', h, b) \<Longrightarrow>
   wp \<le> m \<and> m = base_minimumGate fb h b"
  by (induction ts arbitrary: hb) (auto simp: Let_def split: prod.splits if_splits option.splits)

lemma waitForCapacity_now:
  "\<not> sealed b \<Longrightarrow> wp \<le> base_minimumGate fb h b \<Longrightarrow>
   base_waitForCapacity (quiet # ts) wp fb (h, b) = Some (Inr (base_minimumGate fb h b), ts, h, b)"
  by (simp add: Let_def)

text \<open>The consumer's acknowledgement while the producer is before, in the middle of, or after its
  capacity check.\<close>

definition gate_store :: "addr \<Rightarrow> int64 \<Rightarrow> heap \<times> 'b \<Rightarrow> heap \<times> 'b" where
  "gate_store s v = (\<lambda>(h, b). (Sequence_Store s v h, b))"

lemma producerWaiter_wait_wakes:
  assumes wf: "heap_wf h" and sig: "signalled w s h" and blk: "producerWaiter_needsSignals w h"
    and ctx: "t_ctx t = None" and park: "t_park t = gate_store s v"
    and open_: "\<not> chan_ready c (Sequence_Store s v (producerWaiter_count w 1 1 h))"
  shows "producerWaiter_wait w t (producerWaiter_prepare w h) c (h, b) =
    Some (None, producerWaiter_count w 0 (-1) (Sequence_Store s v (producerWaiter_count w 1 1 h)), b)"
proof -
  let ?h = "producerWaiter_count w 1 1 h"
  have "chan_ready (producerWaiter_prepare w ?h) (Sequence_Store s v ?h)"
    using wf sig blk by (intro Store_wakes heap_wf_count) (simp_all add: heap_simps flip: signalled_def)
  with ctx park open_ blk show ?thesis
    by (simp add: producerWaiter_wait_def gate_store_def heap_simps producerWaiter_needsSignals_def
        select_case_def)
qed

lemma minimumGate_Store:
  "base_minimumGate fb (Sequence_Store s v (producerWaiter_count w n m h)) b =
   base_minimumGate fb (Sequence_Store s v h) b"
  unfolding base_minimumGate_def by (rule minimumSequence_cong) (simp add: heap_simps)

lemma waitForCapacity_wakes:
  assumes wf: "heap_wf h" and sig: "gates_signalled (h, b)" and gate: "s \<in> set (gating b)"
    and blk: "producerWaiter_needsSignals (producerWait b) h" and unsealed: "\<not> sealed b"
    and room: "wp \<le> base_minimumGate fb (Sequence_Store s v h) b"
    and ctx: "t_ctx t = None"
    and moment: "t_pre t = gate_store s v \<and> t_mid t = id \<or>
      t_pre t = id \<and> t_mid t = gate_store s v \<or>
      t_pre t = id \<and> t_mid t = id \<and> t_park t = gate_store s v"
    and open_: "\<not> chan_ready (closedCh b) (Sequence_Store s v (producerWaiter_count (producerWait b) 1 1 h))"
  shows "\<exists>m ts' h'. base_waitForCapacity (t # quiet # ts) wp fb (h, b) = Some (Inr m, ts', h', b) \<and>
    wp \<le> m"
proof -
  consider (early) "t_pre t = gate_store s v" "t_mid t = id" |
    (middle) "t_pre t = id" "t_mid t = gate_store s v" |
    (parked) "t_pre t = id" "t_mid t = id" "t_park t = gate_store s v"
    using moment by blast
  then show ?thesis
  proof cases
    case early
    then show ?thesis using unsealed room by (simp add: gate_store_def Let_def)
  next
    case middle
    then show ?thesis using unsealed room by (simp add: gate_store_def Let_def)
  next
    case parked
    have "signalled (producerWait b) s h" using sig gate blk by (simp add: gates_signalled_def)
    from producerWaiter_wait_wakes [OF wf this blk ctx parked(3) open_]
    show ?thesis using parked(1,2) unsealed room
      by (simp add: Let_def minimumGate_Store heap_simps)
  qed
qed

section \<open>Shutdown\<close>

lemma drain_loop_done:
  "drain_loop ts gates boundary hb = Some (None, ts', h, b) \<Longrightarrow>
   gates \<noteq> [] \<Longrightarrow> s \<in> set gates \<Longrightarrow> boundary \<le> Sequence_Load s h"
  by (induction ts arbitrary: hb)
    (auto simp: Let_def minimumSequence_less_iff not_less split: prod.splits if_splits option.splits)

lemma awaitShutdown_closes:
  assumes "base_awaitShutdown ts boundary hb = Some (r, ts', h', b')"
  shows "sealed b' \<and> closeOnce b'"
proof -
  from assms obtain h b where "base_Close (h, b) = (h', b')"
    by (auto simp: base_awaitShutdown_def split: option.splits prod.splits)
  then have "b' = snd (base_Close (h, b))" by simp
  then show ?thesis by (simp add: Close_base)
qed

lemma awaitShutdown_drained:
  assumes "base_awaitShutdown ts boundary (h, b) = Some (None, ts', h', b')"
    and "s \<in> set (gating b)"
  shows "boundary \<le> Sequence_Load s h'"
proof -
  from assms(1) obtain h1 b1 where loop: "drain_loop ts (gating b) boundary (h, b) = Some (None, ts', h1, b1)"
    and "(h', b') = base_Close (h1, b1)"
    by (auto simp: base_awaitShutdown_def split: option.splits)
  moreover have "boundary \<le> Sequence_Load s h1"
    using loop assms(2) by (auto intro: drain_loop_done)
  ultimately show ?thesis by (metis Close_Load fst_conv)
qed

lemma awaitShutdown_now:
  assumes "\<And>s. s \<in> set (gating b) \<Longrightarrow> boundary \<le> Sequence_Load s h"
  shows "base_awaitShutdown (quiet # ts) boundary (h, b) = Some (None, ts, base_Close (h, b))"
proof -
  have "\<not> minimumSequence (gating b) boundary h < boundary"
    using assms by (auto simp: minimumSequence_less_iff not_less)
  then show ?thesis by (simp add: base_awaitShutdown_def)
qed

lemma awaitShutdown_no_gates:
  assumes "gating b = []"
  shows "\<exists>h' b'. base_awaitShutdown (quiet # ts) boundary (h, b) = Some (None, ts, h', b')"
  using awaitShutdown_now [of b boundary h ts] assms by (metis empty_iff empty_set surj_pair)

section \<open>Construction\<close>

lemma heap_wf_grow:
  assumes "heap_wf h" "waiters h' = waiters h" "blockings h' = blockings h"
    "next_addr h \<le> next_addr h'" "\<And>c. c < next_addr h \<Longrightarrow> chans h' c = chans h c"
  shows "heap_wf h'"
proof -
  have o: "owns h' a = owns h a" "owned_chan h' a = owned_chan h a" for a
    using assms(2,3) by (cases a; simp)+
  show ?thesis using assms(1,4,5) unfolding heap_wf_def o by (meson less_le_trans)
qed

lemma new_base:
  assumes "heap_wf h" "newSequencerBase bsize (Some w) mode h = (b, h')"
  shows "heap_wf h'" "gating b = []" "\<not> sealed b" "wait_with b = w" "bufferSize b = bsize"
    "\<not> closeOnce b" "signals_distinct h \<Longrightarrow> (\<And>v s. \<not> signalled v s h) \<Longrightarrow> gates_signalled (h', b)"
    "producerWaiter_needsSignals (producerWait b) h' \<longleftrightarrow> mode = ProducerWaitBlocking"
    "\<not> flags h' (closed_flag b)"
proof -
  obtain cur h1 where n1: "NewSequence InitialSequence h = (cur, h1)" by fastforce
  obtain waiter h2 where n2: "newProducerWaiter mode h1 = (waiter, h2)" by fastforce
  obtain ch h3 where n3: "make_chan h2 = (ch, h3)" by fastforce
  obtain flag h4 where n4: "new_flag h3 = (flag, h4)" by fastforce
  have b: "b = \<lparr>bufferSize = bsize, cursor = cur, wait_with = w, producerWait = waiter, gating = [],
      closed_flag = flag, sealed = False, closedCh = ch, closeOnce = False\<rparr>" "h' = h4"
    using assms(2) n1 n2 n3 n4 by (auto simp: newSequencerBase_def)
  have "heap_wf h1" using assms(1) n1 by (auto simp: NewSequence_def intro: heap_wf_grow)
  then have "heap_wf h2" using n2 heap_wf_newProducerWaiter by blast
  then have "heap_wf h3" using n3 by (auto simp: make_chan_def intro: heap_wf_grow)
  then show "heap_wf h'" using n4 b(2) by (auto simp: new_flag_def intro: heap_wf_grow)
  show "gating b = []" "\<not> sealed b" "wait_with b = w" "bufferSize b = bsize" "\<not> closeOnce b"
    using b(1) by simp_all
  have same: "signal_list (seq_signals (sequences h' s)) = (if s = cur then [] else signal_list (seq_signals (sequences h s)))" for s
    using n1 n2 n3 n4 b(2)
    by (auto simp: NewSequence_def newProducerWaiter_def make_chan_def new_flag_def Let_def split: if_splits)
  show "gates_signalled (h', b)" if "signals_distinct h" "\<And>v s. \<not> signalled v s h"
    using that by (simp add: gates_signalled_def b(1) signals_distinct_def signalled_def same)
  show "producerWaiter_needsSignals (producerWait b) h' \<longleftrightarrow> mode = ProducerWaitBlocking"
    using n2 n3 n4 b by (auto simp: producerWaiter_needsSignals_def newProducerWaiter_def make_chan_def
        new_flag_def Let_def split: if_splits)
  show "\<not> flags h' (closed_flag b)" using n4 b by (auto simp: new_flag_def)
qed

section \<open>Properties\<close>

text \<open>A ring of four slots whose producer blocks, with one gate at \<open>-1\<close>.\<close>

definition blocked_base :: "heap \<times> sequencerBase" where
  "blocked_base =
     (let (b, h) = newSequencerBase 4 (Some YieldingWait) ProducerWaitBlocking empty_heap;
          (g, h1) = NewSequence InitialSequence h
      in base_AddGatingSequences [Some g] (h1, b))"

lemma blocked_base_ok:
  "heap_wf (fst blocked_base)" "gates_signalled blocked_base" "\<not> sealed (snd blocked_base)"
  "producerWaiter_needsSignals (producerWait (snd blocked_base)) (fst blocked_base)"
proof -
  obtain b h where n: "newSequencerBase 4 (Some YieldingWait) ProducerWaitBlocking empty_heap = (b, h)"
    by fastforce
  have e: "signals_distinct empty_heap" "\<And>v s. \<not> signalled v s empty_heap"
    by (simp_all add: signals_distinct_def signalled_def empty_heap_def)
  note nb = new_base [OF heap_wf_empty n]
  obtain g h1 where s: "NewSequence InitialSequence h = (g, h1)" by fastforce
  have fl: "flags h1 = flags h" and ns: "producerWaiter_needsSignals (producerWait b) h1" and wf: "heap_wf h1"
    using s nb(1,8) by (auto simp: NewSequence_def producerWaiter_needsSignals_def intro: heap_wf_grow)
  have "signal_list (seq_signals (sequences h1 v)) =
      (if v = g then [] else signal_list (seq_signals (sequences h v)))" for v
    using s by (auto simp: NewSequence_def)
  then have gs: "gates_signalled (h1, b)"
    using nb(7) [OF e] nb(2) by (simp add: gates_signalled_def signals_distinct_def signalled_def)
  have bb: "blocked_base = base_AddGatingSequences [Some g] (h1, b)"
    using n s by (simp add: blocked_base_def)
  show "gates_signalled blocked_base" unfolding bb using gs by (rule gates_signalled_add)
  have op: "\<not> flags h1 (closed_flag b)" using nb(9) fl by simp
  show "heap_wf (fst blocked_base)" "\<not> sealed (snd blocked_base)"
    "producerWaiter_needsSignals (producerWait (snd blocked_base)) (fst blocked_base)"
    unfolding bb using AddGatingSequences_open [OF op] wf ns nb(3)
    by (simp_all add: heap_wf_addSignal heap_wf_Store heap_simps)
qed

text \<open>
  C19. No lost wake-up of a blocked producer: if a gating consumer makes enough room while the producer
  is about to check for capacity, between reading its channel and checking, or parked, then the
  producer gets its capacity with that iteration and the next.
\<close>

theorem producer_wake_up_not_lost:
  assumes "heap_wf h" "gates_signalled (h, b)" "g \<in> set (gating b)"
    and "producerWaiter_needsSignals (producerWait b) h" "\<not> sealed b"
    and "wp \<le> base_minimumGate fb (Sequence_Store g v h) b" "t_ctx t = None"
    and "t_pre t = gate_store g v \<and> t_mid t = id \<or> t_pre t = id \<and> t_mid t = gate_store g v \<or>
      t_pre t = id \<and> t_mid t = id \<and> t_park t = gate_store g v"
    and "\<not> chan_ready (closedCh b) (Sequence_Store g v (producerWaiter_count (producerWait b) 1 1 h))"
  shows "\<exists>m ts' h'. base_waitForCapacity (t # quiet # ts) wp fb (h, b) = Some (Inr m, ts', h', b) \<and> wp \<le> m"
  using waitForCapacity_wakes [OF assms] .

theorem producer_wake_up_not_lost_witness:
  "\<exists>g m ts' h'. base_waitForCapacity [quiet\<lparr>t_park := gate_store g 0\<rparr>, quiet] 0 4 blocked_base =
     Some (Inr m, ts', h', snd blocked_base) \<and> 0 \<le> m"
proof -
  let ?h = "fst blocked_base" and ?b = "snd blocked_base"
  define g where "g = hd (gating ?b)"
  have "g \<in> set (gating ?b)" "0 \<le> base_minimumGate 4 (Sequence_Store g 0 ?h) ?b"
    "\<not> chan_ready (closedCh ?b) (Sequence_Store g 0 (producerWaiter_count (producerWait ?b) 1 1 ?h))"
    unfolding g_def by code_simp+
  with blocked_base_ok producer_wake_up_not_lost [of ?h ?b g 0 4 0 "quiet\<lparr>t_park := gate_store g 0\<rparr>" "[]"]
  show ?thesis by (auto simp: quiet_def)
qed

text \<open>What producers and consumers do to the registration of gates.\<close>

datatype gate_op = AddGates "addr option list" | RemoveGate addr | Acknowledge addr int64

fun gate_step :: "gate_op \<Rightarrow> heap \<times> 'a sequencerBase_scheme \<Rightarrow> heap \<times> 'a sequencerBase_scheme" where
  "gate_step (AddGates ss) hb = base_AddGatingSequences ss hb"
| "gate_step (RemoveGate g) hb = snd (base_RemoveGatingSequence g hb)"
| "gate_step (Acknowledge g v) hb = (Sequence_Store g v (fst hb), snd hb)"

text \<open>
  C24. Exact registration: after any sequence of gate additions, removals and acknowledgements, the
  ring's blocked producers are signalled by exactly the sequences that are gates, each registered
  once however often a gate was added.
\<close>

theorem gate_registration_exact:
  assumes "gates_signalled hb"
  shows "gates_signalled (fold gate_step ops hb)"
  using assms
proof (induction ops arbitrary: hb)
  case (Cons op ops)
  obtain h b where hb: "hb = (h, b)" by (cases hb)
  have "gates_signalled (gate_step op hb)"
    using Cons.prems gates_signalled_add gates_signalled_remove gates_signalled_Store
    by (cases op) (auto simp: hb)
  then show ?case using Cons.IH by simp
qed simp

theorem gate_registration_exact_witness:
  "gates_signalled (fold gate_step [AddGates [Some 50, None, Some 50], RemoveGate 50, Acknowledge 50 3] blocked_base)"
  by (rule gate_registration_exact [OF blocked_base_ok(2)])

end
