(* ===== verification/Claims.thy ===== *)
theory Claims
  imports Sequencer_Base
begin

text \<open>
  The claim side of the \<open>Sequencer\<close> interface as a contract. A provider has a highest claimed
  sequence, a slowest gate, a capacity and a non-blocking claim; the contract says when a claim is
  granted. What a client relies on is proved here once: the ranges granted by any run of claims
  are consecutive, they never pass the slowest gate by more than the capacity, and the sequences
  in flight occupy different slots.
\<close>

section \<open>Runs of claims\<close>

text \<open>The ranges \<open>[low, high]\<close> granted by a run of claims of the given sizes.\<close>

fun claim_run ::
  "(int64 \<Rightarrow> 's \<Rightarrow> (error + int64) \<times> 's) \<Rightarrow> int64 list \<Rightarrow> 's \<Rightarrow> (int64 \<times> int64) list \<times> 's"
where
  "claim_run try_next [] s = ([], s)"
| "claim_run try_next (n # ns) s =
     (case try_next n s of
        (Inl err, s') \<Rightarrow> claim_run try_next ns s'
      | (Inr high, s') \<Rightarrow>
          (let (rs, s'') = claim_run try_next ns s' in ((high - n + 1, high) # rs, s'')))"

definition range_sequences :: "(int64 \<times> int64) list \<Rightarrow> int64 list" where
  "range_sequences rs = concat (map (\<lambda>(low, high). [low..high]) rs)"

text \<open>The reference a cached claim is measured against: look at the slowest gate every time.\<close>

definition claim_spec :: "int64 \<Rightarrow> int64 \<Rightarrow> int64 \<Rightarrow> int64 \<Rightarrow> error + int64" where
  "claim_spec bsize slowest claimed n =
     (if claimed + n - bsize \<le> slowest then Inr (claimed + n) else Inl ErrInsufficientCapacity)"

section \<open>The contract\<close>

locale claim_protocol =
  fixes try_next :: "int64 \<Rightarrow> 's \<Rightarrow> (error + int64) \<times> 's"
    and claimed :: "'s \<Rightarrow> int64"
    and slowest :: "'s \<Rightarrow> int64"
    and capacity :: "'s \<Rightarrow> int64"
    and gated :: "'s \<Rightarrow> bool"
    and stopped :: "'s \<Rightarrow> bool"
    and ok :: "'s \<Rightarrow> bool"
  assumes window: "ok s \<Longrightarrow>
      0 < capacity s \<and> slowest s \<le> claimed s \<and> claimed s - capacity s \<le> slowest s"
    and rejects: "ok s \<Longrightarrow> stopped s \<or> n < 1 \<or> capacity s < n \<Longrightarrow>
      \<exists>err \<in> {ErrClosed, ErrInvalidClaimSize}. try_next n s = (Inl err, s)"
    and decides: "ok s \<Longrightarrow> \<not> stopped s \<Longrightarrow> 1 \<le> n \<Longrightarrow> n \<le> capacity s \<Longrightarrow>
      claimed s + n < 2 ^ 63 \<Longrightarrow> try_next n s = (r, s') \<Longrightarrow>
      r = claim_spec (capacity s) (slowest s) (claimed s) n \<and> ok s' \<and>
      claimed s' = (case r of Inl err \<Rightarrow> claimed s | Inr high \<Rightarrow> high) \<and>
      capacity s' = capacity s \<and> stopped s' = stopped s \<and> gated s' = gated s \<and>
      (gated s \<longrightarrow> slowest s' = slowest s)"
begin

lemma granted_iff_room:
  assumes "ok s" "\<not> stopped s" "1 \<le> n" "n \<le> capacity s" "claimed s + n < 2 ^ 63"
  shows "(\<exists>high. fst (try_next n s) = Inr high) \<longleftrightarrow> n \<le> capacity s - (claimed s - slowest s)"
proof -
  obtain r s' where "try_next n s = (r, s')" by (cases "try_next n s")
  with decides [OF assms this] show ?thesis
    by (auto simp: claim_spec_def split: if_splits)
qed

text \<open>What one claim does to a good state, whatever its size.\<close>

lemma step_cases:
  assumes "ok s" "claimed s + capacity s < 2 ^ 63" "try_next n s = (r, s')"
  shows "ok s' \<and> capacity s' = capacity s \<and> gated s' = gated s \<and>
     (gated s \<longrightarrow> slowest s' = slowest s) \<and> claimed s \<le> claimed s' \<and> claimed s' \<le> claimed s + capacity s \<and>
     (case r of Inl err \<Rightarrow> claimed s' = claimed s
      | Inr high \<Rightarrow> claimed s' = high \<and> high = claimed s + n \<and> 1 \<le> n)"
proof (cases "stopped s \<or> n < 1 \<or> capacity s < n")
  case True
  with rejects [OF assms(1) this] assms(3) window [OF assms(1)] assms(1) show ?thesis by auto
next
  case False
  then have "\<not> stopped s" "1 \<le> n" "n \<le> capacity s" "claimed s + n < 2 ^ 63"
    using assms(2) by auto
  from decides [OF assms(1) this assms(3)] window [OF assms(1)] this show ?thesis
    by (auto simp: claim_spec_def split: if_splits sum.splits)
qed

lemma claim_run_consecutive:
  assumes "ok s" "claimed s + capacity s * int (length ns) < 2 ^ 63"
    and "claim_run try_next ns s = (rs, s')"
  shows "ok s' \<and> capacity s' = capacity s \<and> gated s' = gated s \<and>
     (gated s \<longrightarrow> slowest s' = slowest s) \<and> claimed s \<le> claimed s' \<and>
     range_sequences rs = [claimed s + 1..claimed s']"
  using assms
proof (induction ns arbitrary: s rs s')
  case Nil
  then show ?case by (simp add: range_sequences_def)
next
  case (Cons n ns)
  obtain r s1 where tr: "try_next n s = (r, s1)" by (cases "try_next n s")
  obtain rs1 s2 where run: "claim_run try_next ns s1 = (rs1, s2)"
    by (cases "claim_run try_next ns s1")
  have pos: "0 \<le> capacity s * int (length ns)" using window [OF Cons.prems(1)] by simp
  then have bound: "claimed s + capacity s < 2 ^ 63"
    using Cons.prems(2) by (simp add: algebra_simps)
  note st = step_cases [OF Cons.prems(1) bound tr]
  have "claimed s1 + capacity s1 * int (length ns) < 2 ^ 63"
    using st Cons.prems(2) by (simp add: algebra_simps)
  with Cons.IH [OF _ _ run] st have ih: "ok s2 \<and> capacity s2 = capacity s1 \<and> gated s2 = gated s1 \<and>
     (gated s1 \<longrightarrow> slowest s2 = slowest s1) \<and> claimed s1 \<le> claimed s2 \<and>
     range_sequences rs1 = [claimed s1 + 1..claimed s2]" by blast
  show ?case
  proof (cases r)
    case (Inl err)
    with tr run Cons.prems(3) st ih show ?thesis by auto
  next
    case (Inr high)
    with st have high: "high = claimed s + n" "claimed s1 = high" "1 \<le> n" by auto
    then have "[claimed s + 1..claimed s2] = [claimed s + 1..high] @ [high + 1..claimed s2]"
      using ih by (intro upto_split2) auto
    with Inr tr run Cons.prems(3) st ih high show ?thesis
      by (auto simp: range_sequences_def)
  qed
qed

text \<open>Two sequences in flight on a gated ring never share a slot.\<close>

lemma in_flight_slots:
  assumes "ok s" "slowest s < p" "p \<le> claimed s" "slowest s < q" "q \<le> claimed s"
    and "p mod capacity s = q mod capacity s"
  shows "p = q"
  using window [OF assms(1)] assms by (intro mod_eq_close [of p "capacity s" q]) auto

end

section \<open>Resolving claims\<close>

text \<open>
  The publication side of the interface: what \<open>IsAvailable\<close> and \<open>IsDiscarded\<close> say of a
  sequence, and how \<open>Publish\<close> and \<open>Discard\<close> change it. \<open>live\<close> names the sequences whose slot has not
  been reused, \<open>pending\<close> the claimed ranges that the caller may resolve.
\<close>

datatype status = Unresolved | Published | Discarded

definition status_of :: "bool \<Rightarrow> bool \<Rightarrow> status" where
  "status_of is_available is_discarded =
     (if \<not> is_available then Unresolved else if is_discarded then Discarded else Published)"

locale publication_log =
  fixes publish discard :: "int64 \<Rightarrow> int64 \<Rightarrow> 's \<Rightarrow> 's"
    and status :: "int64 \<Rightarrow> 's \<Rightarrow> status"
    and highest :: "int64 \<Rightarrow> int64 \<Rightarrow> 's \<Rightarrow> int64"
    and pending :: "int64 \<Rightarrow> int64 \<Rightarrow> 's \<Rightarrow> bool"
    and live :: "int64 \<Rightarrow> 's \<Rightarrow> bool"
    and readable :: "int64 \<Rightarrow> int64 \<Rightarrow> 's \<Rightarrow> bool"
    and ok :: "'s \<Rightarrow> bool"
  assumes publish_status: "ok s \<Longrightarrow> pending low high s \<Longrightarrow> live q s \<Longrightarrow>
      status q (publish low high s) = (if low \<le> q \<and> q \<le> high then Published else status q s)"
    and discard_status: "ok s \<Longrightarrow> pending low high s \<Longrightarrow> live q s \<Longrightarrow>
      status q (discard low high s) = (if low \<le> q \<and> q \<le> high then Discarded else status q s)"
    and resolve_ok: "ok s \<Longrightarrow> pending low high s \<Longrightarrow>
      ok (publish low high s) \<and> ok (discard low high s) \<and>
      (\<forall>q. live q (publish low high s) = live q s \<and> live q (discard low high s) = live q s)"
    and pending_unresolved: "ok s \<Longrightarrow> pending low high s \<Longrightarrow> low \<le> q \<Longrightarrow> q \<le> high \<Longrightarrow>
      live q s \<and> status q s = Unresolved"
    and highest_prefix: "ok s \<Longrightarrow> readable lower avail s \<Longrightarrow> lower \<le> avail \<Longrightarrow>
      lower - 1 \<le> highest lower avail s \<and> highest lower avail s \<le> avail \<and>
      (\<forall>q. lower \<le> q \<and> q \<le> highest lower avail s \<longrightarrow> status q s \<noteq> Unresolved) \<and>
      (highest lower avail s < avail \<longrightarrow> status (highest lower avail s + 1) s = Unresolved)"
begin

text \<open>A gap is never crossed: an unresolved sequence stays ahead of everything handed out.\<close>

lemma highest_stops_at_gap:
  assumes "ok s" "readable lower avail s" "lower \<le> gap" "gap \<le> avail" "status gap s = Unresolved"
  shows "highest lower avail s < gap"
proof -
  have "lower \<le> avail" using assms(3,4) by simp
  from highest_prefix [OF assms(1,2) this] assms(3,5) show ?thesis
    by (auto simp: not_less [symmetric])
qed

lemma highest_iff:
  assumes "ok s" "readable lower avail s" "lower \<le> avail" "lower \<le> n" "n \<le> avail"
  shows "n \<le> highest lower avail s \<longleftrightarrow> (\<forall>q. lower \<le> q \<and> q \<le> n \<longrightarrow> status q s \<noteq> Unresolved)"
proof
  assume "n \<le> highest lower avail s"
  then show "\<forall>q. lower \<le> q \<and> q \<le> n \<longrightarrow> status q s \<noteq> Unresolved"
    using highest_prefix [OF assms(1-3)] by auto
next
  assume all: "\<forall>q. lower \<le> q \<and> q \<le> n \<longrightarrow> status q s \<noteq> Unresolved"
  show "n \<le> highest lower avail s"
  proof (rule ccontr)
    assume "\<not> n \<le> highest lower avail s"
    then have "highest lower avail s < avail" "highest lower avail s + 1 \<le> n" using assms(5) by auto
    with highest_prefix [OF assms(1-3)] all show False by auto
  qed
qed

lemma publish_fills:
  assumes "ok s" "pending low high s" "low \<le> high" "readable lower high (publish low high s)"
    and "lower \<le> high" "\<And>q. lower \<le> q \<Longrightarrow> q < low \<Longrightarrow> live q s \<and> status q s \<noteq> Unresolved"
  shows "highest lower high (publish low high s) = high"
proof (rule antisym)
  have ok': "ok (publish low high s)" using resolve_ok [OF assms(1,2)] by simp
  then show "highest lower high (publish low high s) \<le> high"
    using highest_prefix [OF _ assms(4,5)] by simp
  have "status q (publish low high s) \<noteq> Unresolved" if "lower \<le> q" "q \<le> high" for q
  proof (cases "q < low")
    case True
    with assms(6) [OF that(1)] publish_status [OF assms(1,2), of q] show ?thesis by simp
  next
    case False
    with that pending_unresolved [OF assms(1,2), of q] publish_status [OF assms(1,2), of q]
    show ?thesis by simp
  qed
  then show "high \<le> highest lower high (publish low high s)"
    using highest_iff [OF ok' assms(4,5,5)] by simp
qed

end

end
