(* ===== verification/Publication.thy ===== *)
theory Publication
  imports Sequences
begin

text \<open>
  \<open>publication.go\<close>: the word a multi-producer slot holds, which packs the lap of a sequence with
  its resolution, and the marker that clears a discard table.
\<close>

unbundle bit_operations_syntax

type_synonym uint32 = "32 word"

definition publicationUnresolved :: uint32 where "publicationUnresolved = 0"
definition publicationPublished :: uint32 where "publicationPublished = 1"
definition publicationDiscarded :: uint32 where "publicationDiscarded = 2"

lemmas publication_defs =
  publicationUnresolved_def publicationPublished_def publicationDiscarded_def

definition publicationValue :: "int64 \<Rightarrow> uint32 \<Rightarrow> int64" where
  "publicationValue flag state = s64 (push_bit 2 (u64 flag) OR ucast state)"

definition discardMarker :: "int64 list \<Rightarrow> int64 list" where
  "discardMarker slots = map (\<lambda>_. InitialSequence) slots"

lemma publicationValue_word:
  assumes "state < 4"
  shows "publicationValue flag state = s64 (u64 (4 * flag + uint state))"
proof -
  have "ucast state = u64 (uint state)"
    by (simp add: u64_def)
  moreover have "0 \<le> uint state" "uint state < 4"
    using assms by (simp_all add: word_less_def)
  ultimately show ?thesis
    by (simp add: publicationValue_def or_shift_word)
qed

text \<open>
  Within the laps a ring of at least two slots can reach, distinct laps or resolutions never give
  the same word.
\<close>

lemma publicationValue_eq_iff:
  assumes "0 \<le> f" "f < 2 ^ 62" "0 \<le> g" "g < 2 ^ 62" "a < 4" "b < 4"
  shows "publicationValue f a = publicationValue g b \<longleftrightarrow> f = g \<and> a = b"
proof
  assume "publicationValue f a = publicationValue g b"
  moreover have "0 \<le> uint a" "uint a < 4" "0 \<le> uint b" "uint b < 4"
    using assms by (simp_all add: word_less_def)
  ultimately have eq: "4 * f + uint a = 4 * g + uint b"
    using assms by (simp add: publicationValue_word s64_eq_iff u64_eq_iff)
  then have "uint a = uint b \<and> f = g"
    using \<open>0 \<le> uint a\<close> \<open>uint a < 4\<close> \<open>0 \<le> uint b\<close> \<open>uint b < 4\<close> by presburger
  then show "f = g \<and> a = b" by (simp add: word_uint_eq_iff)
qed simp

text \<open>The initial word \<open>-1\<close> resolves no sequence of any lap.\<close>

lemma publicationValue_initial:
  assumes "a = publicationPublished \<or> a = publicationDiscarded"
  shows "publicationValue f a \<noteq> -1"
proof
  assume "publicationValue f a = -1"
  moreover have "a < 4" "uint a \<in> {1, 2}" using assms by (auto simp: publication_defs)
  moreover have "s64 (u64 (-1)) = -1" by (simp add: s64_def u64_def)
  ultimately have "s64 (u64 (4 * f + uint a)) = s64 (u64 (-1))"
    by (simp add: publicationValue_word)
  then have "(4 * f + uint a) mod 2 ^ 64 = (-1) mod 2 ^ 64"
    by (simp only: s64_eq_iff u64_eq_iff)
  then have "(4 * f + uint a) mod 2 ^ 64 mod 4 = (-1) mod 2 ^ 64 mod 4" by (rule arg_cong)
  then have "(4 * f + uint a) mod 4 = (-1) mod 4" by (simp add: mod_mod_cancel)
  with \<open>uint a \<in> {1, 2}\<close> show False by auto
qed

text \<open>On one lap the three resolutions always give three words, whatever the lap.\<close>

lemma publicationValue_state_eq_iff:
  assumes "a < 4" "b < 4"
  shows "publicationValue f a = publicationValue f b \<longleftrightarrow> a = b"
proof
  assume "publicationValue f a = publicationValue f b"
  then have "(4 * f + uint a) mod 2 ^ 64 = (4 * f + uint b) mod 2 ^ 64"
    using assms by (simp only: publicationValue_word s64_eq_iff u64_eq_iff)
  moreover have "0 \<le> uint a" "uint a < 4" "0 \<le> uint b" "uint b < 4"
    using assms by (simp_all add: word_less_def)
  then have "\<bar>(4 * f + uint a) - (4 * f + uint b)\<bar> < 2 ^ 64" 
    by (simp add: abs_less_iff, insert uint_ge_0 [of a] uint_ge_0 [of b], linarith)
  ultimately have "4 * f + uint a = 4 * f + uint b" by (rule mod_eq_close)
  then show "a = b" by (simp add: word_uint_eq_iff)
qed simp

text \<open>
  The slot word determines the lap and the resolution: two words of reachable laps are equal only
  if both agree, and the initial word \<open>-1\<close> publishes or discards no sequence.
\<close>

theorem publicationValue_injective:
  assumes "0 \<le> f" "f < 2 ^ 62" "0 \<le> g" "g < 2 ^ 62"
    and "a \<in> {publicationUnresolved, publicationPublished, publicationDiscarded}"
    and "b \<in> {publicationUnresolved, publicationPublished, publicationDiscarded}"
  shows "(publicationValue f a = publicationValue g b \<longleftrightarrow> f = g \<and> a = b) \<and>
    (publicationValue f a = -1 \<longrightarrow> a = publicationUnresolved)"
proof -
  have "a < 4" "b < 4" using assms(5,6) by (auto simp: publication_defs)
  with publicationValue_eq_iff [OF assms(1-4)] publicationValue_initial assms(5) show ?thesis by auto
qed

theorem publicationValue_injective_witness:
  "publicationValue 3 publicationPublished \<noteq> publicationValue 4 publicationPublished"
  using publicationValue_injective [of 3 4 publicationPublished publicationPublished] by simp

end
