(* ===== verification/Sequencer_Single.thy ===== *)
theory Sequencer_Single
  imports Claims Publication
begin

text \<open>
  \<open>singleProducerSequencer\<close> of \<open>sequencer_single.go\<close>: one producer goroutine claims by moving the
  private \<open>nextValue\<close>, looks at the gates only when its cached minimum does not suffice, and
  publishes by moving the cursor.
\<close>

unbundle bit_operations_syntax

section \<open>State and operations\<close>

record singleProducerSequencer = sequencerBase +
  nextValue :: int64
  cachedGate :: int64
  discarded :: "int64 list"

type_synonym single_state = "heap \<times> singleProducerSequencer"

definition newSingleProducerSequencer ::
  "int64 \<Rightarrow> WaitStrategy option \<Rightarrow> ProducerWaitMode \<Rightarrow> heap \<Rightarrow> singleProducerSequencer \<times> heap"
where
  "newSingleProducerSequencer bsize wait mode h =
     (let slots = discardMarker (replicate (nat bsize) 0);
          (b, h1) = newSequencerBase bsize wait mode h
      in (sequencerBase.extend b
            \<lparr>nextValue = InitialSequence, cachedGate = InitialSequence, discarded = slots\<rparr>, h1))"

definition single_Next ::
  "single_state turn list \<Rightarrow> int64 \<Rightarrow> single_state \<Rightarrow>
   ((error + int64) \<times> single_state turn list \<times> single_state) option"
where
  "single_Next ts count hs =
     (let (h, s) = hs in
      if sealed s then Some (Inl ErrClosed, ts, h, s)
      else if count < 1 \<or> count > bufferSize s then Some (Inl ErrInvalidClaimSize, ts, h, s)
      else let next = i64 (nextValue s + count);
               wrapPoint = i64 (next - bufferSize s) in
        if wrapPoint > cachedGate s \<or> cachedGate s > nextValue s then
          (case base_waitForCapacity ts wrapPoint (nextValue s) (h, s) of
             None \<Rightarrow> None
           | Some (Inl err, ts', h', s') \<Rightarrow> Some (Inl err, ts', h', s')
           | Some (Inr minimum, ts', h', s') \<Rightarrow>
               Some (Inr next, ts', h', s'\<lparr>cachedGate := minimum, nextValue := next\<rparr>))
        else Some (Inr next, ts, h, s\<lparr>nextValue := next\<rparr>))"

definition single_TryNext :: "int64 \<Rightarrow> single_state \<Rightarrow> (error + int64) \<times> single_state" where
  "single_TryNext count hs =
     (let (h, s) = hs in
      if sealed s then (Inl ErrClosed, h, s)
      else if count < 1 \<or> count > bufferSize s then (Inl ErrInvalidClaimSize, h, s)
      else let next = i64 (nextValue s + count);
               wrapPoint = i64 (next - bufferSize s) in
        if wrapPoint > cachedGate s \<or> cachedGate s > nextValue s then
          (let minimum = base_minimumGate (nextValue s) h s;
               s1 = s\<lparr>cachedGate := minimum\<rparr> in
           if wrapPoint > minimum then (Inl ErrInsufficientCapacity, h, s1)
           else (Inr next, h, s1\<lparr>nextValue := next\<rparr>))
        else (Inr next, h, s\<lparr>nextValue := next\<rparr>))"

definition single_index :: "singleProducerSequencer \<Rightarrow> int64 \<Rightarrow> nat" where
  "single_index s sequence = unat (u64 sequence AND u64 (i64 (bufferSize s - 1)))"

definition single_Publish :: "int64 \<Rightarrow> int64 \<Rightarrow> single_state \<Rightarrow> single_state" where
  "single_Publish low high hs =
     (let (h, s) = hs in (WaitStrategy_signalAll (wait_with s) (Sequence_store (cursor s) high h), s))"

text \<open>The loop body of \<open>Discard\<close>; the loop runs it for \<open>low\<close>, \<open>low + 1\<close>, up to \<open>high\<close>.\<close>

definition single_discard_one :: "int64 \<Rightarrow> single_state \<Rightarrow> single_state" where
  "single_discard_one sequence hs =
     (let (h, s) = hs in
      if sequence > Sequence_Load (cursor s) h then
        (Sequence_store (cursor s) sequence h,
         s\<lparr>discarded := (discarded s)[single_index s sequence := sequence]\<rparr>)
      else (h, s))"

definition single_Discard :: "int64 \<Rightarrow> int64 \<Rightarrow> single_state \<Rightarrow> single_state" where
  "single_Discard low high hs =
     (if low > high then hs
      else let (h, s) = fold single_discard_one [low..high] hs
           in (WaitStrategy_signalAll (wait_with s) h, s))"

definition single_IsAvailable :: "int64 \<Rightarrow> single_state \<Rightarrow> bool" where
  "single_IsAvailable sequence hs =
     (let (h, s) = hs; cur = Sequence_Load (cursor s) h
      in sequence \<le> cur \<and> sequence > i64 (cur - bufferSize s))"

definition single_IsDiscarded :: "int64 \<Rightarrow> single_state \<Rightarrow> bool" where
  "single_IsDiscarded sequence hs =
     (let (h, s) = hs; cur = Sequence_Load (cursor s) h in
      if sequence > cur \<or> sequence \<le> i64 (cur - bufferSize s) then False
      else discarded s ! single_index s sequence = sequence)"

definition single_HighestPublished :: "int64 \<Rightarrow> int64 \<Rightarrow> single_state \<Rightarrow> int64" where
  "single_HighestPublished lower available hs = available"

definition single_RemainingCapacity :: "single_state \<Rightarrow> int64" where
  "single_RemainingCapacity hs =
     (let (h, s) = hs; consumed = base_minimumGate (nextValue s) h s
      in i64 (bufferSize s - i64 (nextValue s - consumed)))"

definition single_NewBarrier :: "addr list \<Rightarrow> single_state \<Rightarrow> SequenceBarrier \<times> single_state" where
  "single_NewBarrier dependencies hs =
     (let (barrier, h1) = base_NewBarrier dependencies hs in (barrier, h1, snd hs))"

definition single_Shutdown ::
  "single_state turn list \<Rightarrow> single_state \<Rightarrow>
   (error option \<times> single_state turn list \<times> single_state) option"
where
  "single_Shutdown ts hs =
     (case base_beginShutdown hs of
        (Some err, hs1) \<Rightarrow> Some (Some err, ts, hs1)
      | (None, hs1) \<Rightarrow> base_awaitShutdown ts (nextValue (snd hs1)) hs1)"

section \<open>The invariant\<close>

text \<open>
  The slowest gate as the producer sees it, and the claim window: the producer is never more than
  a ring ahead of the slowest gate, and its cached gate never ahead of the real one.
\<close>

definition single_slowest :: "single_state \<Rightarrow> int64" where
  "single_slowest hs = base_minimumGate (nextValue (snd hs)) (fst hs) (snd hs)"

definition single_ok :: "single_state \<Rightarrow> bool" where
  "single_ok hs \<longleftrightarrow>
     (let (h, s) = hs in
      ring_size (bufferSize s) \<and> length (discarded s) = nat (bufferSize s) \<and>
      cursor s \<notin> set (gating s) \<and>
      -1 \<le> nextValue s \<and> nextValue s < 2 ^ 63 \<and>
      -1 \<le> Sequence_Load (cursor s) h \<and> Sequence_Load (cursor s) h \<le> nextValue s \<and>
      (\<forall>g \<in> set (gating s). -1 \<le> Sequence_Load g h \<and> Sequence_Load g h \<le> nextValue s \<and>
         nextValue s - bufferSize s \<le> Sequence_Load g h \<and> cachedGate s \<le> Sequence_Load g h) \<and>
      -1 \<le> cachedGate s \<and> cachedGate s \<le> nextValue s)"

lemma single_slowest_bounds:
  assumes "single_ok (h, s)"
  shows "-1 \<le> single_slowest (h, s)" "single_slowest (h, s) \<le> nextValue s"
    "nextValue s - bufferSize s \<le> single_slowest (h, s)" "cachedGate s \<le> single_slowest (h, s)"
proof -
  have pos: "0 < bufferSize s" using assms by (simp add: single_ok_def ring_size_pos)
  show "-1 \<le> single_slowest (h, s)" "nextValue s - bufferSize s \<le> single_slowest (h, s)"
    "cachedGate s \<le> single_slowest (h, s)"
    using assms pos
    by (auto simp: single_ok_def single_slowest_def base_minimumGate_def minimumSequence_ge_iff)
  show "single_slowest (h, s) \<le> nextValue s"
    using assms by (cases "gating s = []")
      (auto simp: single_ok_def single_slowest_def base_minimumGate_def
        intro!: order_trans [OF minimumSequence_le [of "hd (gating s)"]])
qed

lemma minimumGate_update [simp]:
  "base_minimumGate fb h (s\<lparr>cachedGate := c\<rparr>) = base_minimumGate fb h s"
  "base_minimumGate fb h (s\<lparr>nextValue := n\<rparr>) = base_minimumGate fb h s"
  by (simp_all add: base_minimumGate_def)

lemma single_wrap_free:
  assumes "single_ok (h, s)" "1 \<le> n" "n \<le> bufferSize s" "nextValue s + n < 2 ^ 63"
  shows "i64 (nextValue s + n) = nextValue s + n"
    "i64 (nextValue s + n - bufferSize s) = nextValue s + n - bufferSize s"
  using assms by (auto simp: single_ok_def ring_size_def intro!: i64_id)

text \<open>A claim that is granted keeps the window.\<close>

lemma single_ok_claim:
  assumes ok: "single_ok (h, s)" and n: "1 \<le> n" "n \<le> bufferSize s" "nextValue s + n < 2 ^ 63"
    and c: "-1 \<le> c" "c \<le> single_slowest (h, s)"
    and room: "nextValue s + n - bufferSize s \<le> single_slowest (h, s)"
  shows "single_ok (h, s\<lparr>cachedGate := c, nextValue := nextValue s + n\<rparr>)"
proof -
  have "single_slowest (h, s) \<le> Sequence_Load g h" if "g \<in> set (gating s)" for g
    using that by (simp add: single_slowest_def base_minimumGate_def minimumSequence_le)
  moreover note single_slowest_bounds [OF ok]
  ultimately show ?thesis using ok n c room
    by (fastforce simp: single_ok_def)
qed

lemma single_TryNext_decides:
  assumes ok: "single_ok (h, s)" and open_: "\<not> sealed s"
    and n: "1 \<le> n" "n \<le> bufferSize s" "nextValue s + n < 2 ^ 63"
  shows "\<exists>c. -1 \<le> c \<and> c \<le> single_slowest (h, s) \<and>
    single_TryNext n (h, s) =
      (if nextValue s + n - bufferSize s \<le> single_slowest (h, s)
       then (Inr (nextValue s + n), h, s\<lparr>cachedGate := c, nextValue := nextValue s + n\<rparr>)
       else (Inl ErrInsufficientCapacity, h, s\<lparr>cachedGate := c\<rparr>))"
proof -
  note wf = single_wrap_free [OF ok n]
  note b = single_slowest_bounds [OF ok]
  let ?m = "single_slowest (h, s)"
  have range: "-1 \<le> cachedGate s" "cachedGate s \<le> nextValue s" using ok by (auto simp: single_ok_def)
  have unf: "single_TryNext n (h, s) =
      (if nextValue s + n - bufferSize s > cachedGate s then
         (if nextValue s + n - bufferSize s > ?m
          then (Inl ErrInsufficientCapacity, h, s\<lparr>cachedGate := ?m\<rparr>)
          else (Inr (nextValue s + n), h, s\<lparr>cachedGate := ?m, nextValue := nextValue s + n\<rparr>))
       else (Inr (nextValue s + n), h, s\<lparr>nextValue := nextValue s + n\<rparr>))"
    using open_ n range by (simp add: single_TryNext_def wf single_slowest_def Let_def)
  show ?thesis
  proof (cases "nextValue s + n - bufferSize s > cachedGate s")
    case True
    then show ?thesis using unf b by (intro exI [of _ ?m]) auto
  next
    case False
    then show ?thesis using unf b range by (intro exI [of _ "cachedGate s"]) auto
  qed
qed

interpretation single: claim_protocol single_TryNext "\<lambda>hs. nextValue (snd hs)" single_slowest
  "\<lambda>hs. bufferSize (snd hs)" "\<lambda>hs. gating (snd hs) \<noteq> []" "\<lambda>hs. sealed (snd hs)" single_ok
proof (unfold_locales, goal_cases)
  case (1 hs)
  then show ?case
    using single_slowest_bounds [of "fst hs" "snd hs"]
    by (auto simp: single_ok_def ring_size_pos)
next
  case (2 hs n)
  then show ?case
    by (cases hs) (auto simp: single_TryNext_def)
next
  case (3 hs n r hs')
  obtain h s where hs: "hs = (h, s)" by (cases hs)
  have ok: "single_ok (h, s)" and pre: "\<not> sealed s" "1 \<le> n" "n \<le> bufferSize s" "nextValue s + n < 2 ^ 63"
    using 3 hs by auto
  from single_TryNext_decides [OF ok pre] obtain c where c: "-1 \<le> c" "c \<le> single_slowest (h, s)"
    and eq: "single_TryNext n (h, s) =
      (if nextValue s + n - bufferSize s \<le> single_slowest (h, s)
       then (Inr (nextValue s + n), h, s\<lparr>cachedGate := c, nextValue := nextValue s + n\<rparr>)
       else (Inl ErrInsufficientCapacity, h, s\<lparr>cachedGate := c\<rparr>))" by blast
  have slow: "single_slowest (h, s\<lparr>cachedGate := c\<rparr>) = single_slowest (h, s)"
    "gating s \<noteq> [] \<Longrightarrow>
     single_slowest (h, s\<lparr>cachedGate := c, nextValue := k\<rparr>) = single_slowest (h, s)" for k
    by (cases "gating s"; simp add: single_slowest_def base_minimumGate_def)+
  have kept: "single_ok (h, s\<lparr>cachedGate := c\<rparr>)"
  proof -
    have "c \<le> Sequence_Load g h" if "g \<in> set (gating s)" for g
      using that c(2) order_trans by (fastforce simp: single_slowest_def base_minimumGate_def
          dest: minimumSequence_le [of g "gating s" "nextValue s" h])
    then show ?thesis using ok c single_slowest_bounds [OF ok] by (auto simp: single_ok_def)
  qed
  show ?case
    using 3(6) hs eq slow kept single_ok_claim [OF ok pre(2-4) c]
    by (auto simp: claim_spec_def split: if_splits)
qed

section \<open>Resolving claims\<close>

lemma single_index_slot: "ring_size (bufferSize s) \<Longrightarrow> single_index s q = slot (bufferSize s) q"
  by (simp add: single_index_def mask_slot)

text \<open>Discarding the next sequences in order marks each of them and moves the cursor over them.\<close>

lemma discard_fold:
  assumes "ring_size (bufferSize s)" "Sequence_Load (cursor s) h = low - 1" "low \<le> high + 1"
  shows "fold single_discard_one [low..high] (h, s) =
    (Sequence_store (cursor s) high h,
     s\<lparr>discarded := visit_slots (bufferSize s) (\<lambda>q _. q) [low..high] (discarded s)\<rparr>)"
  using assms
proof (induction "nat (high + 1 - low)" arbitrary: low h s)
  case 0
  then have "high = low - 1" by simp
  with 0 show ?case using store_store(2) [of "cursor s" h] by simp
next
  case (Suc k)
  then have r: "[low..high] = low # [low + 1..high]" by (simp add: upto_rec1)
  let ?h = "Sequence_store (cursor s) low h"
  let ?s = "s\<lparr>discarded := (discarded s)[slot (bufferSize s) low := low]\<rparr>"
  have "single_discard_one low (h, s) = (?h, ?s)"
    using Suc.prems by (simp add: single_discard_one_def single_index_slot)
  with Suc.hyps(1) [of "low + 1" ?s ?h] Suc.hyps(2) Suc.prems show ?case
    by (simp add: r heap_simps)
qed

definition single_status :: "int64 \<Rightarrow> single_state \<Rightarrow> status" where
  "single_status q hs = status_of (single_IsAvailable q hs) (single_IsDiscarded q hs)"

text \<open>Every mark is the initial one or names a sequence of its own slot that is already visible.\<close>

definition single_log_ok :: "single_state \<Rightarrow> bool" where
  "single_log_ok hs \<longleftrightarrow> single_ok hs \<and>
     (let (h, s) = hs in \<forall>i < nat (bufferSize s).
        discarded s ! i = -1 \<or>
        0 \<le> discarded s ! i \<and> discarded s ! i \<le> Sequence_Load (cursor s) h \<and>
        slot (bufferSize s) (discarded s ! i) = i)"

definition single_live :: "int64 \<Rightarrow> single_state \<Rightarrow> bool" where
  "single_live q hs \<longleftrightarrow>
     (let (h, s) = hs in 0 \<le> q \<and> nextValue s - bufferSize s < q \<and> q \<le> nextValue s)"

text \<open>The one producer resolves its claims in order.\<close>

definition single_pending :: "int64 \<Rightarrow> int64 \<Rightarrow> single_state \<Rightarrow> bool" where
  "single_pending low high hs \<longleftrightarrow>
     (let (h, s) = hs in
      low = Sequence_Load (cursor s) h + 1 \<and> low \<le> high \<and> high \<le> nextValue s \<and>
      nextValue s - bufferSize s < low)"

definition single_readable :: "int64 \<Rightarrow> int64 \<Rightarrow> single_state \<Rightarrow> bool" where
  "single_readable lower avail hs \<longleftrightarrow>
     (let (h, s) = hs in 0 \<le> lower \<and> nextValue s - bufferSize s < lower \<and>
      avail \<le> Sequence_Load (cursor s) h)"

lemma single_status_eq:
  assumes "single_log_ok (h, s)" "single_live q (h, s)"
  shows "single_status q (h, s) =
    (if Sequence_Load (cursor s) h < q then Unresolved
     else if discarded s ! slot (bufferSize s) q = q then Discarded else Published)"
proof -
  have ok: "single_ok (h, s)" using assms(1) by (simp add: single_log_ok_def)
  then have c: "-1 \<le> Sequence_Load (cursor s) h" "Sequence_Load (cursor s) h \<le> nextValue s"
    "nextValue s < 2 ^ 63" "ring_size (bufferSize s)" by (auto simp: single_ok_def)
  then have "i64 (Sequence_Load (cursor s) h - bufferSize s) = Sequence_Load (cursor s) h - bufferSize s"
    by (auto simp: ring_size_def intro!: i64_id)
  with c assms(2) show ?thesis
    by (simp add: single_status_def single_IsAvailable_def single_IsDiscarded_def status_of_def
        single_live_def single_index_slot)
qed

lemma single_Publish_eq:
  "single_Publish low high (h, s) =
     (WaitStrategy_signalAll (wait_with s) (Sequence_store (cursor s) high h), s)"
  by (simp add: single_Publish_def)

lemma single_Discard_eq:
  assumes "single_ok (h, s)" "single_pending low high (h, s)"
  shows "single_Discard low high (h, s) =
    (WaitStrategy_signalAll (wait_with s) (Sequence_store (cursor s) high h),
     s\<lparr>discarded := visit_slots (bufferSize s) (\<lambda>q _. q) [low..high] (discarded s)\<rparr>)"
  using assms discard_fold [of s h low high]
  by (auto simp: single_Discard_def single_ok_def single_pending_def)

lemma single_ok_cursor:
  assumes "single_ok (h, s)" "Sequence_Load (cursor s) h \<le> high" "high \<le> nextValue s"
    "length d = nat (bufferSize s)"
  shows "single_ok (WaitStrategy_signalAll w (Sequence_store (cursor s) high h), s\<lparr>discarded := d\<rparr>)"
  using assms by (auto simp: single_ok_def heap_simps)

lemma single_marks_kept:
  assumes ok: "single_log_ok (h, s)" and p: "single_pending low high (h, s)" and i: "i < nat (bufferSize s)"
    and marks: "qs = [low..high] \<or> qs = []"
  shows "let d = visit_slots (bufferSize s) (\<lambda>q _. q) qs (discarded s) ! i
    in d = -1 \<or> 0 \<le> d \<and> d \<le> high \<and> slot (bufferSize s) d = i"
  unfolding Let_def
proof (rule visit_slots_range [where n = "bufferSize s" and
    P = "\<lambda>i d. d = -1 \<or> 0 \<le> d \<and> d \<le> high \<and> slot (bufferSize s) d = i"])
  have s: "single_ok (h, s)" using ok by (simp add: single_log_ok_def)
  show "0 < bufferSize s" "length (discarded s) = nat (bufferSize s)"
    using s by (auto simp: single_ok_def ring_size_pos)
  show "distinct (map (slot (bufferSize s)) qs)"
    using marks p by (auto simp: single_pending_def intro: slots_distinct)
  show "\<And>q. q \<in> set qs \<Longrightarrow>
      q = -1 \<or> 0 \<le> q \<and> q \<le> high \<and> slot (bufferSize s) q = slot (bufferSize s) q"
    using marks p s by (auto simp: single_pending_def single_ok_def)
  show "\<And>j. j < nat (bufferSize s) \<Longrightarrow> discarded s ! j = -1 \<or>
      0 \<le> discarded s ! j \<and> discarded s ! j \<le> high \<and> slot (bufferSize s) (discarded s ! j) = j"
    using ok p by (fastforce simp: single_log_ok_def single_pending_def)
qed (rule i)

lemma single_Publish_log_ok:
  assumes "single_log_ok (h, s)" "single_pending low high (h, s)"
  shows "single_log_ok (single_Publish low high (h, s))"
  using assms single_marks_kept [OF assms, of _ "[]"] single_ok_cursor [of h s high "discarded s"]
  by (simp add: single_log_ok_def single_Publish_eq heap_simps single_pending_def Let_def)
    (simp add: single_ok_def)

lemma single_Discard_log_ok:
  assumes "single_log_ok (h, s)" "single_pending low high (h, s)"
  shows "single_log_ok (single_Discard low high (h, s))"
proof -
  have ok: "single_ok (h, s)" using assms(1) by (simp add: single_log_ok_def)
  let ?d = "visit_slots (bufferSize s) (\<lambda>q _. q) [low..high] (discarded s)"
  have "length ?d = nat (bufferSize s)" using ok by (simp add: single_ok_def)
  with single_ok_cursor [OF ok, of high ?d] assms(2)
  have "single_ok (WaitStrategy_signalAll (wait_with s) (Sequence_store (cursor s) high h), s\<lparr>discarded := ?d\<rparr>)"
    by (simp add: single_pending_def)
  then show ?thesis
    using single_marks_kept [OF assms, of _ "[low..high]"]
    by (simp add: single_log_ok_def single_Discard_eq [OF ok assms(2)] heap_simps Let_def)
qed

lemma single_live_resolve:
  assumes "single_log_ok (h, s)" "single_pending low high (h, s)"
  shows "single_live q (single_Publish low high (h, s)) = single_live q (h, s)"
    "single_live q (single_Discard low high (h, s)) = single_live q (h, s)"
  using assms by (simp_all add: single_log_ok_def single_Publish_eq single_Discard_eq single_live_def)

lemma single_Publish_status:
  assumes "single_log_ok (h, s)" "single_pending low high (h, s)" "single_live q (h, s)"
  shows "single_status q (single_Publish low high (h, s)) =
    (if low \<le> q \<and> q \<le> high then Published else single_status q (h, s))"
proof -
  have unmarked: "discarded s ! slot (bufferSize s) q \<noteq> q" if "Sequence_Load (cursor s) h < q"
  proof -
    have "0 < bufferSize s" using assms(1) by (auto simp: single_log_ok_def single_ok_def ring_size_pos)
    then have "slot (bufferSize s) q < nat (bufferSize s)" by (rule slot_less)
    then show ?thesis using assms(1,3) that by (fastforce simp: single_log_ok_def single_live_def)
  qed
  note st = single_status_eq [OF single_Publish_log_ok [OF assms(1,2), unfolded single_Publish_eq]]
  have "single_live q (WaitStrategy_signalAll (wait_with s) (Sequence_store (cursor s) high h), s)"
    using assms(3) by (simp add: single_live_def)
  from st [OF this] single_status_eq [OF assms(1,3)] unmarked assms(2) show ?thesis
    by (auto simp: single_Publish_eq heap_simps single_pending_def)
qed

lemma single_Discard_status:
  assumes "single_log_ok (h, s)" "single_pending low high (h, s)" "single_live q (h, s)"
  shows "single_status q (single_Discard low high (h, s)) =
    (if low \<le> q \<and> q \<le> high then Discarded else single_status q (h, s))"
proof -
  have ok: "single_ok (h, s)" using assms(1) by (simp add: single_log_ok_def)
  let ?d = "visit_slots (bufferSize s) (\<lambda>q _. q) [low..high] (discarded s)"
  let ?hs = "(WaitStrategy_signalAll (wait_with s) (Sequence_store (cursor s) high h), s\<lparr>discarded := ?d\<rparr>)"
  note eq = single_Discard_eq [OF ok assms(2)]
  have "0 < bufferSize s" "length (discarded s) = nat (bufferSize s)"
    using ok by (auto simp: single_ok_def ring_size_pos)
  moreover have "high - low < bufferSize s" "\<bar>q - low\<bar> < bufferSize s" "\<bar>high - q\<bar> < bufferSize s"
    using assms(2,3) ok by (auto simp: single_pending_def single_live_def)
  ultimately have "?d ! slot (bufferSize s) q =
      (if low \<le> q \<and> q \<le> high then q else discarded s ! slot (bufferSize s) q)"
    by (rule visit_range)
  moreover have "single_log_ok ?hs" using single_Discard_log_ok [OF assms(1,2)] by (simp add: eq)
  moreover have "single_live q ?hs" using assms(3) by (simp add: single_live_def)
  ultimately have "single_status q ?hs =
      (if high < q then Unresolved
       else if (if low \<le> q \<and> q \<le> high then q else discarded s ! slot (bufferSize s) q) = q
       then Discarded else Published)"
    using single_status_eq [of _ "s\<lparr>discarded := ?d\<rparr>" q] by (simp add: heap_simps)
  then show ?thesis
    unfolding eq using single_status_eq [OF assms(1,3)] assms(2)
    by (simp add: single_pending_def)
qed

lemma single_readable_status:
  assumes "single_log_ok (h, s)" "single_readable lower avail (h, s)" "lower \<le> q" "q \<le> avail"
  shows "single_status q (h, s) \<noteq> Unresolved"
proof -
  have "single_live q (h, s)"
    using assms by (auto simp: single_readable_def single_live_def single_log_ok_def single_ok_def)
  from single_status_eq [OF assms(1) this] assms(2-4) show ?thesis
    by (simp add: single_readable_def)
qed

interpretation single_log: publication_log single_Publish single_Discard single_status
  single_HighestPublished single_pending single_live single_readable single_log_ok
proof (unfold_locales, goal_cases)
  case (1 hs low high q)
  then show ?case by (cases hs) (simp add: single_Publish_status)
next
  case (2 hs low high q)
  then show ?case by (cases hs) (simp add: single_Discard_status)
next
  case (3 hs low high)
  then show ?case
    by (cases hs) (simp add: single_Publish_log_ok single_Discard_log_ok single_live_resolve)
next
  case (4 hs low high q)
  obtain h s where hs: "hs = (h, s)" by (cases hs)
  from 4 have live: "single_live q (h, s)"
    by (auto simp: hs single_pending_def single_live_def single_log_ok_def single_ok_def)
  with 4 single_status_eq [of h s q] show ?case by (simp add: hs single_pending_def)
next
  case (5 hs lower avail)
  then show ?case
    using single_readable_status [of "fst hs" "snd hs"] by (simp add: single_HighestPublished_def)
qed

section \<open>Construction, gates, the blocking claim and capacity\<close>

lemma new_single_log_ok:
  assumes "ring_size bsize" "newSingleProducerSequencer bsize wait mode h = (s, h')"
  shows "single_log_ok (h', s)" "nextValue s = -1" "gating s = []" "\<not> sealed s" "bufferSize s = bsize"
proof -
  have "0 < bsize" using assms(1) by (rule ring_size_pos)
  have eq: "bufferSize s = bsize" "nextValue s = -1" "cachedGate s = -1" "gating s = []" "\<not> sealed s"
    "discarded s = replicate (nat bsize) (-1)" "Sequence_Load (cursor s) h' = -1"
    using assms(2)
    by (auto simp: newSingleProducerSequencer_def newSequencerBase_def Let_def
        sequencerBase.defs discardMarker_def InitialSequence_def NewSequence_def Sequence_Load_def
        newProducerWaiter_def make_chan_def new_flag_def split: prod.splits option.splits if_splits)
  then show "nextValue s = -1" "gating s = []" "\<not> sealed s" "bufferSize s = bsize" by simp_all
  have "single_ok (h', s)" using assms(1) eq by (simp add: single_ok_def)
  then show "single_log_ok (h', s)" using eq by (simp add: single_log_ok_def)
qed

text \<open>A consumer that acknowledges only what was claimed keeps the window.\<close>

lemma single_ok_gate_store:
  assumes "single_ok (h, s)" "g \<in> set (gating s)" "Sequence_Load g h \<le> v" "v \<le> nextValue s"
  shows "single_ok (Sequence_Store g v h, s)"
proof -
  have "g \<noteq> cursor s" using assms(1,2) by (auto simp: single_ok_def)
  with assms show ?thesis by (fastforce simp: single_ok_def heap_simps)
qed

lemma single_ok_remove_gate:
  assumes "single_ok (h, s)"
  shows "single_ok (snd (base_RemoveGatingSequence target (h, s)))"
proof (cases "find_index target (gating s)")
  case None
  with assms show ?thesis by (simp add: base_RemoveGatingSequence_def)
next
  case (Some i)
  then show ?thesis
    using assms set_remove1_subset [of target "gating s"]
    by (auto simp: base_RemoveGatingSequence_def Let_def single_ok_def heap_simps
        find_index_remove1 subset_iff)
qed

text \<open>
  New gates start at the published cursor, so the window survives their registration when the
  cached gate and the claims in flight are within reach of the cursor.
\<close>

lemma single_ok_add_gates:
  assumes "single_ok (h, s)" "\<not> flags h (closed_flag s)" "Some (cursor s) \<notin> set ss"
    and "cachedGate s \<le> Sequence_Load (cursor s) h"
    and "nextValue s - bufferSize s \<le> Sequence_Load (cursor s) h"
  shows "single_ok (base_AddGatingSequences ss (h, s))"
proof -
  let ?new = "List.map_filter (\<lambda>g. g) ss"
  let ?h = "snd (add_gates (producerWait s) (Sequence_Load (cursor s) h) ss (gating s) h)"
  have c: "cursor s \<notin> set ?new" using assms(3) by (simp add: in_map_filter_id)
  have "Sequence_Load (cursor s) ?h = Sequence_Load (cursor s) h"
    using assms(3) by (simp add: add_gates_Load)
  moreover have "Sequence_Load g ?h = (if g \<in> set ?new then Sequence_Load (cursor s) h else Sequence_Load g h)" for g
    by (simp add: add_gates_Load in_map_filter_id)
  ultimately show ?thesis
    using assms c by (auto simp: AddGatingSequences_open single_ok_def)
qed

lemma single_Next_grants:
  assumes ok: "single_ok (h, s)" and n: "nextValue s + n < 2 ^ 63"
    and next_: "single_Next ts n (h, s) = Some (Inr high, ts', h', s')"
  shows "high = nextValue s + n \<and> 1 \<le> n \<and> n \<le> bufferSize s \<and> nextValue s' = high \<and>
    high - bufferSize s \<le> base_minimumGate (nextValue s) h' s'"
proof -
  have n2: "\<not> sealed s" "1 \<le> n" "n \<le> bufferSize s"
    using next_ by (auto simp: single_Next_def split: if_splits)
  note wf = single_wrap_free [OF ok n2(2,3) n]
  note b = single_slowest_bounds [OF ok]
  show ?thesis
  proof (cases "nextValue s + n - bufferSize s > cachedGate s \<or> cachedGate s > nextValue s")
    case True
    let ?w = "base_waitForCapacity ts (nextValue s + n - bufferSize s) (nextValue s) (h, s)"
    have eq: "single_Next ts n (h, s) =
      (case ?w of None \<Rightarrow> None
       | Some (Inl err, ts', h', s') \<Rightarrow> Some (Inl err, ts', h', s')
       | Some (Inr minimum, ts', h', s') \<Rightarrow>
           Some (Inr (nextValue s + n), ts', h', s'\<lparr>cachedGate := minimum, nextValue := nextValue s + n\<rparr>))"
      using n2 True by (simp add: single_Next_def wf Let_def)
    show ?thesis
    proof (cases ?w)
      case None
      with eq next_ show ?thesis by simp
    next
      case (Some x)
      obtain r ts1 h1 s1 where x: "x = (r, ts1, h1, s1)" by (cases x)
      show ?thesis
      proof (cases r)
        case (Inl err)
        with eq next_ Some x show ?thesis by simp
      next
        case (Inr m)
        with Some x have w: "?w = Some (Inr m, ts1, h1, s1)" by simp
        then have "single_Next ts n (h, s) = Some (Inr (nextValue s + n), ts1, h1,
            s1\<lparr>cachedGate := m, nextValue := nextValue s + n\<rparr>)" unfolding eq by simp
        from trans [OF next_ [symmetric] this] have "high = nextValue s + n" "h' = h1"
          and s': "s' = s1\<lparr>cachedGate := m, nextValue := nextValue s + n\<rparr>"
          unfolding option.inject prod.inject sum.inject by blast+
        moreover have "nextValue s + n - bufferSize s \<le> m" "m = base_minimumGate (nextValue s) h1 s1"
          using waitForCapacity_room [OF w] by simp_all
        ultimately show ?thesis using n2 by simp
      qed
    qed
  next
    case False
    with next_ n2 b show ?thesis
      by (auto simp: single_Next_def wf Let_def single_slowest_def)
  qed
qed

lemma single_Next_now:
  assumes ok: "single_ok (h, s)" and n: "nextValue s + n < 2 ^ 63" and open_: "\<not> sealed s"
    and room: "1 \<le> n" "n \<le> bufferSize s - (nextValue s - single_slowest (h, s))"
  shows "\<exists>ts' s'. single_Next (quiet # ts) n (h, s) = Some (Inr (nextValue s + n), ts', h, s')"
proof -
  have n2: "n \<le> bufferSize s" using room single_slowest_bounds [OF ok] by simp
  note wf = single_wrap_free [OF ok room(1) n2 n]
  have "nextValue s + n - bufferSize s \<le> base_minimumGate (nextValue s) h s"
    using room by (simp add: single_slowest_def)
  with open_ n2 room(1) show ?thesis
    by (simp add: single_Next_def wf Let_def waitForCapacity_now del: base_waitForCapacity.simps)
qed

lemma single_RemainingCapacity_eq:
  assumes "single_ok (h, s)"
  shows "single_RemainingCapacity (h, s) = bufferSize s - (nextValue s - single_slowest (h, s))"
    "0 \<le> single_RemainingCapacity (h, s)" "single_RemainingCapacity (h, s) \<le> bufferSize s"
proof -
  note b = single_slowest_bounds [OF assms]
  have r: "nextValue s < 2 ^ 63" "bufferSize s < 2 ^ 63" "-1 \<le> nextValue s" "0 < bufferSize s"
    using assms by (auto simp: single_ok_def ring_size_def)
  have "i64 (nextValue s - single_slowest (h, s)) = nextValue s - single_slowest (h, s)"
    using b r by (intro i64_id) auto
  moreover have "i64 (bufferSize s - (nextValue s - single_slowest (h, s))) =
      bufferSize s - (nextValue s - single_slowest (h, s))"
    using b r by (intro i64_id) auto
  ultimately show "single_RemainingCapacity (h, s) = bufferSize s - (nextValue s - single_slowest (h, s))"
    by (simp add: single_RemainingCapacity_def single_slowest_def)
  with b show "0 \<le> single_RemainingCapacity (h, s)" "single_RemainingCapacity (h, s) \<le> bufferSize s"
    by simp_all
qed

section \<open>Properties\<close>

text \<open>A fresh ring of four slots, for concrete instances.\<close>

definition fresh_single :: single_state where
  "fresh_single =
     (let (s, h) = newSingleProducerSequencer 4 (Some YieldingWait) ProducerWaitYielding empty_heap
      in (h, s))"

lemma ring_size_4: "ring_size 4"
  using ring_size_exp [of 2] by simp

lemma fresh_single_ok:
  "single_log_ok fresh_single" "single_ok fresh_single" "nextValue (snd fresh_single) = -1"
  "gating (snd fresh_single) = []" "\<not> sealed (snd fresh_single)" "bufferSize (snd fresh_single) = 4"
proof -
  obtain s h where n: "newSingleProducerSequencer 4 (Some YieldingWait) ProducerWaitYielding empty_heap = (s, h)"
    by fastforce
  note ok = new_single_log_ok [OF ring_size_4 n]
  have f: "fresh_single = (h, s)" using n by (simp add: fresh_single_def)
  show "single_log_ok fresh_single" "nextValue (snd fresh_single) = -1"
    "gating (snd fresh_single) = []" "\<not> sealed (snd fresh_single)" "bufferSize (snd fresh_single) = 4"
    using ok by (simp_all add: f)
  then show "single_ok fresh_single" by (auto simp: single_log_ok_def f)
qed

lemma fresh_single_slowest: "single_slowest fresh_single = -1"
  using fresh_single_ok(3,4) by (simp add: single_slowest_def base_minimumGate_def)

text \<open>
  C12. The single-producer claim with its cached gate decides exactly as the reference that looks at the
  slowest gate every time: it grants \<open>claimed + n\<close> if that is within one ring of the slowest gate and
  fails with \<open>ErrInsufficientCapacity\<close> otherwise, and it keeps the claim window either way.
\<close>

theorem single_TryNext_refines:
  assumes "single_ok hs" "\<not> sealed (snd hs)" "1 \<le> n" "n \<le> bufferSize (snd hs)"
    and "nextValue (snd hs) + n < 2 ^ 63" "single_TryNext n hs = (r, hs')"
  shows "r = claim_spec (bufferSize (snd hs)) (single_slowest hs) (nextValue (snd hs)) n \<and> single_ok hs' \<and>
    nextValue (snd hs') = (case r of Inl err \<Rightarrow> nextValue (snd hs) | Inr high \<Rightarrow> high)"
  using single.decides [OF assms] by simp

theorem single_TryNext_refines_witness:
  "fst (single_TryNext 3 fresh_single) = Inr 2"
  using single_TryNext_refines [OF fresh_single_ok(2,5), of 3 "fst (single_TryNext 3 fresh_single)"
      "snd (single_TryNext 3 fresh_single)"] fresh_single_ok fresh_single_slowest
  by (simp add: claim_spec_def)

text \<open>
  A run of non-blocking claims of any sizes grants consecutive ranges: no sequence is skipped and
  none is given out twice, and the claim window holds at the end.
\<close>

theorem single_claims_consecutive:
  assumes "single_ok hs" "nextValue (snd hs) + bufferSize (snd hs) * int (length ns) < 2 ^ 63"
    and "claim_run single_TryNext ns hs = (rs, hs')"
  shows "range_sequences rs = [nextValue (snd hs) + 1..nextValue (snd hs')] \<and> single_ok hs' \<and>
    nextValue (snd hs') - bufferSize (snd hs') \<le> single_slowest hs'"
  using single.claim_run_consecutive [OF assms] single.window by blast

theorem single_claims_consecutive_witness:
  "range_sequences (fst (claim_run single_TryNext [2, 9, 1] fresh_single)) =
     [0..nextValue (snd (snd (claim_run single_TryNext [2, 9, 1] fresh_single)))]"
  using single_claims_consecutive [OF fresh_single_ok(2), of "[2, 9, 1]"
      "fst (claim_run single_TryNext [2, 9, 1] fresh_single)"
      "snd (claim_run single_TryNext [2, 9, 1] fresh_single)"] fresh_single_ok
  by simp





text \<open>
  C15. Publishing or discarding the next claimed range makes exactly that range published or
  discarded: every other sequence of the claim window keeps its status.
\<close>

theorem single_resolution:
  assumes "single_log_ok hs" "single_pending low high hs" "single_live q hs"
  shows "single_status q (single_Publish low high hs) =
      (if low \<le> q \<and> q \<le> high then Published else single_status q hs) \<and>
    single_status q (single_Discard low high hs) =
      (if low \<le> q \<and> q \<le> high then Discarded else single_status q hs) \<and>
    single_log_ok (single_Publish low high hs) \<and> single_log_ok (single_Discard low high hs)"
  using single_log.publish_status [OF assms] single_log.discard_status [OF assms]
    single_log.resolve_ok [OF assms(1,2)] by simp

lemma fresh_claimed:
  "\<exists>s. single_TryNext 3 fresh_single = (Inr 2, fst fresh_single, s) \<and>
     single_log_ok (fst fresh_single, s) \<and> single_pending 0 1 (fst fresh_single, s) \<and>
     single_live 1 (fst fresh_single, s)"
proof -
  obtain h s where f: "fresh_single = (h, s)" by fastforce
  have ok: "single_ok (h, s)" using fresh_single_ok(2) by (simp add: f)
  have d: "nextValue s = -1" "\<not> sealed s" "bufferSize s = 4" "single_slowest (h, s) = -1"
    using fresh_single_ok fresh_single_slowest by (simp_all add: f)
  from single_TryNext_decides [OF ok d(2), of 3] d obtain c where
    t: "-1 \<le> c" "c \<le> -1" "single_TryNext 3 (h, s) = (Inr 2, h, s\<lparr>cachedGate := c, nextValue := 2\<rparr>)"
    by auto
  have "single_ok (h, s\<lparr>cachedGate := c, nextValue := 2\<rparr>)"
    using single_ok_claim [OF ok, of 3 c] d t by simp
  moreover have "single_log_ok (h, s)" using fresh_single_ok(1) by (simp add: f)
  ultimately have "single_log_ok (h, s\<lparr>cachedGate := c, nextValue := 2\<rparr>)" by (simp add: single_log_ok_def)
  moreover have "Sequence_Load (cursor s) h = -1" using ok d by (simp add: single_ok_def)
  ultimately show ?thesis using t(3) d
    by (intro exI [of _ "s\<lparr>cachedGate := c, nextValue := 2\<rparr>"]) (simp add: f single_pending_def single_live_def)
qed

theorem single_resolution_witness:
  "\<exists>s. single_status 1 (single_Discard 0 1 (fst fresh_single, s)) = Discarded \<and>
     single_status 1 (single_Publish 0 1 (fst fresh_single, s)) = Published"
  using fresh_claimed single_resolution [of _ 0 1 1] by (metis order_refl zero_less_one_class.zero_le_one)

text \<open>
  \<open>Publish\<close> moves the cursor to \<open>high\<close> even when it is already beyond: publishing an older range
  again takes every later sequence out of sight.
\<close>

theorem single_duplicate_publish_rewinds:
  assumes "-1 \<le> high" "high < q" "single_IsAvailable q (h, s)"
  shows "\<not> single_IsAvailable q (single_Publish low high (h, s))"
  using assms by (simp add: single_IsAvailable_def single_Publish_def heap_simps)

text \<open>Three published sequences, two more claimed, a gate added at the cursor, three more claims.\<close>

definition late_gate :: single_state where
  "late_gate =
     (let hs1 = snd (single_TryNext 3 fresh_single);
          hs2 = single_Publish 0 2 hs1;
          hs3 = snd (single_TryNext 1 (snd (single_TryNext 1 hs2)));
          (g, h4) = NewSequence InitialSequence (fst hs3);
          hs5 = base_AddGatingSequences [Some g] (h4, snd hs3)
      in snd (single_TryNext 3 hs5))"

lemma late_gate_values:
  "nextValue (snd late_gate) = 7" "base_minimumGate 7 (fst late_gate) (snd late_gate) = 2"
  "bufferSize (snd late_gate) = 4" "single_RemainingCapacity late_gate = -1"
  by code_simp+

theorem single_duplicate_publish_rewinds_witness:
  "\<exists>s. single_IsAvailable 1 (single_Publish 0 1 (fst fresh_single, s)) \<and>
     \<not> single_IsAvailable 1 (single_Publish 0 0 (single_Publish 0 1 (fst fresh_single, s)))"
proof -
  let ?hs = "single_Publish 0 1 fresh_single"
  have "single_IsAvailable 1 (fst ?hs, snd ?hs)" by code_simp
  from single_duplicate_publish_rewinds [OF _ _ this, of 0 0] this show ?thesis
    by (intro exI [of _ "snd fresh_single"]) simp
qed


end
