(* ===== verification/Sequencer_Multi.thy ===== *)
theory Sequencer_Multi
  imports Claims Publication
begin

text \<open>
  \<open>multiProducerSequencer\<close> of \<open>sequencer_multi.go\<close>: producers claim by a compare-and-swap on the
  cursor, mark the slots of their claim as unresolved, and publish or discard each slot by a
  second compare-and-swap on the slot's lap word. Consumers scan the lap words for the highest
  contiguous resolved sequence. \<open>gateCache\<close> is a private atomic that no other object reaches.
\<close>

unbundle bit_operations_syntax

section \<open>State and operations\<close>

record multiProducerSequencer = sequencerBase +
  gateCache :: int64
  available :: "int64 list"
  indexMask :: uint64
  indexShift :: nat

type_synonym multi_state = "heap \<times> multiProducerSequencer"

definition newMultiProducerSequencer ::
  "int64 \<Rightarrow> WaitStrategy option \<Rightarrow> ProducerWaitMode \<Rightarrow> heap \<Rightarrow> multiProducerSequencer \<times> heap"
where
  "newMultiProducerSequencer bsize wait mode h =
     (let (b, h1) = newSequencerBase bsize wait mode h
      in (sequencerBase.extend b
            \<lparr>gateCache = InitialSequence, available = replicate (nat bsize) (-1),
             indexMask = u64 (i64 (bsize - 1)), indexShift = TrailingZeros64 bsize\<rparr>, h1))"

definition multi_index :: "multiProducerSequencer \<Rightarrow> int64 \<Rightarrow> nat" where
  "multi_index s sequence = unat (u64 sequence AND indexMask s)"

definition multi_flag :: "multiProducerSequencer \<Rightarrow> int64 \<Rightarrow> int64" where
  "multi_flag s sequence = s64 (drop_bit (indexShift s) (u64 sequence))"

definition multi_prepare_one :: "int64 \<Rightarrow> multiProducerSequencer \<Rightarrow> multiProducerSequencer" where
  "multi_prepare_one sequence s =
     s\<lparr>available := (available s)
         [multi_index s sequence := publicationValue (multi_flag s sequence) publicationUnresolved]\<rparr>"

text \<open>The loops of \<open>prepare\<close> and \<open>resolve\<close> run for \<open>low\<close>, \<open>low + 1\<close>, up to \<open>high\<close>.\<close>

definition multi_prepare :: "int64 \<Rightarrow> int64 \<Rightarrow> multiProducerSequencer \<Rightarrow> multiProducerSequencer" where
  "multi_prepare low high s = (if low > high then s else fold multi_prepare_one [low..high] s)"

definition multi_resolve_one :: "uint32 \<Rightarrow> int64 \<Rightarrow> multiProducerSequencer \<Rightarrow> multiProducerSequencer" where
  "multi_resolve_one resolution sequence s =
     (let index = multi_index s sequence; flag = multi_flag s sequence in
      if available s ! index = publicationValue flag publicationUnresolved
      then s\<lparr>available := (available s)[index := publicationValue flag resolution]\<rparr>
      else s)"

definition multi_resolve ::
  "int64 \<Rightarrow> int64 \<Rightarrow> uint32 \<Rightarrow> multiProducerSequencer \<Rightarrow> multiProducerSequencer"
where
  "multi_resolve low high resolution s =
     (if low > high then s else fold (multi_resolve_one resolution) [low..high] s)"

definition multi_resolution :: "int64 \<Rightarrow> multiProducerSequencer \<Rightarrow> uint32" where
  "multi_resolution sequence s =
     (let flag = multi_flag s sequence; v = available s ! multi_index s sequence in
      if v = publicationValue flag publicationPublished then publicationPublished
      else if v = publicationValue flag publicationDiscarded then publicationDiscarded
      else publicationUnresolved)"

text \<open>
  The claim loops. Other goroutines may run between the reads of the cursor, the cache and the
  prepared channel and the read of the gates (\<open>t_mid\<close>), and again before the compare-and-swap
  (\<open>t_park\<close>), which then fails if the cursor moved.
\<close>

definition multi_cas ::
  "multi_state turn \<Rightarrow> int64 \<Rightarrow> int64 \<Rightarrow> multi_state \<Rightarrow> bool \<times> multi_state"
where
  "multi_cas t current next hs =
     (let (h, s) = t_park t hs in
      case Sequence_compareAndSwap (cursor s) current next h of
        (True, h1) \<Rightarrow> (True, h1, multi_prepare (i64 (current + 1)) next s)
      | (False, h1) \<Rightarrow> (False, h1, s))"

fun multi_Next_loop ::
  "multi_state turn list \<Rightarrow> int64 \<Rightarrow> multi_state \<Rightarrow>
   ((error + int64) \<times> multi_state turn list \<times> multi_state) option"
where
  "multi_Next_loop [] count hs = None"
| "multi_Next_loop (t # ts) count hs =
     (let (h, s) = t_pre t hs in
      if sealed s then Some (Inl ErrClosed, ts, h, s)
      else let current = Sequence_Load (cursor s) h;
               next = i64 (current + count);
               wrapPoint = i64 (next - bufferSize s);
               cached = gateCache s in
        if wrapPoint > cached \<or> cached > current then
          (let prepared = producerWaiter_prepare (producerWait s) h;
               (h1, s1) = t_mid t (h, s);
               minimum = base_minimumGate current h1 s1 in
           if wrapPoint > minimum then
             (case producerWaiter_wait (producerWait s1) t prepared (closedCh s1) (h1, s1) of
                None \<Rightarrow> None
              | Some (Some err, h2, s2) \<Rightarrow> Some (Inl err, ts, h2, s2)
              | Some (None, h2, s2) \<Rightarrow> multi_Next_loop ts count (h2, s2))
           else
             (case multi_cas t current next (h1, s1\<lparr>gateCache := minimum\<rparr>) of
                (True, h2, s2) \<Rightarrow> Some (Inr next, ts, h2, s2)
              | (False, h2, s2) \<Rightarrow> multi_Next_loop ts count (h2, s2)))
        else
          (case multi_cas t current next (t_mid t (h, s)) of
             (True, h2, s2) \<Rightarrow> Some (Inr next, ts, h2, s2)
           | (False, h2, s2) \<Rightarrow> multi_Next_loop ts count (h2, s2)))"

definition multi_Next ::
  "multi_state turn list \<Rightarrow> int64 \<Rightarrow> multi_state \<Rightarrow>
   ((error + int64) \<times> multi_state turn list \<times> multi_state) option"
where
  "multi_Next ts count hs =
     (if count < 1 \<or> count > bufferSize (snd hs) then Some (Inl ErrInvalidClaimSize, ts, hs)
      else multi_Next_loop ts count hs)"

fun multi_TryNext_loop ::
  "multi_state turn list \<Rightarrow> int64 \<Rightarrow> multi_state \<Rightarrow>
   ((error + int64) \<times> multi_state turn list \<times> multi_state) option"
where
  "multi_TryNext_loop [] count hs = None"
| "multi_TryNext_loop (t # ts) count hs =
     (let (h, s) = t_pre t hs in
      if sealed s then Some (Inl ErrClosed, ts, h, s)
      else let current = Sequence_Load (cursor s) h;
               next = i64 (current + count);
               wrapPoint = i64 (next - bufferSize s);
               cached = gateCache s in
        if wrapPoint > cached \<or> cached > current then
          (let (h1, s1) = t_mid t (h, s);
               minimum = base_minimumGate current h1 s1;
               s2 = s1\<lparr>gateCache := minimum\<rparr> in
           if wrapPoint > minimum then Some (Inl ErrInsufficientCapacity, ts, h1, s2)
           else
             (case multi_cas t current next (h1, s2) of
                (True, h3, s3) \<Rightarrow> Some (Inr next, ts, h3, s3)
              | (False, h3, s3) \<Rightarrow> multi_TryNext_loop ts count (h3, s3)))
        else
          (case multi_cas t current next (t_mid t (h, s)) of
             (True, h3, s3) \<Rightarrow> Some (Inr next, ts, h3, s3)
           | (False, h3, s3) \<Rightarrow> multi_TryNext_loop ts count (h3, s3)))"

definition multi_TryNext ::
  "multi_state turn list \<Rightarrow> int64 \<Rightarrow> multi_state \<Rightarrow>
   ((error + int64) \<times> multi_state turn list \<times> multi_state) option"
where
  "multi_TryNext ts count hs =
     (if count < 1 \<or> count > bufferSize (snd hs) then Some (Inl ErrInvalidClaimSize, ts, hs)
      else multi_TryNext_loop ts count hs)"

definition multi_Publish :: "int64 \<Rightarrow> int64 \<Rightarrow> multi_state \<Rightarrow> multi_state" where
  "multi_Publish low high hs =
     (let (h, s) = hs; s1 = multi_resolve low high publicationPublished s
      in (WaitStrategy_signalAll (wait_with s1) h, s1))"

definition multi_Discard :: "int64 \<Rightarrow> int64 \<Rightarrow> multi_state \<Rightarrow> multi_state" where
  "multi_Discard low high hs =
     (let (h, s) = hs; s1 = multi_resolve low high publicationDiscarded s
      in (WaitStrategy_signalAll (wait_with s1) h, s1))"

definition multi_IsAvailable :: "int64 \<Rightarrow> multi_state \<Rightarrow> bool" where
  "multi_IsAvailable sequence hs \<longleftrightarrow> multi_resolution sequence (snd hs) \<noteq> publicationUnresolved"

definition multi_IsDiscarded :: "int64 \<Rightarrow> multi_state \<Rightarrow> bool" where
  "multi_IsDiscarded sequence hs \<longleftrightarrow> multi_resolution sequence (snd hs) = publicationDiscarded"

function highest_loop :: "int64 \<Rightarrow> int64 \<Rightarrow> multiProducerSequencer \<Rightarrow> int64" where
  "highest_loop sequence avail s =
     (if multi_resolution sequence s = publicationUnresolved then i64 (sequence - 1)
      else if sequence \<ge> avail then avail
      else highest_loop (sequence + 1) avail s)"
  by pat_completeness auto
termination
  by (relation "measure (\<lambda>(sequence, avail, s). nat (avail - sequence))") auto

declare highest_loop.simps [simp del]

definition multi_HighestPublished :: "int64 \<Rightarrow> int64 \<Rightarrow> multi_state \<Rightarrow> int64" where
  "multi_HighestPublished lower avail hs =
     (if lower > avail then avail else highest_loop lower avail (snd hs))"

definition multi_RemainingCapacity :: "multi_state \<Rightarrow> int64" where
  "multi_RemainingCapacity hs =
     (let (h, s) = hs; produced = Sequence_Load (cursor s) h;
          consumed = base_minimumGate produced h s
      in i64 (bufferSize s - i64 (produced - consumed)))"

definition multi_NewBarrier :: "addr list \<Rightarrow> multi_state \<Rightarrow> SequenceBarrier \<times> multi_state" where
  "multi_NewBarrier dependencies hs =
     (let (barrier, h1) = base_NewBarrier dependencies hs in (barrier, h1, snd hs))"

definition multi_Shutdown ::
  "multi_state turn list \<Rightarrow> multi_state \<Rightarrow>
   (error option \<times> multi_state turn list \<times> multi_state) option"
where
  "multi_Shutdown ts hs =
     (case base_beginShutdown hs of
        (Some err, hs1) \<Rightarrow> Some (Some err, ts, hs1)
      | (None, hs1) \<Rightarrow> base_awaitShutdown ts (Sequence_Load (cursor (snd hs1)) (fst hs1)) hs1)"

section \<open>The invariant\<close>

definition multi_slowest :: "multi_state \<Rightarrow> int64" where
  "multi_slowest hs = base_minimumGate (Sequence_Load (cursor (snd hs)) (fst hs)) (fst hs) (snd hs)"

definition multi_claimed :: "multi_state \<Rightarrow> int64" where
  "multi_claimed hs = Sequence_Load (cursor (snd hs)) (fst hs)"

text \<open>The constant parts of the state: a power-of-two table with its mask and its shift.\<close>

definition multi_shape :: "multiProducerSequencer \<Rightarrow> bool" where
  "multi_shape s \<longleftrightarrow>
     ring_size (bufferSize s) \<and> length (available s) = nat (bufferSize s) \<and>
     indexMask s = u64 (i64 (bufferSize s - 1)) \<and> indexShift s = TrailingZeros64 (bufferSize s)"

definition multi_ok :: "multi_state \<Rightarrow> bool" where
  "multi_ok hs \<longleftrightarrow>
     (let (h, s) = hs in
      multi_shape s \<and> cursor s \<notin> set (gating s) \<and>
      -1 \<le> Sequence_Load (cursor s) h \<and> Sequence_Load (cursor s) h < 2 ^ 63 \<and>
      (\<forall>g \<in> set (gating s).
         -1 \<le> Sequence_Load g h \<and> Sequence_Load g h \<le> Sequence_Load (cursor s) h \<and>
         Sequence_Load (cursor s) h - bufferSize s \<le> Sequence_Load g h \<and>
         gateCache s \<le> Sequence_Load g h) \<and>
      -1 \<le> gateCache s \<and> gateCache s \<le> Sequence_Load (cursor s) h)"

lemma multi_index_slot: "multi_shape s \<Longrightarrow> multi_index s q = slot (bufferSize s) q"
  by (simp add: multi_shape_def multi_index_def mask_slot)

lemma multi_flag_lap:
  assumes "multi_shape s" "0 \<le> q" "q < 2 ^ 63" shows "multi_flag s q = q div bufferSize s"
proof -
  from assms(1) have "ring_size (bufferSize s)" by (simp add: multi_shape_def)
  then obtain k where "bufferSize s = 2 ^ k" by (rule ring_sizeE)
  with assms show ?thesis by (simp add: multi_shape_def multi_flag_def TrailingZeros64_exp shift_lap)
qed

text \<open>The table after a \<open>prepare\<close> or a \<open>resolve\<close>, as one pass over the slots of the range.\<close>

definition prepare_slot :: "multiProducerSequencer \<Rightarrow> int64 \<Rightarrow> int64 \<Rightarrow> int64" where
  "prepare_slot s q old = publicationValue (multi_flag s q) publicationUnresolved"

definition resolve_slot :: "multiProducerSequencer \<Rightarrow> uint32 \<Rightarrow> int64 \<Rightarrow> int64 \<Rightarrow> int64" where
  "resolve_slot s r q old =
     (if old = publicationValue (multi_flag s q) publicationUnresolved
      then publicationValue (multi_flag s q) r else old)"

lemma multi_frame [simp]:
  "multi_flag (s\<lparr>available := a\<rparr>) = multi_flag s" "multi_index (s\<lparr>available := a\<rparr>) = multi_index s"
  "prepare_slot (s\<lparr>available := a\<rparr>) = prepare_slot s"
  "resolve_slot (s\<lparr>available := a\<rparr>) = resolve_slot s"
  by (auto simp: multi_flag_def multi_index_def prepare_slot_def resolve_slot_def fun_eq_iff)

lemma multi_shape_available [simp]:
  "length a = length (available s) \<Longrightarrow> multi_shape (s\<lparr>available := a\<rparr>) \<longleftrightarrow> multi_shape s"
  by (simp add: multi_shape_def)

lemma prepare_fold:
  "multi_shape s \<Longrightarrow> fold multi_prepare_one qs s =
     s\<lparr>available := visit_slots (bufferSize s) (prepare_slot s) qs (available s)\<rparr>"
proof (induction qs arbitrary: s)
  case (Cons q qs)
  let ?a = "(available s)[slot (bufferSize s) q := prepare_slot s q (available s ! slot (bufferSize s) q)]"
  have "multi_prepare_one q s = s\<lparr>available := ?a\<rparr>"
    using Cons.prems by (simp add: multi_prepare_one_def multi_index_slot prepare_slot_def)
  with Cons.IH [of "s\<lparr>available := ?a\<rparr>"] Cons.prems show ?case by simp
qed simp

lemma resolve_fold:
  "multi_shape s \<Longrightarrow> fold (multi_resolve_one r) qs s =
     s\<lparr>available := visit_slots (bufferSize s) (resolve_slot s r) qs (available s)\<rparr>"
proof (induction qs arbitrary: s)
  case (Cons q qs)
  let ?i = "slot (bufferSize s) q"
  let ?a = "(available s)[?i := resolve_slot s r q (available s ! ?i)]"
  have "multi_resolve_one r q s = s\<lparr>available := ?a\<rparr>"
    using Cons.prems by (simp add: multi_resolve_one_def multi_index_slot resolve_slot_def Let_def)
  with Cons.IH [of "s\<lparr>available := ?a\<rparr>"] Cons.prems show ?case by simp
qed simp

lemma multi_prepare_eq:
  "multi_shape s \<Longrightarrow> multi_prepare low high s =
     s\<lparr>available := visit_slots (bufferSize s) (prepare_slot s) [low..high] (available s)\<rparr>"
  by (auto simp: multi_prepare_def prepare_fold)

lemma multi_resolve_eq:
  "multi_shape s \<Longrightarrow> multi_resolve low high r s =
     s\<lparr>available := visit_slots (bufferSize s) (resolve_slot s r) [low..high] (available s)\<rparr>"
  by (auto simp: multi_resolve_def resolve_fold)

section \<open>Claims without contention\<close>

lemma multi_slowest_bounds:
  assumes "multi_ok (h, s)"
  shows "-1 \<le> multi_slowest (h, s)" "multi_slowest (h, s) \<le> Sequence_Load (cursor s) h"
    "Sequence_Load (cursor s) h - bufferSize s \<le> multi_slowest (h, s)"
    "gateCache s \<le> multi_slowest (h, s)"
proof -
  have pos: "0 < bufferSize s" using assms by (simp add: multi_ok_def multi_shape_def ring_size_pos)
  show "-1 \<le> multi_slowest (h, s)" "Sequence_Load (cursor s) h - bufferSize s \<le> multi_slowest (h, s)"
    "gateCache s \<le> multi_slowest (h, s)"
    using assms pos
    by (auto simp: multi_ok_def multi_slowest_def base_minimumGate_def minimumSequence_ge_iff)
  show "multi_slowest (h, s) \<le> Sequence_Load (cursor s) h"
    using assms by (cases "gating s = []")
      (auto simp: multi_ok_def multi_slowest_def base_minimumGate_def
        intro!: order_trans [OF minimumSequence_le [of "hd (gating s)"]])
qed

lemma multi_wrap_free:
  assumes "multi_ok (h, s)" "1 \<le> n" "n \<le> bufferSize s" "Sequence_Load (cursor s) h + n < 2 ^ 63"
  shows "i64 (Sequence_Load (cursor s) h + n) = Sequence_Load (cursor s) h + n"
    "i64 (Sequence_Load (cursor s) h + n - bufferSize s) = Sequence_Load (cursor s) h + n - bufferSize s"
    "i64 (Sequence_Load (cursor s) h + 1) = Sequence_Load (cursor s) h + 1"
  using assms by (auto simp: multi_ok_def multi_shape_def ring_size_def intro!: i64_id)

text \<open>A producer that runs alone wins its first compare-and-swap.\<close>

definition multi_TryNext_alone :: "int64 \<Rightarrow> multi_state \<Rightarrow> (error + int64) \<times> multi_state" where
  "multi_TryNext_alone n hs =
     (case multi_TryNext [quiet] n hs of
        Some (r, ts, hs') \<Rightarrow> (r, hs')
      | None \<Rightarrow> (Inl ErrClosed, hs))"

definition multi_claim :: "int64 \<Rightarrow> int64 \<Rightarrow> multi_state \<Rightarrow> multi_state" where
  "multi_claim c n hs =
     (let (h, s) = hs; claimed = Sequence_Load (cursor s) h in
      (Sequence_store (cursor s) (claimed + n) h,
       multi_prepare (claimed + 1) (claimed + n) (s\<lparr>gateCache := c\<rparr>)))"

lemma multi_TryNext_decides:
  assumes ok: "multi_ok (h, s)" and open_: "\<not> sealed s"
    and n: "1 \<le> n" "n \<le> bufferSize s" "Sequence_Load (cursor s) h + n < 2 ^ 63"
  shows "\<exists>c. -1 \<le> c \<and> c \<le> multi_slowest (h, s) \<and>
    multi_TryNext [quiet] n (h, s) = Some
      (if Sequence_Load (cursor s) h + n - bufferSize s \<le> multi_slowest (h, s)
       then (Inr (Sequence_Load (cursor s) h + n), [], multi_claim c n (h, s))
       else (Inl ErrInsufficientCapacity, [], h, s\<lparr>gateCache := c\<rparr>))"
proof -
  note wf = multi_wrap_free [OF ok n]
  note b = multi_slowest_bounds [OF ok]
  let ?m = "multi_slowest (h, s)"
  let ?c = "Sequence_Load (cursor s) h"
  have range: "-1 \<le> gateCache s" "gateCache s \<le> ?c" using ok by (auto simp: multi_ok_def)
  have unf: "multi_TryNext [quiet] n (h, s) = Some
      (if ?c + n - bufferSize s > gateCache s then
         (if ?c + n - bufferSize s > ?m
          then (Inl ErrInsufficientCapacity, [], h, s\<lparr>gateCache := ?m\<rparr>)
          else (Inr (?c + n), [], multi_claim ?m n (h, s)))
       else (Inr (?c + n), [], multi_claim (gateCache s) n (h, s)))"
    using open_ n range
    by (simp add: multi_TryNext_def wf multi_slowest_def Let_def multi_cas_def multi_claim_def
        Sequence_compareAndSwap_def)
  show ?thesis
  proof (cases "?c + n - bufferSize s > gateCache s")
    case True
    then show ?thesis using unf b by (intro exI [of _ ?m]) auto
  next
    case False
    then show ?thesis using unf b range by (intro exI [of _ "gateCache s"]) auto
  qed
qed

lemma multi_prepare_fields [simp]:
  assumes "multi_shape s"
  shows "bufferSize (multi_prepare l u s) = bufferSize s" "gating (multi_prepare l u s) = gating s"
    "cursor (multi_prepare l u s) = cursor s" "sealed (multi_prepare l u s) = sealed s"
    "gateCache (multi_prepare l u s) = gateCache s" "multi_shape (multi_prepare l u s)"
  using assms by (simp_all add: multi_prepare_eq)

lemma multi_shape_cache [simp]: "multi_shape (s\<lparr>gateCache := c\<rparr>) \<longleftrightarrow> multi_shape s"
  by (simp add: multi_shape_def)

lemma multi_slowest_le: "g \<in> set (gating s) \<Longrightarrow> multi_slowest (h, s) \<le> Sequence_Load g h"
  by (simp add: multi_slowest_def base_minimumGate_def minimumSequence_le)

lemma multi_ok_cache:
  assumes "multi_ok (h, s)" "-1 \<le> c" "c \<le> multi_slowest (h, s)"
  shows "multi_ok (h, s\<lparr>gateCache := c\<rparr>)"
  using assms multi_slowest_bounds [OF assms(1)] multi_slowest_le [of _ s h]
  by (fastforce simp: multi_ok_def Let_def)

lemma multi_ok_claim:
  assumes ok: "multi_ok (h, s)" and n: "1 \<le> n" "Sequence_Load (cursor s) h + n < 2 ^ 63"
    and c: "-1 \<le> c" "c \<le> multi_slowest (h, s)"
    and room: "Sequence_Load (cursor s) h + n - bufferSize s \<le> multi_slowest (h, s)"
  shows "multi_ok (multi_claim c n (h, s))"
proof -
  have shape: "multi_shape (s\<lparr>gateCache := c\<rparr>)" using ok by (simp add: multi_ok_def)
  have cur: "g \<noteq> cursor s" if "g \<in> set (gating s)" for g using ok that by (auto simp: multi_ok_def)
  have "multi_ok (h, s\<lparr>gateCache := c\<rparr>)" using ok c by (rule multi_ok_cache)
  then show ?thesis
    using n room shape cur multi_slowest_le [of _ s h]
    by (fastforce simp: multi_ok_def multi_claim_def Let_def heap_simps)
qed

interpretation multi: claim_protocol multi_TryNext_alone multi_claimed multi_slowest
  "\<lambda>hs. bufferSize (snd hs)" "\<lambda>hs. gating (snd hs) \<noteq> []" "\<lambda>hs. sealed (snd hs)" multi_ok
proof (unfold_locales, goal_cases)
  case (1 hs)
  then show ?case
    using multi_slowest_bounds [of "fst hs" "snd hs"]
    by (auto simp: multi_ok_def multi_claimed_def multi_shape_def ring_size_pos)
next
  case (2 hs n)
  then show ?case
    by (cases hs) (auto simp: multi_TryNext_alone_def multi_TryNext_def)
next
  case (3 hs n r hs')
  obtain h s where hs: "hs = (h, s)" by (cases hs)
  let ?c = "Sequence_Load (cursor s) h"
  have ok: "multi_ok (h, s)" and pre: "\<not> sealed s" "1 \<le> n" "n \<le> bufferSize s" "?c + n < 2 ^ 63"
    using 3 hs by (auto simp: multi_claimed_def)
  from multi_TryNext_decides [OF ok pre] obtain c where c: "-1 \<le> c" "c \<le> multi_slowest (h, s)"
    and eq: "multi_TryNext [quiet] n (h, s) = Some
      (if ?c + n - bufferSize s \<le> multi_slowest (h, s)
       then (Inr (?c + n), [], multi_claim c n (h, s))
       else (Inl ErrInsufficientCapacity, [], h, s\<lparr>gateCache := c\<rparr>))" by blast
  have shape: "multi_shape (s\<lparr>gateCache := c\<rparr>)" "cursor s \<notin> set (gating s)"
    using ok by (simp_all add: multi_ok_def)
  have slow: "multi_slowest (h, s\<lparr>gateCache := c\<rparr>) = multi_slowest (h, s)"
    by (simp add: multi_slowest_def base_minimumGate_def)
  have slow2: "multi_slowest (multi_claim c n (h, s)) = multi_slowest (h, s)" if ne: "gating s \<noteq> []"
  proof -
    have "minimumSequence (gating s) a (Sequence_store (cursor s) v h) = minimumSequence (gating s) a h"
      for a v using shape(2) by (intro minimumSequence_cong) (auto simp: heap_simps)
    moreover have "minimumSequence (gating s) a h = minimumSequence (gating s) b h" for a b
      using ne by (cases "gating s") auto
    ultimately show ?thesis using shape
      by (simp add: multi_slowest_def multi_claim_def base_minimumGate_def Let_def)
  qed
  have fields: "multi_claimed (multi_claim c n (h, s)) = ?c + n"
    "bufferSize (snd (multi_claim c n (h, s))) = bufferSize s"
    "sealed (snd (multi_claim c n (h, s))) = sealed s" "gating (snd (multi_claim c n (h, s))) = gating s"
    using shape by (simp_all add: multi_claim_def multi_claimed_def Let_def heap_simps)
  show ?case
    using 3(6) hs eq slow slow2 fields multi_ok_cache [OF ok c] multi_ok_claim [OF ok pre(2,4) c]
    by (auto simp: claim_spec_def multi_TryNext_alone_def multi_claimed_def split: if_splits)
qed

section \<open>Resolving claims\<close>

definition multi_status :: "int64 \<Rightarrow> multi_state \<Rightarrow> status" where
  "multi_status q hs = status_of (multi_IsAvailable q hs) (multi_IsDiscarded q hs)"

text \<open>The word in the slot of a sequence.\<close>

definition word_of :: "multiProducerSequencer \<Rightarrow> int64 \<Rightarrow> int64" where
  "word_of s q = available s ! slot (bufferSize s) q"

definition multi_live :: "int64 \<Rightarrow> multi_state \<Rightarrow> bool" where
  "multi_live q hs \<longleftrightarrow>
     (let (h, s) = hs in 0 \<le> q \<and> Sequence_Load (cursor s) h - bufferSize s < q \<and>
      q \<le> Sequence_Load (cursor s) h)"

definition multi_pending :: "int64 \<Rightarrow> int64 \<Rightarrow> multi_state \<Rightarrow> bool" where
  "multi_pending low high hs \<longleftrightarrow>
     (low \<le> high \<and> multi_live low hs \<and> multi_live high hs \<and>
      (\<forall>q \<in> {low..high}. word_of (snd hs) q =
         publicationValue (multi_flag (snd hs) q) publicationUnresolved))"

definition multi_readable :: "int64 \<Rightarrow> int64 \<Rightarrow> multi_state \<Rightarrow> bool" where
  "multi_readable lower avail hs \<longleftrightarrow> 0 \<le> lower \<and> avail < 2 ^ 63"

lemma resolutions_differ [simp]:
  "publicationUnresolved \<noteq> publicationPublished" "publicationUnresolved \<noteq> publicationDiscarded"
  "publicationPublished \<noteq> publicationDiscarded" "publicationPublished \<noteq> publicationUnresolved"
  "publicationDiscarded \<noteq> publicationUnresolved" "publicationDiscarded \<noteq> publicationPublished"
  "publicationUnresolved < 4" "publicationPublished < 4" "publicationDiscarded < 4"
  by (simp_all add: publication_defs)

lemma multi_status_word:
  assumes "multi_shape s"
  shows "multi_status q (h, s) =
    (if word_of s q = publicationValue (multi_flag s q) publicationPublished then Published
     else if word_of s q = publicationValue (multi_flag s q) publicationDiscarded then Discarded
     else Unresolved)"
  using assms resolutions_differ(1,2,3)
  by (simp add: multi_status_def status_of_def multi_IsAvailable_def multi_IsDiscarded_def
      multi_resolution_def multi_index_slot word_of_def Let_def)

lemma multi_word_status [simp]:
  assumes "multi_shape s"
  shows "word_of s q = publicationValue (multi_flag s q) publicationUnresolved \<Longrightarrow>
      multi_status q (h, s) = Unresolved"
    "word_of s q = publicationValue (multi_flag s q) publicationPublished \<Longrightarrow>
      multi_status q (h, s) = Published"
    "word_of s q = publicationValue (multi_flag s q) publicationDiscarded \<Longrightarrow>
      multi_status q (h, s) = Discarded"
  using assms by (simp_all add: multi_status_word publicationValue_state_eq_iff)

lemma word_of_resolve:
  assumes "multi_shape s" "multi_live low (h, s)" "multi_live high (h, s)" "multi_live q (h, s)"
  shows "word_of (multi_resolve low high r s) q =
    (if low \<le> q \<and> q \<le> high then resolve_slot s r q (word_of s q) else word_of s q)"
proof -
  have "0 < bufferSize s" "length (available s) = nat (bufferSize s)"
    using assms(1) by (simp_all add: multi_shape_def ring_size_pos)
  moreover have "high - low < bufferSize s" "\<bar>q - low\<bar> < bufferSize s" "\<bar>high - q\<bar> < bufferSize s"
    using assms(2-4) by (auto simp: multi_live_def)
  ultimately show ?thesis
    using assms(1) by (simp add: multi_resolve_eq word_of_def visit_range)
qed

lemma multi_resolve_fields [simp]:
  assumes "multi_shape s"
  shows "bufferSize (multi_resolve l u r s) = bufferSize s" "gating (multi_resolve l u r s) = gating s"
    "cursor (multi_resolve l u r s) = cursor s" "sealed (multi_resolve l u r s) = sealed s"
    "gateCache (multi_resolve l u r s) = gateCache s" "multi_shape (multi_resolve l u r s)"
    "multi_flag (multi_resolve l u r s) = multi_flag s"
    "wait_with (multi_resolve l u r s) = wait_with s"
  using assms by (simp_all add: multi_resolve_eq)

text \<open>
  One law for \<open>Publish\<close> and \<open>Discard\<close> on any live range: a sequence that is still unresolved takes
  the new resolution and every other sequence keeps its own.
\<close>

lemma multi_resolve_status:
  assumes "multi_shape s" "multi_live low (h, s)" "multi_live high (h, s)" "multi_live q (h, s)"
    and "r = publicationPublished \<and> st = Published \<or> r = publicationDiscarded \<and> st = Discarded"
  shows "multi_status q (h', multi_resolve low high r s) =
    (if low \<le> q \<and> q \<le> high \<and> word_of s q = publicationValue (multi_flag s q) publicationUnresolved
     then st else multi_status q (h, s))"
proof (cases "low \<le> q \<and> q \<le> high \<and> word_of s q = publicationValue (multi_flag s q) publicationUnresolved")
  case True
  with word_of_resolve [OF assms(1-4), of r]
  have "word_of (multi_resolve low high r s) q = publicationValue (multi_flag s q) r"
    by (simp add: resolve_slot_def)
  with assms(1,5) True show ?thesis by auto
next
  case False
  with word_of_resolve [OF assms(1-4), of r]
  have "word_of (multi_resolve low high r s) q = word_of s q"
    by (auto simp: resolve_slot_def)
  with assms(1) False show ?thesis by (auto simp: multi_status_word)
qed

lemma multi_resolve_signal:
  "multi_Publish low high (h, s) =
     (WaitStrategy_signalAll (wait_with (multi_resolve low high publicationPublished s)) h,
      multi_resolve low high publicationPublished s)"
  "multi_Discard low high (h, s) =
     (WaitStrategy_signalAll (wait_with (multi_resolve low high publicationDiscarded s)) h,
      multi_resolve low high publicationDiscarded s)"
  by (simp_all add: multi_Publish_def multi_Discard_def Let_def)

lemma multi_ok_resolve:
  assumes "multi_ok (h, s)"
  shows "multi_ok (WaitStrategy_signalAll w h, multi_resolve low high r s)"
  using assms by (simp add: multi_ok_def heap_simps)

lemma multi_ok_Publish: "multi_ok hs \<Longrightarrow> multi_ok (multi_Publish low high hs)"
  by (cases hs) (simp add: multi_resolve_signal multi_ok_resolve)

lemma multi_ok_shape: "multi_ok hs \<Longrightarrow> multi_shape (snd hs)"
  by (cases hs) (simp add: multi_ok_def)

lemma multi_live_resolve:
  assumes "multi_ok (h, s)"
  shows "multi_live q (WaitStrategy_signalAll w h, multi_resolve low high r s) \<longleftrightarrow> multi_live q (h, s)"
  using assms by (simp add: multi_ok_def multi_live_def heap_simps)

lemma multi_pending_live:
  assumes "multi_pending low high (h, s)" "low \<le> q" "q \<le> high" shows "multi_live q (h, s)"
  using assms by (auto simp: multi_pending_def multi_live_def)

text \<open>The scan of \<open>HighestPublished\<close>.\<close>

lemma highest_loop_prefix:
  assumes "multi_shape s" "0 \<le> lower" "lower \<le> avail" "avail < 2 ^ 63"
  shows "lower - 1 \<le> highest_loop lower avail s \<and> highest_loop lower avail s \<le> avail \<and>
    (\<forall>q. lower \<le> q \<and> q \<le> highest_loop lower avail s \<longrightarrow> multi_status q (h, s) \<noteq> Unresolved) \<and>
    (highest_loop lower avail s < avail \<longrightarrow>
       multi_status (highest_loop lower avail s + 1) (h, s) = Unresolved)"
  using assms
proof (induction "nat (avail - lower)" arbitrary: lower)
  case 0
  then have [simp]: "lower = avail" by simp
  have "i64 (avail - 1) = avail - 1" using 0 by (intro i64_id) auto
  with 0 show ?case
    by (auto simp: highest_loop.simps [of avail] multi_status_def status_of_def
        multi_IsAvailable_def le_less)
next
  case (Suc k)
  have i: "i64 (lower - 1) = lower - 1" using Suc by (intro i64_id) auto
  have st: "multi_resolution lower s = publicationUnresolved \<longleftrightarrow> multi_status lower (h, s) = Unresolved"
    by (simp add: multi_status_def status_of_def multi_IsAvailable_def)
  show ?case
  proof (cases "multi_resolution lower s = publicationUnresolved")
    case True
    with st i show ?thesis using Suc.prems by (simp add: highest_loop.simps [of lower])
  next
    case False
    then have "highest_loop lower avail s = highest_loop (lower + 1) avail s"
      using Suc(2) by (subst highest_loop.simps) auto
    moreover have "multi_status lower (h, s) \<noteq> Unresolved" using False st by simp
    moreover have "k = nat (avail - (lower + 1))" "lower + 1 \<le> avail" using Suc(2) by auto
    moreover have "lower \<le> q \<longleftrightarrow> q = lower \<or> lower + 1 \<le> q" for q by auto
    ultimately show ?thesis using Suc.hyps(1) [of "lower + 1"] Suc.prems by auto
  qed
qed

interpretation multi_log: publication_log multi_Publish multi_Discard multi_status
  multi_HighestPublished multi_pending multi_live multi_readable multi_ok
proof (unfold_locales, goal_cases)
  case (1 hs low high q)
  obtain h s where hs: "hs = (h, s)" by (cases hs)
  with 1 multi_resolve_status [of s low h high q publicationPublished Published] show ?case
    by (auto simp: multi_resolve_signal multi_pending_def multi_ok_def)
next
  case (2 hs low high q)
  obtain h s where hs: "hs = (h, s)" by (cases hs)
  with 2 multi_resolve_status [of s low h high q publicationDiscarded Discarded] show ?case
    by (auto simp: multi_resolve_signal multi_pending_def multi_ok_def)
next
  case (3 hs low high)
  then show ?case
    by (cases hs) (simp add: multi_resolve_signal multi_ok_resolve multi_live_resolve)
next
  case (4 hs low high q)
  obtain h s where hs: "hs = (h, s)" by (cases hs)
  with 4 multi_pending_live [of low high h s q] show ?case
    by (auto simp: multi_pending_def multi_ok_def)
next
  case (5 hs lower avail)
  then show ?case
    using highest_loop_prefix [of "snd hs" lower avail "fst hs"]
    by (simp add: multi_HighestPublished_def multi_readable_def multi_ok_def split: prod.splits)
qed

text \<open>A granted claim leaves its range pending and the rest of the window as it was.\<close>

lemma multi_claim_word:
  assumes "multi_ok (h, s)" "1 \<le> n" "n \<le> bufferSize s"
    and "Sequence_Load (cursor s) h + n - bufferSize s < q" "q \<le> Sequence_Load (cursor s) h + n"
  shows "word_of (snd (multi_claim c n (h, s))) q =
    (if Sequence_Load (cursor s) h < q then publicationValue (multi_flag s q) publicationUnresolved
     else word_of s q)"
proof -
  have shape: "multi_shape (s\<lparr>gateCache := c\<rparr>)" "multi_shape s" using assms(1) by (simp_all add: multi_ok_def)
  have "0 < bufferSize s" "length (available s) = nat (bufferSize s)"
    using shape(2) by (simp_all add: multi_shape_def ring_size_pos)
  moreover have "prepare_slot (s\<lparr>gateCache := c\<rparr>) = prepare_slot s"
    by (auto simp: prepare_slot_def multi_flag_def fun_eq_iff)
  ultimately show ?thesis
    using assms(2-5) shape
    by (simp add: multi_claim_def Let_def multi_prepare_eq word_of_def visit_range prepare_slot_def)
qed

lemma multi_claim_pending:
  assumes "multi_ok (h, s)" "1 \<le> n" "n \<le> bufferSize s"
  shows "multi_pending (Sequence_Load (cursor s) h + 1) (Sequence_Load (cursor s) h + n)
    (multi_claim c n (h, s))"
proof -
  have shape: "multi_shape (s\<lparr>gateCache := c\<rparr>)" using assms(1) by (simp add: multi_ok_def)
  have fl: "multi_flag (snd (multi_claim c n (h, s))) = multi_flag s"
    using shape by (auto simp: multi_claim_def Let_def multi_prepare_eq multi_flag_def)
  have "multi_live q (multi_claim c n (h, s))"
    if "Sequence_Load (cursor s) h < q" "q \<le> Sequence_Load (cursor s) h + n" for q
    using that assms shape by (auto simp: multi_live_def multi_claim_def Let_def heap_simps multi_ok_def)
  with multi_claim_word [OF assms] assms fl show ?thesis
    by (auto simp: multi_pending_def)
qed

lemma multi_claim_status:
  assumes "multi_ok (h, s)" "1 \<le> n" "n \<le> bufferSize s" "0 \<le> q"
    and "Sequence_Load (cursor s) h + n - bufferSize s < q" "q \<le> Sequence_Load (cursor s) h"
  shows "multi_status q (multi_claim c n (h, s)) = multi_status q (h, s)"
proof -
  have shape: "multi_shape (s\<lparr>gateCache := c\<rparr>)" "multi_shape s" using assms(1) by (simp_all add: multi_ok_def)
  then have "multi_shape (snd (multi_claim c n (h, s)))" by (simp add: multi_claim_def Let_def)
  moreover have "multi_flag (snd (multi_claim c n (h, s))) = multi_flag s"
    using shape by (auto simp: multi_claim_def Let_def multi_prepare_eq multi_flag_def)
  moreover have "word_of (snd (multi_claim c n (h, s))) q = word_of s q"
    using multi_claim_word [OF assms(1-3), of q c] assms(2,5,6) by simp
  ultimately show ?thesis
    using multi_status_word [of "snd (multi_claim c n (h, s))" q "fst (multi_claim c n (h, s))"]
      multi_status_word [OF shape(2), of q h] by simp
qed

text \<open>
  Laps keep stale words apart. A slot that still holds a word of another lap never resolves a
  sequence, and a resolution that arrives for a sequence of another lap leaves the slot alone. The
  laps are those an \<open>int64\<close> sequence reaches on a ring of at least two slots, or the first \<open>2^62\<close>
  sequences of a one-slot ring.
\<close>

lemma lap_bound:
  assumes "ring_size n" "0 \<le> q" "q < 2 ^ 63" "2 \<le> n \<or> q < 2 ^ 62"
  shows "0 \<le> q div n \<and> q div n < 2 ^ 62"
proof -
  have "q div n \<le> q div 2" if "2 \<le> n" using zdiv_mono2 [of q 2 n] assms(2) that by simp
  moreover have "q div 2 < 2 ^ 62" using assms(3) by simp
  moreover have "q div n \<le> q" using zdiv_mono2 [of q 1 n] assms(1,2) by (simp add: ring_size_def)
  moreover have "0 \<le> q div n" using assms(1,2) by (simp add: ring_size_def pos_imp_zdiv_nonneg_iff)
  ultimately show ?thesis using assms(4) by force
qed

lemma other_lap_word:
  assumes "multi_shape s" "0 \<le> p" "p < 2 ^ 63" "0 \<le> q" "q < 2 ^ 63"
    and "2 \<le> bufferSize s \<or> p < 2 ^ 62 \<and> q < 2 ^ 62"
    and "p div bufferSize s \<noteq> q div bufferSize s" "a < 4" "b < 4"
  shows "publicationValue (multi_flag s p) a \<noteq> publicationValue (multi_flag s q) b"
proof -
  have rs: "ring_size (bufferSize s)" using assms(1) by (simp add: multi_shape_def)
  have "0 \<le> p div bufferSize s \<and> p div bufferSize s < 2 ^ 62"
    "0 \<le> q div bufferSize s \<and> q div bufferSize s < 2 ^ 62"
    using lap_bound [OF rs] assms(2-6) by auto
  with assms publicationValue_eq_iff show ?thesis by (simp add: multi_flag_lap)
qed

lemma multi_stale_unresolved:
  assumes "multi_shape s" "0 \<le> p" "p < 2 ^ 63" "0 \<le> q" "q < 2 ^ 63"
    and "2 \<le> bufferSize s \<or> p < 2 ^ 62 \<and> q < 2 ^ 62"
    and "p div bufferSize s \<noteq> q div bufferSize s"
    and "word_of s q = publicationValue (multi_flag s p) a" "a < 4"
  shows "multi_status q (h, s) = Unresolved"
  using other_lap_word [OF assms(1-7,9), of publicationPublished]
    other_lap_word [OF assms(1-7,9), of publicationDiscarded] assms(1,8)
  by (simp add: multi_status_word)

lemma multi_stale_resolve:
  assumes "multi_shape s" "0 \<le> p" "p < 2 ^ 63" "0 \<le> q" "q < 2 ^ 63"
    and "2 \<le> bufferSize s \<or> p < 2 ^ 62 \<and> q < 2 ^ 62"
    and "p div bufferSize s \<noteq> q div bufferSize s"
    and "word_of s p = publicationValue (multi_flag s q) a" "a < 4"
  shows "multi_resolve p p r s = s"
proof -
  have p2: "2 \<le> bufferSize s \<or> q < 2 ^ 62 \<and> p < 2 ^ 62" using assms(6) by auto
  have "word_of s p \<noteq> publicationValue (multi_flag s p) publicationUnresolved"
    unfolding assms(8) using other_lap_word [OF assms(1,4,5,2,3) p2] assms(7,9) by simp
  with assms(1) show ?thesis
    by (simp add: multi_resolve_eq resolve_slot_def word_of_def)
qed

section \<open>Construction, gates and capacity\<close>

lemma new_multi_ok:
  assumes "ring_size bsize" "newMultiProducerSequencer bsize wait mode h = (s, h')"
  shows "multi_ok (h', s)" "multi_claimed (h', s) = -1" "gating s = []" "\<not> sealed s" "bufferSize s = bsize"
proof -
  have eq: "bufferSize s = bsize" "gateCache s = -1" "gating s = []" "\<not> sealed s"
    "available s = replicate (nat bsize) (-1)" "Sequence_Load (cursor s) h' = -1"
    "indexMask s = u64 (i64 (bsize - 1))" "indexShift s = TrailingZeros64 bsize"
    using assms(2)
    by (auto simp: newMultiProducerSequencer_def newSequencerBase_def Let_def
        sequencerBase.defs InitialSequence_def NewSequence_def Sequence_Load_def
        newProducerWaiter_def make_chan_def new_flag_def split: prod.splits option.splits if_splits)
  then show "gating s = []" "\<not> sealed s" "bufferSize s = bsize" "multi_claimed (h', s) = -1"
    by (simp_all add: multi_claimed_def)
  show "multi_ok (h', s)" using assms(1) eq by (simp add: multi_ok_def multi_shape_def)
qed

lemma multi_ok_gate_store:
  assumes "multi_ok (h, s)" "g \<in> set (gating s)" "Sequence_Load g h \<le> v"
    "v \<le> Sequence_Load (cursor s) h"
  shows "multi_ok (Sequence_Store g v h, s)"
proof -
  have "g \<noteq> cursor s" using assms(1,2) by (auto simp: multi_ok_def)
  with assms show ?thesis by (fastforce simp: multi_ok_def heap_simps)
qed

lemma multi_ok_remove_gate:
  assumes "multi_ok (h, s)"
  shows "multi_ok (snd (base_RemoveGatingSequence target (h, s)))"
proof (cases "find_index target (gating s)")
  case None
  with assms show ?thesis by (simp add: base_RemoveGatingSequence_def)
next
  case (Some i)
  then show ?thesis
    using assms set_remove1_subset [of target "gating s"]
    by (auto simp: base_RemoveGatingSequence_def Let_def multi_ok_def heap_simps multi_shape_def
        find_index_remove1 subset_iff)
qed

text \<open>The multi-producer cursor is the claim position, so gates may be added at any time.\<close>

lemma multi_ok_add_gates:
  assumes "multi_ok (h, s)" "\<not> flags h (closed_flag s)" "Some (cursor s) \<notin> set ss"
  shows "multi_ok (base_AddGatingSequences ss (h, s))"
proof -
  let ?new = "List.map_filter (\<lambda>g. g) ss"
  let ?h = "snd (add_gates (producerWait s) (Sequence_Load (cursor s) h) ss (gating s) h)"
  have c: "cursor s \<notin> set ?new" using assms(3) by (simp add: in_map_filter_id)
  have "Sequence_Load (cursor s) ?h = Sequence_Load (cursor s) h"
    using assms(3) by (simp add: add_gates_Load)
  moreover have "Sequence_Load g ?h = (if g \<in> set ?new then Sequence_Load (cursor s) h else Sequence_Load g h)" for g
    by (simp add: add_gates_Load in_map_filter_id)
  moreover have "0 < bufferSize s" using assms(1) by (simp add: multi_ok_def multi_shape_def ring_size_pos)
  ultimately show ?thesis
    using assms c by (auto simp: AddGatingSequences_open multi_ok_def multi_shape_def)
qed

lemma multi_RemainingCapacity_eq:
  assumes "multi_ok (h, s)"
  shows "multi_RemainingCapacity (h, s) =
      bufferSize s - (Sequence_Load (cursor s) h - multi_slowest (h, s))"
    "0 \<le> multi_RemainingCapacity (h, s)" "multi_RemainingCapacity (h, s) \<le> bufferSize s"
proof -
  let ?c = "Sequence_Load (cursor s) h"
  note b = multi_slowest_bounds [OF assms]
  have r: "?c < 2 ^ 63" "bufferSize s < 2 ^ 63" "-1 \<le> ?c" "0 < bufferSize s"
    using assms by (auto simp: multi_ok_def multi_shape_def ring_size_def)
  have "i64 (?c - multi_slowest (h, s)) = ?c - multi_slowest (h, s)"
    using b r by (intro i64_id) auto
  moreover have "i64 (bufferSize s - (?c - multi_slowest (h, s))) = bufferSize s - (?c - multi_slowest (h, s))"
    using b r by (intro i64_id) auto
  ultimately show "multi_RemainingCapacity (h, s) = bufferSize s - (?c - multi_slowest (h, s))"
    by (simp add: multi_RemainingCapacity_def multi_slowest_def Let_def)
  with b show "0 \<le> multi_RemainingCapacity (h, s)" "multi_RemainingCapacity (h, s) \<le> bufferSize s"
    by simp_all
qed

section \<open>Properties\<close>

text \<open>A fresh ring of four slots and the same ring with three claimed sequences.\<close>

definition fresh_multi :: multi_state where
  "fresh_multi =
     (let (s, h) = newMultiProducerSequencer 4 (Some YieldingWait) ProducerWaitYielding empty_heap
      in (h, s))"

definition claimed_multi :: multi_state where
  "claimed_multi = snd (multi_TryNext_alone 3 fresh_multi)"

lemma fresh_multi_ok:
  "multi_ok fresh_multi" "multi_claimed fresh_multi = -1" "\<not> sealed (snd fresh_multi)"
  "bufferSize (snd fresh_multi) = 4" "gating (snd fresh_multi) = []"
proof -
  obtain s h where n: "newMultiProducerSequencer 4 (Some YieldingWait) ProducerWaitYielding empty_heap = (s, h)"
    by fastforce
  have "ring_size 4" using ring_size_exp [of 2] by simp
  note ok = new_multi_ok [OF this n]
  have f: "fresh_multi = (h, s)" using n by (simp add: fresh_multi_def)
  show "multi_ok fresh_multi" "multi_claimed fresh_multi = -1" "\<not> sealed (snd fresh_multi)"
    "bufferSize (snd fresh_multi) = 4" "gating (snd fresh_multi) = []"
    using ok by (simp_all add: f)
qed

lemma fresh_multi_slowest: "multi_slowest fresh_multi = -1"
  by code_simp

lemma claimed_multi_ok: "multi_ok claimed_multi"
  using multi.decides [OF fresh_multi_ok(1,3), of 3 "fst (multi_TryNext_alone 3 fresh_multi)" claimed_multi]
    fresh_multi_ok by (simp add: claimed_multi_def)

lemma claimed_multi_pending: "multi_pending 0 1 claimed_multi"
proof -
  have "\<forall>q \<in> set [0, 1]. word_of (snd claimed_multi) q =
      publicationValue (multi_flag (snd claimed_multi) q) publicationUnresolved"
    "multi_live 0 claimed_multi" "multi_live 1 claimed_multi" by code_simp+
  moreover have "{0..1} = {0, 1 :: int}" by auto
  ultimately show ?thesis by (simp add: multi_pending_def)
qed

text \<open>
  C13. The multi-producer claim of a producer that runs alone decides exactly as the reference that
  looks at the slowest gate every time, and it keeps the claim window.
\<close>

theorem multi_TryNext_refines:
  assumes "multi_ok hs" "\<not> sealed (snd hs)" "1 \<le> n" "n \<le> bufferSize (snd hs)"
    and "multi_claimed hs + n < 2 ^ 63" "multi_TryNext [quiet] n hs = Some (r, ts, hs')"
  shows "r = claim_spec (bufferSize (snd hs)) (multi_slowest hs) (multi_claimed hs) n \<and> multi_ok hs' \<and>
    multi_claimed hs' = (case r of Inl err \<Rightarrow> multi_claimed hs | Inr high \<Rightarrow> high)"
proof -
  have "multi_TryNext_alone n hs = (r, hs')" using assms(6) by (simp add: multi_TryNext_alone_def)
  from multi.decides [OF assms(1-5) this] show ?thesis by simp
qed

theorem multi_TryNext_refines_witness:
  "\<exists>ts hs'. multi_TryNext [quiet] 3 fresh_multi = Some (Inr 2, ts, hs') \<and> multi_ok hs'"
proof -
  have "\<exists>r ts hs'. multi_TryNext [quiet] 3 fresh_multi = Some (r, ts, hs')"
    using multi_TryNext_decides [of "fst fresh_multi" "snd fresh_multi" 3] fresh_multi_ok
    by (auto simp: multi_claimed_def split: if_splits)
  then obtain r ts hs' where t: "multi_TryNext [quiet] 3 fresh_multi = Some (r, ts, hs')" by blast
  from multi_TryNext_refines [OF fresh_multi_ok(1,3) _ _ _ t] fresh_multi_ok fresh_multi_slowest t show ?thesis
    by (simp add: claim_spec_def)
qed

text \<open>
  A run of claims on the multi-producer ring grants consecutive ranges, without a gap and
  without an overlap, and keeps the claim window.
\<close>

theorem multi_claims_consecutive:
  assumes "multi_ok hs" "multi_claimed hs + bufferSize (snd hs) * int (length ns) < 2 ^ 63"
    and "claim_run multi_TryNext_alone ns hs = (rs, hs')"
  shows "range_sequences rs = [multi_claimed hs + 1..multi_claimed hs'] \<and> multi_ok hs' \<and>
    multi_claimed hs' - bufferSize (snd hs') \<le> multi_slowest hs'"
  using multi.claim_run_consecutive [OF assms] multi.window by blast

theorem multi_claims_consecutive_witness:
  "range_sequences (fst (claim_run multi_TryNext_alone [2, 9, 1] fresh_multi)) =
     [0..multi_claimed (snd (claim_run multi_TryNext_alone [2, 9, 1] fresh_multi))]"
  using multi_claims_consecutive [OF fresh_multi_ok(1), of "[2, 9, 1]"
      "fst (claim_run multi_TryNext_alone [2, 9, 1] fresh_multi)"
      "snd (claim_run multi_TryNext_alone [2, 9, 1] fresh_multi)"] fresh_multi_ok
  by simp

text \<open>
  C14. The first terminal resolution wins: publishing or discarding a range resolves exactly its
  unresolved sequences, and a sequence that is already published or discarded keeps its status
  whatever is resolved afterwards.
\<close>

theorem multi_first_resolution_wins:
  assumes "multi_ok hs" "multi_live low hs" "multi_live high hs" "multi_live q hs"
    and "multi_status q hs \<noteq> Unresolved \<or> multi_pending q q hs"
  shows "multi_status q (multi_Publish low high hs) =
      (if low \<le> q \<and> q \<le> high \<and> multi_status q hs = Unresolved then Published else multi_status q hs) \<and>
    multi_status q (multi_Discard low high hs) =
      (if low \<le> q \<and> q \<le> high \<and> multi_status q hs = Unresolved then Discarded else multi_status q hs)"
proof -
  obtain h s where hs: "hs = (h, s)" by (cases hs)
  have shape: "multi_shape s" using assms(1) by (simp add: hs multi_ok_def)
  have w: "word_of s q = publicationValue (multi_flag s q) publicationUnresolved \<longleftrightarrow> multi_status q (h, s) = Unresolved"
  proof
    assume "word_of s q = publicationValue (multi_flag s q) publicationUnresolved"
    with shape show "multi_status q (h, s) = Unresolved" by (rule multi_word_status(1))
  next
    assume "multi_status q (h, s) = Unresolved"
    with assms(5) have "multi_pending q q (h, s)" by (simp add: hs)
    then show "word_of s q = publicationValue (multi_flag s q) publicationUnresolved"
      by (simp add: multi_pending_def)
  qed
  show ?thesis
    using multi_resolve_status [OF shape, of low h high q publicationPublished Published]
      multi_resolve_status [OF shape, of low h high q publicationDiscarded Discarded] assms(2-4) w
    by (simp add: hs multi_resolve_signal)
qed

theorem multi_first_resolution_wins_witness:
  "multi_status 1 (multi_Discard 0 2 (multi_Publish 1 1 claimed_multi)) = Published"
proof -
  have "multi_live 0 (multi_Publish 1 1 claimed_multi)" "multi_live 1 (multi_Publish 1 1 claimed_multi)"
    "multi_live 2 (multi_Publish 1 1 claimed_multi)" "multi_status 1 (multi_Publish 1 1 claimed_multi) = Published"
    by code_simp+
  moreover have "multi_ok (multi_Publish 1 1 claimed_multi)"
    using claimed_multi_ok by (rule multi_ok_Publish)
  ultimately show ?thesis
    using multi_first_resolution_wins [of "multi_Publish 1 1 claimed_multi" 0 2 1] by simp
qed

text \<open>
  C16. \<open>HighestPublished\<close> returns the end of the longest run of resolved sequences that starts at
  \<open>lower\<close>: everything up to it is resolved, and the next sequence, if it is within reach, is not.
\<close>

theorem multi_HighestPublished_exact:
  assumes "multi_ok hs" "0 \<le> lower" "lower \<le> avail" "avail < 2 ^ 63"
  shows "lower - 1 \<le> multi_HighestPublished lower avail hs \<and> multi_HighestPublished lower avail hs \<le> avail \<and>
    (\<forall>q. lower \<le> q \<and> q \<le> multi_HighestPublished lower avail hs \<longrightarrow> multi_IsAvailable q hs) \<and>
    (multi_HighestPublished lower avail hs < avail \<longrightarrow>
       \<not> multi_IsAvailable (multi_HighestPublished lower avail hs + 1) hs)"
proof -
  have st: "multi_IsAvailable q hs \<longleftrightarrow> multi_status q hs \<noteq> Unresolved" for q
    by (simp add: multi_status_def status_of_def)
  have "multi_readable lower avail hs" using assms by (simp add: multi_readable_def)
  from multi_log.highest_prefix [OF assms(1) this assms(3)] show ?thesis by (simp add: st)
qed

theorem multi_HighestPublished_exact_witness:
  "multi_HighestPublished 0 2 (multi_Publish 0 0 claimed_multi) = 0 \<and>
   \<not> multi_IsAvailable 1 (multi_Publish 0 0 claimed_multi)"
proof -
  let ?hs = "multi_Publish 0 0 claimed_multi"
  have "multi_HighestPublished 0 2 ?hs = 0" by code_simp
  moreover have "multi_ok ?hs"
    using claimed_multi_ok by (rule multi_ok_Publish)
  ultimately show ?thesis using multi_HighestPublished_exact [of ?hs 0 2] by simp
qed

text \<open>
  C28. Laps keep reused slots apart: a word that another lap left in a slot never makes a sequence
  available, and a late resolution for a sequence of another lap changes nothing.
\<close>

theorem multi_laps_kept_apart:
  assumes "multi_shape s" "0 \<le> p" "p < 2 ^ 62" "0 \<le> q" "q < 2 ^ 62" "p div bufferSize s \<noteq> q div bufferSize s"
    and "available s ! multi_index s q = publicationValue (multi_flag s p) a" "a < 4"
  shows "\<not> multi_IsAvailable q (h, s) \<and> multi_resolve q q r s = s"
proof -
  have w: "word_of s q = publicationValue (multi_flag s p) a"
    using assms(1,7) by (simp add: word_of_def multi_index_slot)
  have "multi_status q (h, s) = Unresolved"
    using assms w by (intro multi_stale_unresolved [of s p q a]) auto
  moreover have "multi_resolve q q r s = s"
    using assms w by (intro multi_stale_resolve [of s q p a]) auto
  ultimately show ?thesis by (auto simp: multi_status_def status_of_def split: if_splits)
qed

theorem multi_laps_kept_apart_witness:
  "\<not> multi_IsAvailable 4 (multi_Publish 0 0 claimed_multi)"
proof -
  let ?s = "snd (multi_Publish 0 0 claimed_multi)"
  have "available ?s ! multi_index ?s 4 = publicationValue (multi_flag ?s 0) publicationPublished"
    "bufferSize ?s = 4" by code_simp+
  moreover have "multi_shape ?s"
    using claimed_multi_ok by (intro multi_ok_shape multi_ok_Publish)
  ultimately show ?thesis
    using multi_laps_kept_apart [of ?s 0 4 publicationPublished "fst (multi_Publish 0 0 claimed_multi)"] by simp
qed

text \<open>
  Gates may be added to a multi-producer ring at any time, also with claims in flight: they start
  at the claim position and the claim window holds afterwards.
\<close>

theorem multi_add_gates_anytime:
  assumes "multi_ok (h, s)" "Some (cursor s) \<notin> set ss"
  shows "multi_ok (base_AddGatingSequences ss (h, s)) \<and>
    (\<forall>g. Some g \<in> set ss \<and> \<not> flags h (closed_flag s) \<longrightarrow>
       Sequence_Load g (fst (base_AddGatingSequences ss (h, s))) = multi_claimed (h, s))"
proof (cases "flags h (closed_flag s)")
  case True
  then show ?thesis using assms by (simp add: base_AddGatingSequences_def)
next
  case False
  then show ?thesis using multi_ok_add_gates [OF assms(1) False assms(2)]
    by (simp add: AddGatingSequences_open add_gates_Load multi_claimed_def)
qed

theorem multi_add_gates_anytime_witness:
  "multi_ok (base_AddGatingSequences [Some 77] claimed_multi)"
proof -
  have "cursor (snd claimed_multi) \<noteq> 77" by code_simp
  with multi_add_gates_anytime [of "fst claimed_multi" "snd claimed_multi" "[Some 77]"] claimed_multi_ok
  show ?thesis by simp
qed

end
