(* ===== verification/Sequencer.thy ===== *)
theory Sequencer
  imports Sequencer_Single Sequencer_Multi
begin

text \<open>
  The interfaces \<open>Sequencer\<close> and \<open>discardSequencer\<close> of \<open>sequencer.go\<close>. A Go interface value is a
  method table with a receiver; the record below is the method table, the receiver is the state its
  functions take, and the two sequencers fill one table each.
\<close>

type_synonym 'b turns = "(heap \<times> 'b) turn list"

record 'b Sequencer =
  seq_Next :: "'b turns \<Rightarrow> int64 \<Rightarrow> heap \<times> 'b \<Rightarrow> ((error + int64) \<times> 'b turns \<times> heap \<times> 'b) option"
  seq_TryNext :: "'b turns \<Rightarrow> int64 \<Rightarrow> heap \<times> 'b \<Rightarrow> ((error + int64) \<times> 'b turns \<times> heap \<times> 'b) option"
  seq_Publish :: "int64 \<Rightarrow> int64 \<Rightarrow> heap \<times> 'b \<Rightarrow> heap \<times> 'b"
  seq_Discard :: "int64 \<Rightarrow> int64 \<Rightarrow> heap \<times> 'b \<Rightarrow> heap \<times> 'b"
  seq_IsAvailable :: "int64 \<Rightarrow> heap \<times> 'b \<Rightarrow> bool"
  seq_IsDiscarded :: "int64 \<Rightarrow> heap \<times> 'b \<Rightarrow> bool"
  seq_HighestPublished :: "int64 \<Rightarrow> int64 \<Rightarrow> heap \<times> 'b \<Rightarrow> int64"
  seq_Cursor :: "'b \<Rightarrow> addr"
  seq_BufferSize :: "'b \<Rightarrow> int64"
  seq_RemainingCapacity :: "heap \<times> 'b \<Rightarrow> int64"
  seq_AddGatingSequences :: "addr option list \<Rightarrow> heap \<times> 'b \<Rightarrow> heap \<times> 'b"
  seq_RemoveGatingSequence :: "addr \<Rightarrow> heap \<times> 'b \<Rightarrow> bool \<times> heap \<times> 'b"
  seq_NewBarrier :: "addr list \<Rightarrow> heap \<times> 'b \<Rightarrow> SequenceBarrier \<times> heap \<times> 'b"
  seq_Close :: "heap \<times> 'b \<Rightarrow> heap \<times> 'b"
  seq_Shutdown :: "'b turns \<Rightarrow> heap \<times> 'b \<Rightarrow> (error option \<times> 'b turns \<times> heap \<times> 'b) option"

definition singleSequencer :: "singleProducerSequencer Sequencer" where
  "singleSequencer =
     \<lparr>seq_Next = single_Next,
      seq_TryNext = (\<lambda>ts count hs. let (r, hs') = single_TryNext count hs in Some (r, ts, hs')),
      seq_Publish = single_Publish, seq_Discard = single_Discard,
      seq_IsAvailable = single_IsAvailable, seq_IsDiscarded = single_IsDiscarded,
      seq_HighestPublished = single_HighestPublished,
      seq_Cursor = cursor, seq_BufferSize = bufferSize,
      seq_RemainingCapacity = single_RemainingCapacity,
      seq_AddGatingSequences = base_AddGatingSequences,
      seq_RemoveGatingSequence = base_RemoveGatingSequence,
      seq_NewBarrier = single_NewBarrier, seq_Close = base_Close, seq_Shutdown = single_Shutdown\<rparr>"

definition multiSequencer :: "multiProducerSequencer Sequencer" where
  "multiSequencer =
     \<lparr>seq_Next = multi_Next, seq_TryNext = multi_TryNext,
      seq_Publish = multi_Publish, seq_Discard = multi_Discard,
      seq_IsAvailable = multi_IsAvailable, seq_IsDiscarded = multi_IsDiscarded,
      seq_HighestPublished = multi_HighestPublished,
      seq_Cursor = cursor, seq_BufferSize = bufferSize,
      seq_RemainingCapacity = multi_RemainingCapacity,
      seq_AddGatingSequences = base_AddGatingSequences,
      seq_RemoveGatingSequence = base_RemoveGatingSequence,
      seq_NewBarrier = multi_NewBarrier, seq_Close = base_Close, seq_Shutdown = multi_Shutdown\<rparr>"

lemma singleSequencer_sel [simp]:
  "seq_Next singleSequencer = single_Next"
  "seq_TryNext singleSequencer ts n hs = Some (fst (single_TryNext n hs), ts, snd (single_TryNext n hs))"
  "seq_Publish singleSequencer = single_Publish" "seq_Discard singleSequencer = single_Discard"
  "seq_IsAvailable singleSequencer = single_IsAvailable"
  "seq_IsDiscarded singleSequencer = single_IsDiscarded"
  "seq_HighestPublished singleSequencer = single_HighestPublished"
  by (simp_all add: singleSequencer_def split_def Let_def)

lemma multiSequencer_sel [simp]:
  "seq_Next multiSequencer = multi_Next" "seq_TryNext multiSequencer = multi_TryNext"
  "seq_Publish multiSequencer = multi_Publish" "seq_Discard multiSequencer = multi_Discard"
  "seq_IsAvailable multiSequencer = multi_IsAvailable"
  "seq_IsDiscarded multiSequencer = multi_IsDiscarded"
  "seq_HighestPublished multiSequencer = multi_HighestPublished"
  by (simp_all add: multiSequencer_def)

text \<open>What a consumer learns from a method table about one sequence.\<close>

definition seq_status :: "'b Sequencer \<Rightarrow> int64 \<Rightarrow> heap \<times> 'b \<Rightarrow> status" where
  "seq_status m q hb = status_of (seq_IsAvailable m q hb) (seq_IsDiscarded m q hb)"

lemma seq_status_sel [simp]:
  "seq_status singleSequencer = single_status" "seq_status multiSequencer = multi_status"
  by (simp_all add: fun_eq_iff seq_status_def single_status_def multi_status_def)

section \<open>Closing and draining\<close>

text \<open>
  C23. \<open>Close\<close> stops every later claim of both sequencers, blocking or not, with \<open>ErrClosed\<close> (or with
  \<open>ErrInvalidClaimSize\<close> for a size that is never granted), and closing twice is closing once.
\<close>

theorem close_stops_claims:
  "single_TryNext n (base_Close hs) = (Inl ErrClosed, base_Close hs) \<and>
   single_Next ts n (base_Close hs) = Some (Inl ErrClosed, ts, base_Close hs) \<and>
   multi_TryNext (quiet # ts') n (base_Close hm) =
     Some (if n < 1 \<or> n > bufferSize (snd hm) then (Inl ErrInvalidClaimSize, quiet # ts', base_Close hm)
           else (Inl ErrClosed, ts', base_Close hm)) \<and>
   multi_Next (quiet # ts') n (base_Close hm) =
     Some (if n < 1 \<or> n > bufferSize (snd hm) then (Inl ErrInvalidClaimSize, quiet # ts', base_Close hm)
           else (Inl ErrClosed, ts', base_Close hm)) \<and>
   base_Close (base_Close hs) = base_Close hs"
proof -
  obtain h s where hs: "base_Close hs = (h, s)" by fastforce
  have s: "sealed s" "closeOnce s" using Close_base [of "fst hs" "snd hs"] hs by simp_all
  obtain h' s' where hm: "base_Close hm = (h', s')" by fastforce
  have s': "sealed s'" "bufferSize s' = bufferSize (snd hm)"
    using Close_base [of "fst hm" "snd hm"] hm by simp_all
  have idem: "base_Close (h, s) = (h, s)" using s by (simp add: base_Close_def)
  show ?thesis
    unfolding hs hm idem using s s'
    by (simp add: single_TryNext_def single_Next_def multi_TryNext_def multi_Next_def)
qed



text \<open>
  The same for the multi-producer sequencer, whose boundary is the claim cursor at the moment the
  drain begins.
\<close>

theorem multi_shutdown_drains:
  assumes "multi_Shutdown ts (h, s) = Some (res, ts', h', s')" "\<not> flags h (closed_flag s)" "\<not> sealed s"
  shows "sealed s' \<and> closeOnce s' \<and>
    (res = None \<longrightarrow> (\<forall>g \<in> set (gating s). multi_claimed (h, s) \<le> Sequence_Load g h'))"
proof -
  let ?h = "producerWaiter_signalAll (producerWait s) h"
  have "base_beginShutdown (h, s) = (None, ?h, s\<lparr>sealed := True\<rparr>)"
    using assms(2,3) by (simp add: base_beginShutdown_def)
  then have aw: "base_awaitShutdown ts (multi_claimed (h, s)) (?h, s\<lparr>sealed := True\<rparr>) = Some (res, ts', h', s')"
    using assms(1) by (simp add: multi_Shutdown_def multi_claimed_def heap_simps)
  have "multi_claimed (h, s) \<le> Sequence_Load g h'" if "res = None" "g \<in> set (gating s)" for g
    using awaitShutdown_drained [OF aw [unfolded that(1)], of g] that(2) by simp
  with awaitShutdown_closes [OF aw] show ?thesis by simp
qed

theorem multi_shutdown_drains_witness:
  "\<exists>h' s'. multi_Shutdown [quiet] claimed_multi = Some (None, [], h', s') \<and> sealed s'"
proof -
  obtain h s where f: "claimed_multi = (h, s)" by fastforce
  have "\<not> flags (fst claimed_multi) (closed_flag (snd claimed_multi))" "\<not> sealed (snd claimed_multi)"
    "gating (snd claimed_multi) = []" by code_simp+
  then have open_: "\<not> sealed s" "\<not> flags h (closed_flag s)" "gating s = []" by (simp_all add: f)
  then have "\<exists>h' s'. multi_Shutdown [quiet] (h, s) = Some (None, [], h', s')"
    by (simp add: multi_Shutdown_def base_beginShutdown_def awaitShutdown_no_gates)
  then obtain h' s' where "multi_Shutdown [quiet] (h, s) = Some (None, [], h', s')" by blast
  with multi_shutdown_drains [OF this open_(2,1)] show ?thesis by (auto simp: f)
qed

end
