(* ===== verification/Barrier.thy ===== *)
theory Barrier
  imports Sequencer
begin

text \<open>
  \<open>SequenceBarrier\<close> of \<open>barrier.go\<close>. The record is in \<open>Sequencer_Base\<close>, where barriers are created;
  the \<open>sequencer\<close> field is used for \<open>HighestPublished\<close> only, so that method is an argument of
  \<open>WaitFor\<close>.
\<close>

section \<open>Operations\<close>

definition barrier_state :: "SequenceBarrier \<Rightarrow> waitState" where
  "barrier_state b = \<lparr>ws_alerted = sb_alerted b, ws_closed = sb_closed b, ws_closedCh = sb_closedCh b\<rparr>"

definition SequenceBarrier_IsAlerted :: "SequenceBarrier \<Rightarrow> heap \<Rightarrow> bool" where
  "SequenceBarrier_IsAlerted b h = flags h (sb_alerted b)"

definition SequenceBarrier_WaitFor ::
  "(int64 \<Rightarrow> int64 \<Rightarrow> heap \<times> 'b \<Rightarrow> int64) \<Rightarrow> SequenceBarrier \<Rightarrow> 'b turns \<Rightarrow> int64 \<Rightarrow> heap \<times> 'b \<Rightarrow>
   'b wait_result"
where
  "SequenceBarrier_WaitFor highest b ts desired hb =
     (if flags (fst hb) (sb_alerted b) then Some (Inl ErrAlerted, ts, hb)
      else
        (case WaitStrategy_waitFor (sb_wait b) ts desired (SequenceReader (sb_cursor b))
                (sb_dependent b) (barrier_state b) hb of
           None \<Rightarrow> None
         | Some (Inl err, ts', hb') \<Rightarrow> Some (Inl err, ts', hb')
         | Some (Inr avail, ts', hb') \<Rightarrow>
             if avail < desired then Some (Inr avail, ts', hb')
             else Some (Inr (highest desired avail hb'), ts', hb')))"

definition SequenceBarrier_Cursor :: "SequenceBarrier \<Rightarrow> heap \<Rightarrow> int64" where
  "SequenceBarrier_Cursor b h = sequenceReader_Load (sb_dependent b) h"

definition SequenceBarrier_Alert :: "SequenceBarrier \<Rightarrow> heap \<Rightarrow> heap" where
  "SequenceBarrier_Alert b h = WaitStrategy_signalAll (sb_wait b) (flag_Store (sb_alerted b) True h)"

definition SequenceBarrier_ClearAlert :: "SequenceBarrier \<Rightarrow> heap \<Rightarrow> heap" where
  "SequenceBarrier_ClearAlert b h = flag_Store (sb_alerted b) False h"

section \<open>Waiting\<close>

lemma WaitFor_result:
  assumes "SequenceBarrier_WaitFor highest b ts desired hb = Some (Inr n, ts', h, x)"
  shows "desired \<le> sequenceReader_Load (sb_dependent b) h \<and>
    n = highest desired (sequenceReader_Load (sb_dependent b) h) (h, x)"
proof -
  from assms obtain avail where
    w: "WaitStrategy_waitFor (sb_wait b) ts desired (SequenceReader (sb_cursor b))
          (sb_dependent b) (barrier_state b) hb = Some (Inr avail, ts', h, x)"
    and n: "n = (if avail < desired then avail else highest desired avail (h, x))"
    by (auto simp: SequenceBarrier_WaitFor_def split: if_splits option.splits sum.splits)
  from strategy.reached [OF w] n show ?thesis by auto
qed

lemma WaitFor_error:
  assumes "SequenceBarrier_WaitFor highest b ts desired hb = Some (Inl err, ts', h, x)"
  shows "wait_cause ts (barrier_state b) h err"
proof (cases "flags (fst hb) (sb_alerted b)")
  case True
  with assms show ?thesis
    by (auto simp: SequenceBarrier_WaitFor_def wait_cause_def barrier_state_def)
next
  case False
  with assms have "WaitStrategy_waitFor (sb_wait b) ts desired (SequenceReader (sb_cursor b))
          (sb_dependent b) (barrier_state b) hb = Some (Inl err, ts', h, x)"
    by (auto simp: SequenceBarrier_WaitFor_def split: if_splits option.splits sum.splits)
  then show ?thesis by (rule strategy.failed)
qed

lemma Alert_alerted: "SequenceBarrier_IsAlerted b (SequenceBarrier_Alert b h)"
  by (simp add: SequenceBarrier_IsAlerted_def SequenceBarrier_Alert_def heap_simps)

lemma ClearAlert_alerted: "\<not> SequenceBarrier_IsAlerted b (SequenceBarrier_ClearAlert b h)"
  by (simp add: SequenceBarrier_IsAlerted_def SequenceBarrier_ClearAlert_def heap_simps)

text \<open>The turns a wait consumes are gone: a loop around \<open>WaitFor\<close> makes progress on its turns.\<close>

lemma Yielding_turns:
  "Yielding_waitFor ts desired dep st hb = Some (r, ts', hb') \<Longrightarrow> length ts' < length ts"
  by (induction ts arbitrary: hb)
    (auto simp: Let_def less_Suc_eq split: prod.splits if_splits option.splits)

lemma BusySpin_turns:
  "BusySpin_waitFor spins ts desired dep st hb = Some (r, ts', hb') \<Longrightarrow> length ts' < length ts"
  by (induction ts arbitrary: spins hb)
    (auto simp: Let_def less_Suc_eq split: prod.splits if_splits option.splits)

lemma Sleeping_turns:
  "Sleeping_waitFor st yt tries ts desired dep ws hb = Some (r, ts', hb') \<Longrightarrow> length ts' < length ts"
  by (induction ts arbitrary: tries hb)
    (auto simp: Let_def less_Suc_eq split: prod.splits if_splits option.splits)

lemma Blocking_turns:
  "Blocking_waitFor a ts desired cur dep st hb = Some (r, ts', hb') \<Longrightarrow> length ts' < length ts"
  by (induction ts arbitrary: hb)
    (auto simp: Let_def less_Suc_eq dest: Yielding_turns split: prod.splits if_splits option.splits)

lemma waitFor_turns:
  "WaitStrategy_waitFor w ts desired cur dep st hb = Some (r, ts', hb') \<Longrightarrow> length ts' < length ts"
  by (cases w) (auto dest: Yielding_turns BusySpin_turns Sleeping_turns Blocking_turns)

lemma WaitFor_turns:
  "SequenceBarrier_WaitFor highest b ts desired hb = Some (r, ts', hb') \<Longrightarrow> length ts' \<le> length ts"
  by (auto simp: SequenceBarrier_WaitFor_def dest!: waitFor_turns
      split: if_splits option.splits sum.splits)

section \<open>What other goroutines may do during a wait\<close>

text \<open>
  \<open>harmless I obs t\<close>: the other goroutines of turn \<open>t\<close> keep the invariant \<open>I\<close> and never change what
  \<open>obs\<close> reads. A wait then keeps both as well, whatever the strategy.
\<close>

definition harmless :: "('w \<Rightarrow> bool) \<Rightarrow> ('w \<Rightarrow> 'v) \<Rightarrow> 'w turn \<Rightarrow> bool" where
  "harmless I obs t \<longleftrightarrow>
     (\<forall>w. I w \<longrightarrow> (\<forall>f \<in> {t_pre t, t_mid t, t_park t}. I (f w) \<and> obs (f w) = obs w))"

lemma harmless_steps:
  assumes "harmless I obs t" "I w"
  shows "I (t_pre t w)" "obs (t_pre t w) = obs w" "I (t_mid t w)" "obs (t_mid t w) = obs w"
    "I (t_park t w)" "obs (t_park t w) = obs w"
  using assms by (auto simp: harmless_def)

lemma harmless_quiet [simp]: "harmless I obs quiet"
  by (simp add: harmless_def)

definition kept :: "('w \<Rightarrow> bool) \<Rightarrow> ('w \<Rightarrow> 'v) \<Rightarrow> 'w turn list \<Rightarrow> 'w \<Rightarrow> 'w turn list \<Rightarrow> 'w \<Rightarrow> bool" where
  "kept I obs ts w ts' w' \<longleftrightarrow> set ts' \<subseteq> set ts \<and> I w' \<and> obs w' = obs w"

lemma kept_Cons: "kept I obs ts w1 ts' w' \<Longrightarrow> obs w1 = obs w \<Longrightarrow> kept I obs (t # ts) w ts' w'"
  by (auto simp: kept_def)

lemma Yielding_kept:
  assumes "Yielding_waitFor ts desired dep st hb = Some (r, ts', hb')"
    and "\<forall>t \<in> set ts. harmless I obs t" "I hb"
  shows "kept I obs ts hb ts' hb'"
  using assms
proof (induction ts arbitrary: hb)
  case (Cons t ts)
  obtain h b h1 b1 h2 b2 where e: "t_pre t hb = (h, b)" "t_mid t (h, b) = (h1, b1)"
    "t_park t (h1, b1) = (h2, b2)" by (metis surj_pair)
  have s: "I (h, b)" "obs (h, b) = obs hb" "I (h1, b1)" "obs (h1, b1) = obs hb"
    "I (h2, b2)" "obs (h2, b2) = obs hb"
    using Cons.prems(2,3) e harmless_steps [of I obs t] by (metis list.set_intros(1))+
  show ?case
    using Cons.prems(1,2) e s Cons.IH [of "(h2, b2)"]
    by (auto simp: Let_def kept_def split: if_splits option.splits)
qed simp

lemma BusySpin_kept:
  assumes "BusySpin_waitFor spins ts desired dep st hb = Some (r, ts', hb')"
    and "\<forall>t \<in> set ts. harmless I obs t" "I hb"
  shows "kept I obs ts hb ts' hb'"
  using assms
proof (induction ts arbitrary: spins hb)
  case (Cons t ts)
  obtain h b h1 b1 where e: "t_pre t hb = (h, b)" "t_mid t (h, b) = (h1, b1)" by (metis surj_pair)
  have s: "I (h, b)" "obs (h, b) = obs hb" "I (h1, b1)" "obs (h1, b1) = obs hb"
    using Cons.prems(2,3) e harmless_steps [of I obs t] by (metis list.set_intros(1))+
  show ?case
    using Cons.prems(1,2) e s Cons.IH [of "i64 (spins + 1)" "(h1, b1)"]
    by (auto simp: Let_def kept_def split: if_splits option.splits)
qed simp

lemma Sleeping_kept:
  assumes "Sleeping_waitFor sp yt tries ts desired dep st hb = Some (r, ts', hb')"
    and "\<forall>t \<in> set ts. harmless I obs t" "I hb"
  shows "kept I obs ts hb ts' hb'"
  using assms
proof (induction ts arbitrary: tries hb)
  case (Cons t ts)
  obtain h b h1 b1 h2 b2 where e: "t_pre t hb = (h, b)" "t_mid t (h, b) = (h1, b1)"
    "t_park t (h1, b1) = (h2, b2)" by (metis surj_pair)
  have s: "I (h, b)" "obs (h, b) = obs hb" "I (h1, b1)" "obs (h1, b1) = obs hb"
    "I (h2, b2)" "obs (h2, b2) = obs hb"
    using Cons.prems(2,3) e harmless_steps [of I obs t] by (metis list.set_intros(1))+
  show ?case
    using Cons.prems(1,2) e s Cons.IH [of "i64 (tries + 1)" "(h1, b1)"]
      Cons.IH [of "i64 (tries + 1)" "(h2, b2)"]
    by (auto simp: Let_def kept_def split: if_splits option.splits)
qed simp

lemma Blocking_kept:
  assumes "Blocking_waitFor a ts desired cur dep st hb = Some (r, ts', hb')"
    and "\<forall>t \<in> set ts. harmless I obs t" "I hb"
  shows "kept I obs ts hb ts' hb'"
  using assms
proof (induction ts arbitrary: hb)
  case (Cons t ts)
  obtain h b h1 b1 h2 b2 where e: "t_pre t hb = (h, b)" "t_mid t (h, b) = (h1, b1)"
    "t_park t (h1, b1) = (h2, b2)" by (metis surj_pair)
  have s: "I (h, b)" "obs (h, b) = obs hb" "I (h1, b1)" "obs (h1, b1) = obs hb"
    "I (h2, b2)" "obs (h2, b2) = obs hb"
    using Cons.prems(2,3) e harmless_steps [of I obs t] by (metis list.set_intros(1))+
  have y: "kept I obs ts (h', b') ts' hb'"
    if "Yielding_waitFor ts desired dep st (h', b') = Some (r, ts', hb')" "I (h', b')" for h' b'
    using Yielding_kept [OF that(1), of I obs] that(2) Cons.prems(2) by simp
  show ?case
    using Cons.prems(1,2) e s Cons.IH [of "(h2, b2)"] y [of h b] y [of h1 b1]
    by (auto simp: Let_def kept_def split: if_splits option.splits)
qed simp

lemma WaitFor_kept:
  assumes "SequenceBarrier_WaitFor highest b ts desired hb = Some (r, ts', hb')"
    and "\<forall>t \<in> set ts. harmless I obs t" "I hb"
  shows "kept I obs ts hb ts' hb'"
proof (cases "flags (fst hb) (sb_alerted b)")
  case True
  with assms show ?thesis by (simp add: SequenceBarrier_WaitFor_def kept_def)
next
  case False
  with assms(1) obtain r1 where
    "WaitStrategy_waitFor (sb_wait b) ts desired (SequenceReader (sb_cursor b))
       (sb_dependent b) (barrier_state b) hb = Some (r1, ts', hb')"
    by (auto simp: SequenceBarrier_WaitFor_def split: if_splits option.splits sum.splits)
  with assms(2,3) show ?thesis
    by (cases "sb_wait b")
      (simp_all add: BusySpin_kept Yielding_kept Sleeping_kept Blocking_kept)
qed

section \<open>No lost wake-up of a parked consumer\<close>

text \<open>
  A consumer of the blocking strategy reads the channel before it checks the cursor and the alert.
  Whoever then changes one of them and signals closes that very channel, so the parked consumer runs
  again and sees the change.
\<close>

lemma signalAll_ready:
  assumes "blockings h a \<noteq> 0" "blockings h a < next_addr h"
  shows "chan_ready (blockings h a) (WaitStrategy_signalAll (BlockingWaitStrategy a) h)"
  using assms by (simp add: chan_ready_def make_chan_def close_chan_def Let_def)

lemma owned_blocking:
  assumes "heap_wf h" "blockings h a \<noteq> 0"
  shows "blockings h a < next_addr h"
  using assms unfolding heap_wf_def by (metis owns.simps(2) owned_chan.simps(2))

lemma Blocking_parked:
  assumes t: "t_pre t = id" "t_mid t = id" "t_ctx t = None"
    and park: "t_park t (h, b) = (WaitStrategy_signalAll (BlockingWaitStrategy a) h1, b1)"
    and same: "blockings h1 a = blockings h a" "blockings h a \<noteq> 0" "blockings h a < next_addr h1"
    and short: "sequenceReader_Load cur h < desired" "checkWait None st h = None"
    and open_: "\<not> chan_ready (ws_closedCh st) (WaitStrategy_signalAll (BlockingWaitStrategy a) h1)"
  shows "Blocking_waitFor a (t # ts) desired cur dep st (h, b) =
    Blocking_waitFor a ts desired cur dep st (WaitStrategy_signalAll (BlockingWaitStrategy a) h1, b1)"
proof -
  have "chan_ready (blockings h a) (WaitStrategy_signalAll (BlockingWaitStrategy a) h1)"
    using signalAll_ready [of h1 a] same by simp
  with t park short open_ show ?thesis
    by (simp add: select_case_def del: WaitStrategy_signalAll.simps)
qed

lemma reader_cong:
  "(\<And>s. Sequence_Load s h = Sequence_Load s h') \<Longrightarrow> sequenceReader_Load r h = sequenceReader_Load r h'"
  by (cases r) (auto simp: sequenceGroup_Load_minimum intro: minimumSequence_cong)

lemma reader_signalAll [heap_simps]:
  "sequenceReader_Load r (WaitStrategy_signalAll w h) = sequenceReader_Load r h"
  by (rule reader_cong) (simp add: heap_simps)

lemma checkWait_signalAll [heap_simps]:
  "checkWait ctx st (WaitStrategy_signalAll w h) = checkWait ctx st h"
  by (simp add: checkWait_def heap_simps)

lemma Blocking_publish_wakes:
  assumes "t_pre t = id" "t_mid t = id" "t_ctx t = None"
    and "t_park t (h, b) = (WaitStrategy_signalAll (BlockingWaitStrategy a) h1, b1)"
    and "blockings h1 a = blockings h a" "blockings h a \<noteq> 0" "blockings h a < next_addr h1"
    and "sequenceReader_Load cur h < desired" "checkWait None st h = None"
    and "\<not> chan_ready (ws_closedCh st) (WaitStrategy_signalAll (BlockingWaitStrategy a) h1)"
    and "desired \<le> sequenceReader_Load cur h1"
  shows "\<exists>ts'. Blocking_waitFor a (t # quiet # quiet # ts) desired cur cur st (h, b) =
    Some (Inr (sequenceReader_Load cur h1), ts', WaitStrategy_signalAll (BlockingWaitStrategy a) h1, b1)"
  unfolding Blocking_parked [OF assms(1-10)]
  using assms(11) by (simp add: heap_simps del: WaitStrategy_signalAll.simps)

lemma Blocking_alert_wakes:
  assumes "t_pre t = id" "t_mid t = id" "t_ctx t = None"
    and "t_park t (h, b) = (SequenceBarrier_Alert br h, b)" "sb_wait br = BlockingWaitStrategy a"
    and "heap_wf h" "blockings h a \<noteq> 0"
    and "sequenceReader_Load cur h < desired" "checkWait None (barrier_state br) h = None"
    and "\<not> chan_ready (sb_closedCh br) (SequenceBarrier_Alert br h)"
  shows "\<exists>ts'. Blocking_waitFor a (t # quiet # ts) desired cur dep (barrier_state br) (h, b) =
    Some (Inl ErrAlerted, ts', SequenceBarrier_Alert br h, b)"
proof -
  let ?h = "flag_Store (sb_alerted br) True h"
  have al: "SequenceBarrier_Alert br h = WaitStrategy_signalAll (BlockingWaitStrategy a) ?h"
    using assms(5) by (simp add: SequenceBarrier_Alert_def)
  have bl: "blockings ?h a = blockings h a" "blockings h a < next_addr ?h"
    using owned_blocking [OF assms(6,7)] by (simp_all add: flag_Store_def)
  have ld: "sequenceReader_Load cur ?h = sequenceReader_Load cur h"
    by (rule reader_cong) (simp add: heap_simps)
  have cw: "checkWait None (barrier_state br) ?h = Some ErrAlerted"
    by (simp add: checkWait_def barrier_state_def flag_Store_def)
  have cl: "\<not> chan_ready (ws_closedCh (barrier_state br)) (WaitStrategy_signalAll (BlockingWaitStrategy a) ?h)"
    using assms(10) al by (simp add: barrier_state_def)
  show ?thesis
    unfolding al Blocking_parked [OF assms(1-3) assms(4) [unfolded al] bl(1) assms(7) bl(2) assms(8,9) cl]
    using assms(8) by (simp add: heap_simps ld cw del: WaitStrategy_signalAll.simps)
qed

section \<open>Properties\<close>

text \<open>
  C17. A barrier over a multi-producer ring never crosses a publication gap: whatever other goroutines do
  during the wait, the position \<open>WaitFor\<close> returns has only resolved sequences behind it, from the
  desired one on, and stays below the first unresolved one.
\<close>

theorem WaitFor_never_crosses_gap:
  assumes "SequenceBarrier_WaitFor multi_HighestPublished b ts desired hs = Some (Inr n, ts', h, s)"
    and "multi_ok (h, s)" "0 \<le> desired" "sequenceReader_Load (sb_dependent b) h < 2 ^ 63"
  shows "n \<le> sequenceReader_Load (sb_dependent b) h \<and>
    (\<forall>q. desired \<le> q \<and> q \<le> n \<longrightarrow> multi_IsAvailable q (h, s)) \<and>
    (\<forall>q. desired \<le> q \<and> q \<le> sequenceReader_Load (sb_dependent b) h \<and> \<not> multi_IsAvailable q (h, s) \<longrightarrow> n < q)"
proof -
  let ?dep = "sequenceReader_Load (sb_dependent b) h"
  have n: "desired \<le> ?dep" "n = multi_HighestPublished desired ?dep (h, s)"
    using WaitFor_result [OF assms(1)] by simp_all
  have rd: "multi_readable desired ?dep (h, s)" using assms(3,4) by (simp add: multi_readable_def)
  have st: "multi_IsAvailable q (h, s) \<longleftrightarrow> multi_status q (h, s) \<noteq> Unresolved" for q
    by (simp add: multi_status_def status_of_def)
  show ?thesis
    using multi_log.highest_prefix [OF assms(2) rd n(1)] multi_log.highest_stops_at_gap [OF assms(2) rd] n(2) st
    by blast
qed

text \<open>A barrier on the cursor of a ring with three claimed and two published sequences.\<close>

definition gap_ring :: multi_state where
  "gap_ring = multi_Publish 2 2 (multi_Publish 0 0 claimed_multi)"

theorem WaitFor_never_crosses_gap_witness:
  "\<exists>ts'. SequenceBarrier_WaitFor multi_HighestPublished (fst (multi_NewBarrier [] gap_ring)) [quiet] 0 gap_ring =
     Some (Inr 0, ts', gap_ring) \<and> \<not> multi_IsAvailable 1 gap_ring"
proof -
  let ?b = "fst (multi_NewBarrier [] gap_ring)"
  obtain h s where g: "gap_ring = (h, s)" by fastforce
  have f: "flags (fst gap_ring) (sb_alerted ?b) = False" "sb_wait ?b = YieldingWaitStrategy"
    "sb_dependent ?b = SequenceReader (sb_cursor ?b)" "Sequence_Load (sb_cursor ?b) (fst gap_ring) = 2"
    "multi_HighestPublished 0 2 gap_ring = 0" "\<not> multi_IsAvailable 1 gap_ring" by code_simp+
  then have w: "SequenceBarrier_WaitFor multi_HighestPublished ?b [quiet] 0 gap_ring = Some (Inr 0, [], gap_ring)"
    by (simp add: SequenceBarrier_WaitFor_def g)
  have "multi_ok gap_ring" unfolding gap_ring_def by (intro multi_ok_Publish claimed_multi_ok)
  then have "0 \<le> sequenceReader_Load (sb_dependent ?b) h"
    using WaitFor_never_crosses_gap [OF w [unfolded g], folded g] f(3,4) by (simp add: g)
  with w f show ?thesis by blast
qed


text \<open>A store with one blocking strategy.\<close>

definition parked_heap :: heap where
  "parked_heap = empty_heap\<lparr>blockings := (\<lambda>_. 0)(2 := 1), next_addr := 3\<rparr>"

lemma parked_heap_wf: "heap_wf parked_heap"
proof -
  have ow: "owns parked_heap = (\<lambda>a. a = BlockingOwner 2)"
  proof
    show "owns parked_heap a = (a = BlockingOwner 2)" for a
      by (cases a) (simp_all add: parked_heap_def empty_heap_def wait_mode_defs)
  qed
  have "owned_chan parked_heap (BlockingOwner 2) = 1" "next_addr parked_heap = 3" "\<not> chans parked_heap 1"
    by (simp_all add: parked_heap_def empty_heap_def)
  then show ?thesis by (simp add: heap_wf_def ow)
qed


text \<open>
  An alert is not lost either: it wakes a consumer that is parked on the blocking strategy, whose wait
  ends with \<open>ErrAlerted\<close>.
\<close>

theorem alert_wakes_parked_consumer:
  assumes "t_pre t = id" "t_mid t = id" "t_ctx t = None"
    and "t_park t (h, b) = (SequenceBarrier_Alert br h, b)" "sb_wait br = BlockingWaitStrategy a"
    and "heap_wf h" "blockings h a \<noteq> 0"
    and "sequenceReader_Load cur h < desired" "checkWait None (barrier_state br) h = None"
    and "\<not> chan_ready (sb_closedCh br) (SequenceBarrier_Alert br h)"
  shows "\<exists>ts'. Blocking_waitFor a (t # quiet # ts) desired cur dep (barrier_state br) (h, b) =
    Some (Inl ErrAlerted, ts', SequenceBarrier_Alert br h, b)"
  using Blocking_alert_wakes [OF assms] .

definition parked_barrier :: SequenceBarrier where
  "parked_barrier = \<lparr>sb_wait = BlockingWaitStrategy 2, sb_cursor = 7, sb_dependent = SequenceReader 7,
     sb_alerted = 4, sb_closed = 5, sb_closedCh = 0\<rparr>"

theorem alert_wakes_parked_consumer_witness:
  "\<exists>ts'. Blocking_waitFor 2 [quiet\<lparr>t_park := (\<lambda>(h, b). (SequenceBarrier_Alert parked_barrier h, b))\<rparr>, quiet]
     1 (SequenceReader 7) (SequenceReader 7) (barrier_state parked_barrier) (parked_heap, ()) =
     Some (Inl ErrAlerted, ts', SequenceBarrier_Alert parked_barrier parked_heap, ())"
  by (rule alert_wakes_parked_consumer [OF _ _ _ _ _ parked_heap_wf])
    (simp_all add: quiet_def parked_barrier_def parked_heap_def empty_heap_def Sequence_Load_def
      checkWait_def barrier_state_def chan_ready_def)

end
