(* ===== verification/Ring_Buffer.thy ===== *)
theory Ring_Buffer
  imports Barrier
begin

text \<open>
  \<open>RingBuffer\<close> of \<open>ring_buffer.go\<close>: the preallocated entries, their mask, and the producer
  operations on top of a sequencer. The entries are references to application objects that the
  ring never replaces; translators and factories are application code, so they are arguments that
  read and write an application state \<open>'s\<close> and end by returning or by panicking.
\<close>

unbundle bit_operations_syntax

section \<open>State and construction\<close>

record ('t, 'b) RingBuffer =
  entries :: "'t list"
  rb_indexMask :: uint64
  methods :: "'b Sequencer"
  sequencer :: 'b
  rb_discarded :: bool

type_synonym ('t, 'b) ring_state = "heap \<times> ('t, 'b) RingBuffer"
type_synonym ('t, 's) EventFactory = "'s \<Rightarrow> 't outcome \<times> 's"
type_synonym ('t, 's) EventTranslator = "'t \<Rightarrow> int64 \<Rightarrow> 's \<Rightarrow> error option outcome \<times> 's"

type_synonym ProducerType = uint8

definition SingleProducer :: ProducerType where "SingleProducer = 0"
definition MultiProducer :: ProducerType where "MultiProducer = 1"

fun apply_options :: "('c \<Rightarrow> error + 'c) list \<Rightarrow> 'c \<Rightarrow> error + 'c" where
  "apply_options [] config = Inr config"
| "apply_options (option # rest) config =
     (case option config of Inl err \<Rightarrow> Inl err | Inr config' \<Rightarrow> apply_options rest config')"

fun make_entries :: "nat \<Rightarrow> ('t, 's) EventFactory \<Rightarrow> 's \<Rightarrow> 't list outcome \<times> 's" where
  "make_entries 0 factory app = (Returned [], app)"
| "make_entries (Suc n) factory app =
     (case factory app of
        (Panicked p, app1) \<Rightarrow> (Panicked p, app1)
      | (Returned e, app1) \<Rightarrow>
          (case make_entries n factory app1 of
             (Panicked p, app2) \<Rightarrow> (Panicked p, app2)
           | (Returned es, app2) \<Rightarrow> (Returned (e # es), app2)))"

text \<open>A ring in either producer mode.\<close>

datatype 't ring =
    SingleRing "('t, singleProducerSequencer) RingBuffer"
  | MultiRing "('t, multiProducerSequencer) RingBuffer"

definition New ::
  "int64 \<Rightarrow> ProducerType \<Rightarrow> ('t, 's) EventFactory option \<Rightarrow> WaitStrategy option \<Rightarrow> RingOption list \<Rightarrow>
   heap \<Rightarrow> 's \<Rightarrow> (error + 't ring) outcome \<times> heap \<times> 's"
where
  "New bsize producerType factory wait options h app =
     (if bsize < 1 \<or> bsize AND i64 (bsize - 1) \<noteq> 0 then (Returned (Inl ErrInvalidBufferSize), h, app)
      else case factory of
        None \<Rightarrow> (Returned (Inl ErrNilFactory), h, app)
      | Some create \<Rightarrow>
          (case apply_options options \<lparr>cfg_producerWait = ProducerWaitYielding\<rparr> of
             Inl err \<Rightarrow> (Returned (Inl err), h, app)
           | Inr config \<Rightarrow>
               (case make_entries (nat bsize) create app of
                  (Panicked p, app1) \<Rightarrow> (Panicked p, h, app1)
                | (Returned es, app1) \<Rightarrow>
                    if producerType = SingleProducer then
                      (let (s, h1) = newSingleProducerSequencer bsize wait (cfg_producerWait config) h
                       in (Returned (Inr (SingleRing
                             \<lparr>entries = es, rb_indexMask = u64 (i64 (bsize - 1)),
                              methods = singleSequencer, sequencer = s, rb_discarded = False\<rparr>)), h1, app1))
                    else if producerType = MultiProducer then
                      (let (s, h1) = newMultiProducerSequencer bsize wait (cfg_producerWait config) h
                       in (Returned (Inr (MultiRing
                             \<lparr>entries = es, rb_indexMask = u64 (i64 (bsize - 1)),
                              methods = multiSequencer, sequencer = s, rb_discarded = False\<rparr>)), h1, app1))
                    else (Returned (Inl ErrInvalidProducerType), h, app1))))"

section \<open>Operations\<close>

definition Get :: "('t, 'b) RingBuffer \<Rightarrow> int64 \<Rightarrow> 't" where
  "Get r sequence = entries r ! unat (u64 sequence AND rb_indexMask r)"

text \<open>A sequencer operation on the sequencer inside the ring.\<close>

definition on_sequencer ::
  "(heap \<times> 'b \<Rightarrow> heap \<times> 'b) \<Rightarrow> ('t, 'b) ring_state \<Rightarrow> ('t, 'b) ring_state"
where
  "on_sequencer f hr =
     (let (h, r) = hr; (h1, s1) = f (h, sequencer r) in (h1, r\<lparr>sequencer := s1\<rparr>))"

definition NextN ::
  "'b turns \<Rightarrow> int64 \<Rightarrow> ('t, 'b) ring_state \<Rightarrow> ((error + int64) \<times> 'b turns \<times> ('t, 'b) ring_state) option"
where
  "NextN ts count hr =
     (let (h, r) = hr in
      case seq_Next (methods r) ts count (h, sequencer r) of
        None \<Rightarrow> None
      | Some (res, ts', h1, s1) \<Rightarrow> Some (res, ts', h1, r\<lparr>sequencer := s1\<rparr>))"

definition Next ::
  "'b turns \<Rightarrow> ('t, 'b) ring_state \<Rightarrow> ((error + int64) \<times> 'b turns \<times> ('t, 'b) ring_state) option"
where
  "Next ts hr = NextN ts 1 hr"

definition TryNextN ::
  "'b turns \<Rightarrow> int64 \<Rightarrow> ('t, 'b) ring_state \<Rightarrow> ((error + int64) \<times> 'b turns \<times> ('t, 'b) ring_state) option"
where
  "TryNextN ts count hr =
     (let (h, r) = hr in
      case seq_TryNext (methods r) ts count (h, sequencer r) of
        None \<Rightarrow> None
      | Some (res, ts', h1, s1) \<Rightarrow> Some (res, ts', h1, r\<lparr>sequencer := s1\<rparr>))"

definition TryNext ::
  "'b turns \<Rightarrow> ('t, 'b) ring_state \<Rightarrow> ((error + int64) \<times> 'b turns \<times> ('t, 'b) ring_state) option"
where
  "TryNext ts hr = TryNextN ts 1 hr"

definition PublishRange :: "int64 \<Rightarrow> int64 \<Rightarrow> ('t, 'b) ring_state \<Rightarrow> ('t, 'b) ring_state" where
  "PublishRange low high hr = on_sequencer (seq_Publish (methods (snd hr)) low high) hr"

definition PublishSequence :: "int64 \<Rightarrow> ('t, 'b) ring_state \<Rightarrow> ('t, 'b) ring_state" where
  "PublishSequence sequence hr = on_sequencer (seq_Publish (methods (snd hr)) sequence sequence) hr"

definition DiscardRange :: "int64 \<Rightarrow> int64 \<Rightarrow> ('t, 'b) ring_state \<Rightarrow> ('t, 'b) ring_state" where
  "DiscardRange low high hr =
     (let (h, r) = hr
      in on_sequencer (seq_Discard (methods r) low high) (h, r\<lparr>rb_discarded := True\<rparr>))"

definition DiscardSequence :: "int64 \<Rightarrow> ('t, 'b) ring_state \<Rightarrow> ('t, 'b) ring_state" where
  "DiscardSequence sequence hr =
     (let (h, r) = hr
      in on_sequencer (seq_Discard (methods r) sequence sequence) (h, r\<lparr>rb_discarded := True\<rparr>))"

definition IsDiscarded :: "int64 \<Rightarrow> ('t, 'b) ring_state \<Rightarrow> bool" where
  "IsDiscarded sequence hr =
     (let (h, r) = hr in seq_IsDiscarded (methods r) sequence (h, sequencer r))"

definition hasDiscardedClaims :: "('t, 'b) RingBuffer \<Rightarrow> bool" where
  "hasDiscardedClaims r = rb_discarded r"

definition RingBuffer_Cursor :: "('t, 'b) ring_state \<Rightarrow> int64" where
  "RingBuffer_Cursor hr = (let (h, r) = hr in Sequence_Load (seq_Cursor (methods r) (sequencer r)) h)"

definition RingBuffer_BufferSize :: "('t, 'b) ring_state \<Rightarrow> int64" where
  "RingBuffer_BufferSize hr = (let (h, r) = hr in seq_BufferSize (methods r) (sequencer r))"

definition RingBuffer_RemainingCapacity :: "('t, 'b) ring_state \<Rightarrow> int64" where
  "RingBuffer_RemainingCapacity hr =
     (let (h, r) = hr in seq_RemainingCapacity (methods r) (h, sequencer r))"

definition RingBuffer_NewBarrier ::
  "addr list \<Rightarrow> ('t, 'b) ring_state \<Rightarrow> SequenceBarrier \<times> ('t, 'b) ring_state"
where
  "RingBuffer_NewBarrier dependencies hr =
     (let (h, r) = hr; (b, h1, s1) = seq_NewBarrier (methods r) dependencies (h, sequencer r)
      in (b, h1, r\<lparr>sequencer := s1\<rparr>))"

definition RingBuffer_AddGatingSequences ::
  "addr option list \<Rightarrow> ('t, 'b) ring_state \<Rightarrow> ('t, 'b) ring_state"
where
  "RingBuffer_AddGatingSequences ss hr =
     on_sequencer (seq_AddGatingSequences (methods (snd hr)) ss) hr"

definition RingBuffer_RemoveGatingSequence ::
  "addr \<Rightarrow> ('t, 'b) ring_state \<Rightarrow> bool \<times> ('t, 'b) ring_state"
where
  "RingBuffer_RemoveGatingSequence s hr =
     (let (h, r) = hr; (found, h1, s1) = seq_RemoveGatingSequence (methods r) s (h, sequencer r)
      in (found, h1, r\<lparr>sequencer := s1\<rparr>))"

definition RingBuffer_Close :: "('t, 'b) ring_state \<Rightarrow> ('t, 'b) ring_state" where
  "RingBuffer_Close hr = on_sequencer (seq_Close (methods (snd hr))) hr"

definition RingBuffer_Shutdown ::
  "'b turns \<Rightarrow> ('t, 'b) ring_state \<Rightarrow> (error option \<times> 'b turns \<times> ('t, 'b) ring_state) option"
where
  "RingBuffer_Shutdown ts hr =
     (let (h, r) = hr in
      case seq_Shutdown (methods r) ts (h, sequencer r) of
        None \<Rightarrow> None
      | Some (res, ts', h1, s1) \<Rightarrow> Some (res, ts', h1, r\<lparr>sequencer := s1\<rparr>))"

section \<open>Translating and publishing\<close>

text \<open>
  \<open>translate_range\<close> is the loop over a claimed range: it stops at the first error or panic. The
  publication is deferred, so it happens whichever way the loop ends; \<open>Returned None\<close> is a \<open>nil\<close>
  error.
\<close>

fun translate_range ::
  "('t, 's) EventTranslator \<Rightarrow> ('t, 'b) RingBuffer \<Rightarrow> int64 list \<Rightarrow> 's \<Rightarrow> error option outcome \<times> 's"
where
  "translate_range translator r [] app = (Returned None, app)"
| "translate_range translator r (sequence # rest) app =
     (case translator (Get r sequence) sequence app of
        (Returned None, app1) \<Rightarrow> translate_range translator r rest app1
      | (res, app1) \<Rightarrow> (res, app1))"

type_synonym ('t, 'b, 's) publish_result =
  "(error option outcome \<times> 'b turns \<times> ('t, 'b) ring_state \<times> 's) option"

definition publish_claimed ::
  "int64 \<Rightarrow> ('t, 's) EventTranslator \<Rightarrow> ((error + int64) \<times> 'b turns \<times> ('t, 'b) ring_state) option \<Rightarrow> 's \<Rightarrow>
   ('t, 'b, 's) publish_result"
where
  "publish_claimed count translator claim app =
     (case claim of
        None \<Rightarrow> None
      | Some (Inl err, ts', hr1) \<Rightarrow> Some (Returned (Some err), ts', hr1, app)
      | Some (Inr high, ts', hr1) \<Rightarrow>
          (let low = i64 (i64 (high - count) + 1);
               (res, app1) = translate_range translator (snd hr1) [low..high] app
           in Some (res, ts', PublishRange low high hr1, app1)))"

definition PublishN ::
  "'b turns \<Rightarrow> int64 \<Rightarrow> ('t, 's) EventTranslator option \<Rightarrow> ('t, 'b) ring_state \<Rightarrow> 's \<Rightarrow>
   ('t, 'b, 's) publish_result"
where
  "PublishN ts count translator hr app =
     (case translator of
        None \<Rightarrow> Some (Returned (Some ErrNilTranslator), ts, hr, app)
      | Some tr \<Rightarrow> publish_claimed count tr (NextN ts count hr) app)"

definition TryPublishN ::
  "'b turns \<Rightarrow> int64 \<Rightarrow> ('t, 's) EventTranslator option \<Rightarrow> ('t, 'b) ring_state \<Rightarrow> 's \<Rightarrow>
   ('t, 'b, 's) publish_result"
where
  "TryPublishN ts count translator hr app =
     (case translator of
        None \<Rightarrow> Some (Returned (Some ErrNilTranslator), ts, hr, app)
      | Some tr \<Rightarrow> publish_claimed count tr (TryNextN ts count hr) app)"

definition publish_one ::
  "('t, 's) EventTranslator \<Rightarrow> ((error + int64) \<times> 'b turns \<times> ('t, 'b) ring_state) option \<Rightarrow> 's \<Rightarrow>
   ('t, 'b, 's) publish_result"
where
  "publish_one translator claim app =
     (case claim of
        None \<Rightarrow> None
      | Some (Inl err, ts', hr1) \<Rightarrow> Some (Returned (Some err), ts', hr1, app)
      | Some (Inr sequence, ts', hr1) \<Rightarrow>
          (let (res, app1) = translator (Get (snd hr1) sequence) sequence app
           in Some (res, ts', PublishSequence sequence hr1, app1)))"

definition Publish ::
  "'b turns \<Rightarrow> ('t, 's) EventTranslator option \<Rightarrow> ('t, 'b) ring_state \<Rightarrow> 's \<Rightarrow> ('t, 'b, 's) publish_result"
where
  "Publish ts translator hr app =
     (case translator of
        None \<Rightarrow> Some (Returned (Some ErrNilTranslator), ts, hr, app)
      | Some tr \<Rightarrow> publish_one tr (Next ts hr) app)"

definition TryPublish ::
  "'b turns \<Rightarrow> ('t, 's) EventTranslator option \<Rightarrow> ('t, 'b) ring_state \<Rightarrow> 's \<Rightarrow> ('t, 'b, 's) publish_result"
where
  "TryPublish ts translator hr app =
     (case translator of
        None \<Rightarrow> Some (Returned (Some ErrNilTranslator), ts, hr, app)
      | Some tr \<Rightarrow> publish_one tr (TryNext ts hr) app)"

section \<open>Construction\<close>

text \<open>A well-formed store: one entry per slot, and the mask that goes with the size.\<close>

definition ring_wf :: "int64 \<Rightarrow> ('t, 'b) RingBuffer \<Rightarrow> bool" where
  "ring_wf bsize r \<longleftrightarrow>
     ring_size bsize \<and> length (entries r) = nat bsize \<and> rb_indexMask r = u64 (i64 (bsize - 1))"

lemma make_entries_length: "make_entries n f app = (Returned es, app') \<Longrightarrow> length es = n"
  by (induction n arbitrary: app es) (auto split: prod.splits outcome.splits)

lemma New_size_check:
  assumes "in_i64 bsize"
  shows "bsize < 1 \<or> bsize AND i64 (bsize - 1) \<noteq> 0 \<longleftrightarrow> \<not> ring_size bsize"
proof (cases "bsize < 1")
  case True
  then show ?thesis by (simp add: ring_size_def)
next
  case False
  with assms have "i64 (bsize - 1) = bsize - 1" "bsize < 2 ^ 63"
    by (simp_all add: in_i64_def i64_id)
  with False show ?thesis by (auto simp: ring_size_def)
qed

lemma New_ring:
  assumes "in_i64 bsize" "New bsize pt (Some f) wait opts h app = (Returned (Inr ring), h', app')"
  shows "(\<exists>r. ring = SingleRing r \<and> pt = SingleProducer \<and> ring_wf bsize r \<and> methods r = singleSequencer \<and>
            \<not> rb_discarded r \<and> single_log_ok (h', sequencer r) \<and> nextValue (sequencer r) = -1) \<or>
         (\<exists>r. ring = MultiRing r \<and> pt = MultiProducer \<and> ring_wf bsize r \<and> methods r = multiSequencer \<and>
            \<not> rb_discarded r \<and> multi_ok (h', sequencer r) \<and> multi_claimed (h', sequencer r) = -1)"
proof -
  have rs: "ring_size bsize" and ok: "\<not> (bsize < 1 \<or> bsize AND i64 (bsize - 1) \<noteq> 0)"
    using New_size_check [OF assms(1)] assms(2) by (auto simp: New_def split: if_splits)
  from assms(2) ok obtain config es app1 where
    "apply_options opts \<lparr>cfg_producerWait = ProducerWaitYielding\<rparr> = Inr config"
    and es: "make_entries (nat bsize) f app = (Returned es, app1)"
    by (auto simp: New_def split: sum.splits outcome.splits prod.splits if_splits)
  note eqs = this ok assms(2)
  have len: "length es = nat bsize" using es by (rule make_entries_length)
  obtain s1 h1 where s1: "newSingleProducerSequencer bsize wait (cfg_producerWait config) h = (s1, h1)"
    by fastforce
  obtain s2 h2 where s2: "newMultiProducerSequencer bsize wait (cfg_producerWait config) h = (s2, h2)"
    by fastforce
  show ?thesis
    using eqs s1 s2 new_single_log_ok [OF rs s1] new_multi_ok [OF rs s2] rs len
    by (auto simp: New_def ring_wf_def split: if_splits)
qed

lemma Get_slot: "ring_wf bsize r \<Longrightarrow> Get r q = entries r ! slot bsize q"
  by (simp add: Get_def ring_wf_def mask_slot)

lemma Get_distinct:
  assumes "ring_wf bsize r" "distinct (entries r)" "\<bar>p - q\<bar> < bsize" "Get r p = Get r q"
  shows "p = q"
proof -
  have pos: "0 < bsize" using assms(1) by (simp add: ring_wf_def ring_size_pos)
  have "entries r ! slot bsize p = entries r ! slot bsize q" using assms(1,4) by (simp add: Get_slot)
  moreover have "slot bsize p < length (entries r)" "slot bsize q < length (entries r)"
    using assms(1) slot_less [OF pos] by (simp_all add: ring_wf_def)
  ultimately have "slot bsize p = slot bsize q" using assms(2) by (simp add: nth_eq_iff_index_eq)
  then show ?thesis using assms(3) by (rule slot_eq_close)
qed

section \<open>Publishing a whole claim whatever the translator does\<close>

lemma publish_claimed_granted:
  assumes "i64 (i64 (high - n) + 1) = high - n + 1"
  shows "publish_claimed n tr (Some (Inr high, ts, hr)) app =
    Some (fst (translate_range tr (snd hr) [high - n + 1..high] app), ts,
      PublishRange (high - n + 1) high hr, snd (translate_range tr (snd hr) [high - n + 1..high] app))"
  using assms by (simp add: publish_claimed_def split_def Let_def)

text \<open>Translation goes through the claim in order and stops at the first failure.\<close>

lemma translate_range_prefix:
  assumes "translate_range tr r qs app = (res, app')"
  shows "res = Returned None \<or> (\<exists>pre q post app1. qs = pre @ q # post \<and>
    translate_range tr r pre app = (Returned None, app1) \<and> tr (Get r q) q app1 = (res, app'))"
  using assms
proof (induction qs arbitrary: app)
  case (Cons q qs)
  obtain r1 app1 where tr: "tr (Get r q) q app = (r1, app1)" by fastforce
  show ?case
  proof (cases "r1 = Returned None")
    case True
    with Cons.prems tr have "translate_range tr r qs app1 = (res, app')" by simp
    from Cons.IH [OF this] show ?thesis
    proof
      assume "\<exists>pre p post app2. qs = pre @ p # post \<and>
        translate_range tr r pre app1 = (Returned None, app2) \<and> tr (Get r p) p app2 = (res, app')"
      then obtain pre p post app2 where "qs = pre @ p # post"
        "translate_range tr r pre app1 = (Returned None, app2)" "tr (Get r p) p app2 = (res, app')" by blast
      then have "q # qs = (q # pre) @ p # post \<and>
        translate_range tr r (q # pre) app = (Returned None, app2) \<and> tr (Get r p) p app2 = (res, app')"
        using tr True by simp
      then show ?thesis by blast
    qed simp
  next
    case False
    then have "translate_range tr r (q # qs) app = (r1, app1)"
      using tr by (auto split: outcome.splits option.splits)
    with Cons.prems tr show ?thesis by fastforce
  qed
qed simp

lemma single_TryPublishN:
  assumes m: "methods r = singleSequencer" and ok: "single_log_ok (h, sequencer r)"
    and settled: "Sequence_Load (cursor (sequencer r)) h = nextValue (sequencer r)"
    and open_: "\<not> sealed (sequencer r)"
    and n: "1 \<le> n" "n \<le> single_RemainingCapacity (h, sequencer r)" "nextValue (sequencer r) + n < 2 ^ 63"
  shows "\<exists>h' r'. TryPublishN ts n (Some tr) (h, r) app =
      Some (fst (translate_range tr r' [nextValue (sequencer r) + 1..nextValue (sequencer r) + n] app), ts,
        (h', r'), snd (translate_range tr r' [nextValue (sequencer r) + 1..nextValue (sequencer r) + n] app)) \<and>
    single_log_ok (h', sequencer r') \<and> entries r' = entries r \<and> rb_indexMask r' = rb_indexMask r \<and>
    Sequence_Load (cursor (sequencer r')) h' = nextValue (sequencer r) + n \<and>
    nextValue (sequencer r') = nextValue (sequencer r) + n \<and>
    (\<forall>q \<in> {nextValue (sequencer r) + 1..nextValue (sequencer r) + n}.
       single_status q (h', sequencer r') = Published)"
proof -
  let ?s = "sequencer r"
  let ?low = "nextValue ?s + 1" and ?high = "nextValue ?s + n"
  have ok0: "single_ok (h, ?s)" using ok by (simp add: single_log_ok_def)
  note rc = single_RemainingCapacity_eq [OF ok0]
  have n2: "n \<le> bufferSize ?s" using n(2) rc(3) by simp
  have room: "?high - bufferSize ?s \<le> single_slowest (h, ?s)" using n(2) rc(1) by simp
  from single_TryNext_decides [OF ok0 open_ n(1) n2 n(3)] room obtain c where c: "-1 \<le> c"
    "c \<le> single_slowest (h, ?s)"
    and granted: "single_TryNext n (h, ?s) = (Inr ?high, h, ?s\<lparr>cachedGate := c, nextValue := ?high\<rparr>)" by auto
  let ?s1 = "?s\<lparr>cachedGate := c, nextValue := ?high\<rparr>"
  have ok1: "single_log_ok (h, ?s1)"
    using single_ok_claim [OF ok0 n(1) n2 n(3) c room] ok by (simp add: single_log_ok_def)
  have pend: "single_pending ?low ?high (h, ?s1)" using settled n n2 by (simp add: single_pending_def)
  have i: "i64 (i64 (?high - n) + 1) = ?high - n + 1"
    using ok0 n by (simp add: single_ok_def i64_id)
  let ?r1 = "r\<lparr>sequencer := ?s1\<rparr>"
  have "TryNextN ts n (h, r) = Some (Inr ?high, ts, h, ?r1)"
    using m granted by (simp add: TryNextN_def)
  then have pub: "TryPublishN ts n (Some tr) (h, r) app =
    Some (fst (translate_range tr ?r1 [?low..?high] app), ts, PublishRange ?low ?high (h, ?r1),
      snd (translate_range tr ?r1 [?low..?high] app))"
    using publish_claimed_granted [OF i, of tr ts "(h, ?r1)" app] by (simp add: TryPublishN_def)
  define h2 where "h2 = WaitStrategy_signalAll (wait_with ?s1) (Sequence_store (cursor ?s1) ?high h)"
  have p2: "single_Publish ?low ?high (h, ?s1) = (h2, ?s1)" by (simp add: single_Publish_eq h2_def)
  have pr: "PublishRange ?low ?high (h, ?r1) = (h2, ?r1)"
    using m p2 by (simp add: PublishRange_def on_sequencer_def)
  have cur: "Sequence_Load (cursor ?s) h2 = ?high" by (simp add: h2_def heap_simps)
  have "single_status q (h2, ?s1) = Published" if "?low \<le> q" "q \<le> ?high" for q
  proof -
    have "single_live q (h, ?s1)" using single_log.pending_unresolved [OF ok1 pend that] by simp
    with single_log.publish_status [OF ok1 pend this] that p2 show ?thesis by simp
  qed
  moreover have "single_log_ok (h2, ?s1)" using single_log.resolve_ok [OF ok1 pend] p2 by simp
  ultimately show ?thesis
    using pub pr cur by (intro exI [of _ h2] exI [of _ ?r1]) simp
qed

section \<open>Properties\<close>

text \<open>
  C30. \<open>New\<close> accepts exactly the powers of two that fit an \<open>int64\<close>, checks the size, the factory and
  the options in this order, and builds a ring for the two producer modes only.
\<close>

theorem New_accepts:
  assumes "in_i64 bsize"
  shows "((\<nexists>k. k < 63 \<and> bsize = 2 ^ k) \<longrightarrow>
      New bsize pt f wait opts h app = (Returned (Inl ErrInvalidBufferSize), h, app)) \<and>
    ((\<exists>k < 63. bsize = 2 ^ k) \<longrightarrow>
      New bsize pt None wait opts h app = (Returned (Inl ErrNilFactory), h, app) \<and>
      (\<forall>err. apply_options opts \<lparr>cfg_producerWait = ProducerWaitYielding\<rparr> = Inl err \<longrightarrow>
         New bsize pt (Some create) wait opts h app = (Returned (Inl err), h, app)) \<and>
      (\<forall>config es app'. apply_options opts \<lparr>cfg_producerWait = ProducerWaitYielding\<rparr> = Inr config \<and>
           make_entries (nat bsize) create app = (Returned es, app') \<longrightarrow>
         (if pt \<in> {SingleProducer, MultiProducer}
          then \<exists>ring h'. New bsize pt (Some create) wait opts h app = (Returned (Inr ring), h', app')
          else New bsize pt (Some create) wait opts h app = (Returned (Inl ErrInvalidProducerType), h, app'))))"
proof -
  have pow: "ring_size bsize \<longleftrightarrow> (\<exists>k < 63. bsize = 2 ^ k)"
    using ring_size_exp by (auto elim: ring_sizeE)
  note size = New_size_check [OF assms]
  show ?thesis
    unfolding pow [symmetric] using size
    by (auto simp: New_def split_def Let_def SingleProducer_def MultiProducer_def)
qed

text \<open>A factory of numbered entries, and the ring of four of them in both modes.\<close>

definition counting_factory :: "(int, int) EventFactory" where
  "counting_factory n = (Returned n, n + 1)"

theorem New_accepts_witness:
  "New 6 0 (Some counting_factory) None [] empty_heap 0 = (Returned (Inl ErrInvalidBufferSize), empty_heap, 0) \<and>
   New 4 7 (Some counting_factory) None [] empty_heap 0 = (Returned (Inl ErrInvalidProducerType), empty_heap, 4)"
proof -
  have no: "\<nexists>k. k < 63 \<and> (6 :: int) = 2 ^ k"
  proof
    assume "\<exists>k. k < 63 \<and> (6 :: int) = 2 ^ k"
    then have "ring_size 6" using ring_size_exp by metis
    moreover have "\<not> ring_size 6" by code_simp
    ultimately show False by simp
  qed
  have yes: "\<exists>k < 63. (4 :: int) = 2 ^ k" by (rule exI [of _ 2]) simp
  have es: "make_entries (nat 4) counting_factory 0 = (Returned [0, 1, 2, 3], 4)" by code_simp
  have pt: "(7 :: ProducerType) \<notin> {SingleProducer, MultiProducer}" by code_simp
  have i: "in_i64 6" "in_i64 4" by (simp_all add: in_i64_def)
  have op: "apply_options [] \<lparr>cfg_producerWait = ProducerWaitYielding\<rparr> = Inr \<lparr>cfg_producerWait = ProducerWaitYielding\<rparr>"
    by simp
  note rejected = New_accepts [OF i(1), THEN conjunct1, THEN mp, OF no]
  note accepted = New_accepts [OF i(2), THEN conjunct2, THEN mp, OF yes, THEN conjunct2, THEN conjunct2,
      rule_format, OF conjI [OF op es]]
  show ?thesis by (rule conjI [OF rejected]) (use accepted [of 7] pt in auto)
qed

text \<open>
  What \<open>New\<close> returns satisfies the invariants everything else starts from: one entry per slot, the
  right mask, the sequencer of the requested mode in its initial state, and nothing discarded.
\<close>

theorem New_establishes:
  assumes "in_i64 bsize" "New bsize pt (Some f) wait opts h app = (Returned (Inr ring), h', app')"
  shows "case ring of
      SingleRing r \<Rightarrow> pt = SingleProducer \<and> ring_wf bsize r \<and> methods r = singleSequencer \<and>
        \<not> rb_discarded r \<and> single_log_ok (h', sequencer r) \<and> nextValue (sequencer r) = -1
    | MultiRing r \<Rightarrow> pt = MultiProducer \<and> ring_wf bsize r \<and> methods r = multiSequencer \<and>
        \<not> rb_discarded r \<and> multi_ok (h', sequencer r) \<and> multi_claimed (h', sequencer r) = -1"
  using New_ring [OF assms] by auto

definition single_ring4 :: "(int, singleProducerSequencer) ring_state" where
  "single_ring4 =
     (let (s, h) = newSingleProducerSequencer 4 (Some YieldingWait) ProducerWaitYielding empty_heap
      in (h, \<lparr>entries = [0, 1, 2, 3], rb_indexMask = 3, methods = singleSequencer, sequencer = s,
             rb_discarded = False\<rparr>))"

lemma New_single_ring4:
  "New 4 SingleProducer (Some counting_factory) (Some YieldingWait) [] empty_heap 0 =
     (Returned (Inr (SingleRing (snd single_ring4))), fst single_ring4, 4)"
proof -
  have es: "make_entries (nat 4) counting_factory 0 = (Returned [0, 1, 2, 3], 4)" by code_simp
  have sz: "\<not> ((4 :: int) < 1 \<or> (4 :: int) AND i64 (4 - 1) \<noteq> 0)" and mask: "u64 (i64 (4 - 1)) = 3" by code_simp+
  show ?thesis
    using sz mask es by (simp add: New_def single_ring4_def split_def Let_def)
qed

theorem New_establishes_witness:
  "ring_wf 4 (snd single_ring4) \<and> single_log_ok (fst single_ring4, sequencer (snd single_ring4))"
proof -
  have "in_i64 4" by (simp add: in_i64_def)
  from New_establishes [OF this New_single_ring4] show ?thesis by simp
qed

text \<open>
  The entries a producer may write and a consumer may read at the same time are different objects:
  two sequences less than one ring apart share an entry only if they are equal.
\<close>

theorem Get_separates:
  assumes "ring_wf bsize r" "distinct (entries r)" "\<bar>p - q\<bar> < bsize"
  shows "Get r p = Get r q \<longleftrightarrow> p = q"
  using Get_distinct [OF assms] by blast

theorem Get_separates_witness: "Get (snd single_ring4) 5 \<noteq> Get (snd single_ring4) 8"
proof -
  have "ring_wf 4 (snd single_ring4)"
    using New_ring [OF _ New_single_ring4] by (simp add: in_i64_def)
  moreover have "distinct (entries (snd single_ring4))" by code_simp
  ultimately show ?thesis using Get_separates [of 4 "snd single_ring4" 5 8] by simp
qed


definition failing_translator :: "(int, int list) EventTranslator" where
  "failing_translator event q written =
     (if q = 1 then (Panicked (PanicError ErrClosed), written) else (Returned None, written @ [event]))"


end
