(* ===== verification/Processor.thy ===== *)
theory Processor
  imports Ring_Buffer
begin

text \<open>
  \<open>BatchProcessor\<close> of \<open>processor.go\<close>. Its \<open>state\<close> is shared with \<open>Halt\<close>, which other goroutines
  call, so it lives with the ring and the application state in the \<open>system\<close> record that the turns
  of a wait may change. Handlers are application code, like translators.
\<close>

section \<open>State and construction\<close>

type_synonym ('t, 's) EventHandler = "'t \<Rightarrow> int64 \<Rightarrow> bool \<Rightarrow> 's \<Rightarrow> error option outcome \<times> 's"

record processorConfig =
  cfg_maxBatchSize :: int64

type_synonym ProcessorOption = "processorConfig \<Rightarrow> error + processorConfig"

definition WithMaxBatchSize :: "int64 \<Rightarrow> ProcessorOption" where
  "WithMaxBatchSize bsize config =
     (if bsize < 1 then Inl ErrInvalidBatchSize else Inr (config\<lparr>cfg_maxBatchSize := bsize\<rparr>))"

datatype processorState = processorIdle | processorStarting | processorRunning | processorHalted

record ('t, 's) BatchProcessor =
  bp_barrier :: SequenceBarrier
  bp_handler :: "('t, 's) EventHandler"
  bp_sequence :: addr
  bp_maxBatchSize :: int64

record ('t, 'b, 's) system =
  sys_ring :: "('t, 'b) RingBuffer"
  sys_state :: processorState
  sys_app :: 's

type_synonym ('t, 'b, 's) world = "heap \<times> ('t, 'b, 's) system"

definition NewBatchProcessor ::
  "SequenceBarrier \<Rightarrow> ('t, 's) EventHandler option \<Rightarrow> ProcessorOption list \<Rightarrow> heap \<Rightarrow>
   (error + ('t, 's) BatchProcessor) \<times> heap"
where
  "NewBatchProcessor barrier handler options h =
     (case handler of
        None \<Rightarrow> (Inl ErrNilHandler, h)
      | Some handle \<Rightarrow>
          (case apply_options options \<lparr>cfg_maxBatchSize = MaxInt64\<rparr> of
             Inl err \<Rightarrow> (Inl err, h)
           | Inr config \<Rightarrow>
               (let (s, h1) = NewSequence InitialSequence h
                in (Inr \<lparr>bp_barrier = barrier, bp_handler = handle, bp_sequence = s,
                         bp_maxBatchSize = cfg_maxBatchSize config\<rparr>, h1))))"

definition Running :: "('t, 'b, 's) system \<Rightarrow> bool" where
  "Running w \<longleftrightarrow> sys_state w = processorRunning \<or> sys_state w = processorHalted"

section \<open>Batches\<close>

text \<open>A handler error or a recovered panic becomes an error that names the sequence.\<close>

definition handleEvent ::
  "('t, 'b) RingBuffer \<Rightarrow> ('t, 's) EventHandler \<Rightarrow> int64 \<Rightarrow> bool \<Rightarrow> 's \<Rightarrow> error option \<times> 's"
where
  "handleEvent r handler sequence endOfBatch app =
     (case handler (Get r sequence) sequence endOfBatch app of
        (Returned None, app1) \<Rightarrow> (None, app1)
      | (Returned (Some err), app1) \<Rightarrow> (Some (HandlerError sequence err), app1)
      | (Panicked v, app1) \<Rightarrow> (Some (HandlerPanicError sequence v), app1))"

text \<open>
  The two loops of \<open>processBatch\<close> over \<open>next\<close>, \<open>next + 1\<close>, up to \<open>end\<close>: the one without discards and the
  one that skips discarded sequences.
\<close>

fun plain_loop ::
  "('t, 'b) RingBuffer \<Rightarrow> ('t, 's) EventHandler \<Rightarrow> int64 list \<Rightarrow> int64 \<Rightarrow> 's \<Rightarrow> error option \<times> 's"
where
  "plain_loop r handler [] endSeq app = (None, app)"
| "plain_loop r handler (sequence # rest) endSeq app =
     (case handleEvent r handler sequence (sequence = endSeq) app of
        (Some err, app1) \<Rightarrow> (Some err, app1)
      | (None, app1) \<Rightarrow> plain_loop r handler rest endSeq app1)"

fun skipping_loop ::
  "('t, 'b) ring_state \<Rightarrow> ('t, 's) EventHandler \<Rightarrow> int64 list \<Rightarrow> int64 \<Rightarrow> 's \<Rightarrow> error option \<times> 's"
where
  "skipping_loop hr handler [] lastDelivered app = (None, app)"
| "skipping_loop hr handler (sequence # rest) lastDelivered app =
     (if IsDiscarded sequence hr then skipping_loop hr handler rest lastDelivered app
      else case handleEvent (snd hr) handler sequence (sequence = lastDelivered) app of
        (Some err, app1) \<Rightarrow> (Some err, app1)
      | (None, app1) \<Rightarrow> skipping_loop hr handler rest lastDelivered app1)"

function last_delivered :: "('t, 'b) ring_state \<Rightarrow> int64 \<Rightarrow> int64 \<Rightarrow> int64" where
  "last_delivered hr next lastDelivered =
     (if next \<le> lastDelivered \<and> IsDiscarded lastDelivered hr
      then last_delivered hr next (lastDelivered - 1) else lastDelivered)"
  by pat_completeness auto
termination
  by (relation "measure (\<lambda>(hr, next, lastDelivered). nat (lastDelivered - next + 1))") auto

declare last_delivered.simps [simp del]

definition processBatch ::
  "('t, 'b) ring_state \<Rightarrow> ('t, 's) EventHandler \<Rightarrow> int64 \<Rightarrow> int64 \<Rightarrow> 's \<Rightarrow> error option \<times> 's"
where
  "processBatch hr handler next endSeq app =
     (if \<not> hasDiscardedClaims (snd hr) then plain_loop (snd hr) handler [next..endSeq] endSeq app
      else skipping_loop hr handler [next..endSeq] (last_delivered hr next endSeq) app)"

section \<open>Run and Halt\<close>

definition set_state :: "processorState \<Rightarrow> ('t, 'b, 's) world \<Rightarrow> ('t, 'b, 's) world" where
  "set_state st w = (fst w, (snd w)\<lparr>sys_state := st\<rparr>)"

definition batch_end :: "int64 \<Rightarrow> int64 \<Rightarrow> int64 \<Rightarrow> int64" where
  "batch_end maxBatch next avail =
     (if i64 (i64 (avail - next) + 1) > maxBatch then i64 (i64 (next + maxBatch) - 1) else avail)"

definition world_highest ::
  "int64 \<Rightarrow> int64 \<Rightarrow> ('t, 'b, 's) world \<Rightarrow> int64"
where
  "world_highest lower avail w =
     (let (h, y) = w; r = sys_ring y in seq_HighestPublished (methods r) lower avail (h, sequencer r))"

text \<open>
  The loop of \<open>Run\<close>. Each iteration takes one turn for its look at the context and then the turns
  its wait uses.
\<close>

function Run_loop ::
  "('t, 's) BatchProcessor \<Rightarrow> ('t, 'b, 's) system turns \<Rightarrow> int64 \<Rightarrow> ('t, 'b, 's) world \<Rightarrow>
   (error option \<times> ('t, 'b, 's) system turns \<times> ('t, 'b, 's) world) option"
where
  "Run_loop p [] next w = None"
| "Run_loop p (t # ts) next w =
     (let w1 = t_pre t w in
      case t_ctx t of
        Some err \<Rightarrow> Some (Some err, ts, w1)
      | None \<Rightarrow>
          (case SequenceBarrier_WaitFor world_highest (bp_barrier p) ts next w1 of
             None \<Rightarrow> None
           | Some (Inl err, ts', h, y) \<Rightarrow>
               if errors_Is err ErrAlerted \<and> sys_state y = processorHalted
               then Some (None, ts', h, y) else Some (Some err, ts', h, y)
           | Some (Inr avail, ts', h, y) \<Rightarrow>
               (let endSeq = batch_end (bp_maxBatchSize p) next avail;
                    (res, app1) = processBatch (h, sys_ring y) (bp_handler p) next endSeq (sys_app y);
                    y1 = y\<lparr>sys_app := app1\<rparr> in
                case res of
                  Some err \<Rightarrow> Some (Some err, ts', h, y1)
                | None \<Rightarrow>
                    Run_loop p ts' (i64 (endSeq + 1)) (Sequence_Store (bp_sequence p) endSeq h, y1))))"
  by pat_completeness auto
termination
  by (relation "measure (\<lambda>(p, ts, next, w). length ts)") (auto dest: WaitFor_turns)

text \<open>
  \<open>Run\<close>: the first turn covers the start, where \<open>Halt\<close> may come between the two
  compare-and-swaps; the store of \<open>processorIdle\<close> is deferred.
\<close>

fun Run ::
  "('t, 's) BatchProcessor \<Rightarrow> ('t, 'b, 's) system turns \<Rightarrow> ('t, 'b, 's) world \<Rightarrow>
   (error option \<times> ('t, 'b, 's) system turns \<times> ('t, 'b, 's) world) option"
where
  "Run p [] w = None"
| "Run p (t # ts) w =
     (let w0 = t_pre t w in
      if sys_state (snd w0) \<noteq> processorIdle then Some (Some ErrAlreadyRunning, ts, w0)
      else
        (let (h1, y1) = t_mid t (set_state processorStarting w0);
             (h2, y2) = t_park t (SequenceBarrier_ClearAlert (bp_barrier p) h1, y1) in
         if sys_state y2 \<noteq> processorStarting then Some (None, ts, set_state processorIdle (h2, y2))
         else
           (case Run_loop p ts (i64 (Sequence_Load (bp_sequence p) h2 + 1))
                   (set_state processorRunning (h2, y2)) of
              None \<Rightarrow> None
            | Some (res, ts', w') \<Rightarrow> Some (res, ts', set_state processorIdle w'))))"

text \<open>
  \<open>Halt\<close>: its compare-and-swap is retried until it succeeds on the state it read, and that success
  is one step; the alert is a second step, \<open>None\<close> when nothing is left to do.
\<close>

definition Halt_swap :: "('t, 'b, 's) world \<Rightarrow> bool \<times> ('t, 'b, 's) world" where
  "Halt_swap w =
     (case sys_state (snd w) of
        processorIdle \<Rightarrow> (False, w)
      | processorHalted \<Rightarrow> (False, w)
      | processorStarting \<Rightarrow> (True, set_state processorHalted w)
      | processorRunning \<Rightarrow> (True, set_state processorHalted w))"

definition Halt :: "('t, 's) BatchProcessor \<Rightarrow> ('t, 'b, 's) world \<Rightarrow> ('t, 'b, 's) world" where
  "Halt p w =
     (case Halt_swap w of
        (False, w1) \<Rightarrow> w1
      | (True, h1, y1) \<Rightarrow> (SequenceBarrier_Alert (bp_barrier p) h1, y1))"

section \<open>What a batch delivers\<close>

text \<open>
  The reference: call the handler on the listed sequences in order and stop at the first failure.
  A batch is the sequences that are not skipped, the last of which ends the batch.
\<close>

fun deliver ::
  "('t, 'b) RingBuffer \<Rightarrow> ('t, 's) EventHandler \<Rightarrow> (int64 \<times> bool) list \<Rightarrow> 's \<Rightarrow> error option \<times> 's"
where
  "deliver r handler [] app = (None, app)"
| "deliver r handler ((q, eob) # rest) app =
     (case handleEvent r handler q eob app of
        (Some err, app1) \<Rightarrow> (Some err, app1)
      | (None, app1) \<Rightarrow> deliver r handler rest app1)"

definition delivered :: "(int64 \<Rightarrow> bool) \<Rightarrow> int64 \<Rightarrow> int64 \<Rightarrow> int64 list" where
  "delivered skip low high = filter (\<lambda>q. \<not> skip q) [low..high]"

definition batch_events :: "(int64 \<Rightarrow> bool) \<Rightarrow> int64 \<Rightarrow> int64 \<Rightarrow> (int64 \<times> bool) list" where
  "batch_events skip low high =
     (let qs = delivered skip low high in map (\<lambda>q. (q, q = last qs)) qs)"

definition skipped :: "('t, 'b) ring_state \<Rightarrow> int64 \<Rightarrow> bool" where
  "skipped hr q \<longleftrightarrow> hasDiscardedClaims (snd hr) \<and> IsDiscarded q hr"

lemma plain_loop_deliver:
  "plain_loop r handler qs e app = deliver r handler (map (\<lambda>q. (q, q = e)) qs) app"
  by (induction qs arbitrary: app) (auto split: prod.splits option.splits)

lemma skipping_loop_deliver:
  "skipping_loop hr handler qs l app =
   deliver (snd hr) handler (map (\<lambda>q. (q, q = l)) (filter (\<lambda>q. \<not> IsDiscarded q hr) qs)) app"
  by (induction qs arbitrary: app) (auto split: prod.splits option.splits)

lemma delivered_snoc:
  "low \<le> high \<Longrightarrow> delivered skip low high =
     delivered skip low (high - 1) @ (if skip high then [] else [high])"
  by (simp add: delivered_def upto_rec2)

lemma delivered_append:
  "low - 1 \<le> m \<Longrightarrow> m \<le> high \<Longrightarrow> delivered skip low high = delivered skip low m @ delivered skip (m + 1) high"
proof (cases "low \<le> m")
  case True
  then show "m \<le> high \<Longrightarrow> ?thesis" by (simp add: delivered_def upto_split2 [of low m high])
next
  case False
  assume "low - 1 \<le> m"
  with False have "m = low - 1" by simp
  then show ?thesis by (simp add: delivered_def)
qed

lemma last_delivered_last:
  assumes "delivered (\<lambda>q. IsDiscarded q hr) next e \<noteq> []"
  shows "last_delivered hr next e = last (delivered (\<lambda>q. IsDiscarded q hr) next e)"
  using assms
proof (induction "nat (e - next + 1)" arbitrary: e)
  case 0
  then show ?case by (simp add: delivered_def)
next
  case (Suc n)
  then have le: "next \<le> e" by simp
  show ?case
  proof (cases "IsDiscarded e hr")
    case True
    with Suc le delivered_snoc [OF le, of "\<lambda>q. IsDiscarded q hr"] show ?thesis
      by (simp add: last_delivered.simps [of hr "next" e])
  next
    case False
    with delivered_snoc [OF le, of "\<lambda>q. IsDiscarded q hr"] show ?thesis
      by (simp add: last_delivered.simps [of hr "next" e])
  qed
qed

lemma processBatch_deliver:
  "processBatch hr handler low high app = deliver (snd hr) handler (batch_events (skipped hr) low high) app"
proof (cases "hasDiscardedClaims (snd hr)")
  case True
  let ?qs = "delivered (\<lambda>q. IsDiscarded q hr) low high"
  have d: "delivered (skipped hr) low high = ?qs" using True by (simp add: delivered_def skipped_def)
  have "batch_events (skipped hr) low high = map (\<lambda>q. (q, q = last_delivered hr low high)) ?qs"
    unfolding batch_events_def Let_def d by (cases "?qs = []") (simp_all add: last_delivered_last)
  with True show ?thesis
    by (simp add: processBatch_def skipping_loop_deliver delivered_def)
next
  case False
  have d: "delivered (skipped hr) low high = [low..high]" using False by (simp add: delivered_def skipped_def)
  have "last [low..high] = high" if "low \<le> high" using that by (simp add: upto_rec2)
  then have "batch_events (skipped hr) low high = map (\<lambda>q. (q, q = high)) [low..high]"
    unfolding batch_events_def Let_def d by auto
  with False show ?thesis
    by (simp add: processBatch_def plain_loop_deliver)
qed

text \<open>A failure names the sequence whose handler call failed.\<close>

definition failure_at :: "int64 \<Rightarrow> error \<Rightarrow> bool" where
  "failure_at q err \<longleftrightarrow> (\<exists>e. err = HandlerError q e) \<or> (\<exists>v. err = HandlerPanicError q v)"

lemma handleEvent_failure: "handleEvent r handler q eob app = (Some err, app') \<Longrightarrow> failure_at q err"
  by (auto simp: handleEvent_def failure_at_def split: prod.splits outcome.splits option.splits)

text \<open>Any handler, made to write down the calls it gets.\<close>

definition logged ::
  "('t, 's) EventHandler \<Rightarrow> ('t, 's \<times> (int64 \<times> bool) list) EventHandler"
where
  "logged handler event q eob = (\<lambda>(app, log).
     let (res, app') = handler event q eob app in (res, app', log @ [(q, eob)]))"

lemma handleEvent_logged:
  "handleEvent r (logged handler) q eob (a, log) = (res, a', log') \<Longrightarrow> log' = log @ [(q, eob)]"
  by (auto simp: handleEvent_def logged_def Let_def split: prod.splits outcome.splits option.splits)

lemma deliver_logged:
  assumes "deliver r (logged handler) evs (a, log) = (res, a', log')"
  shows "case res of None \<Rightarrow> log' = log @ evs
    | Some err \<Rightarrow> \<exists>pre q eob post. evs = pre @ (q, eob) # post \<and> log' = log @ pre @ [(q, eob)] \<and> failure_at q err"
  using assms
proof (induction evs arbitrary: a log)
  case (Cons ev evs)
  obtain q eob where ev: "ev = (q, eob)" by (cases ev)
  obtain r1 a1 log1 where he: "handleEvent r (logged handler) q eob (a, log) = (r1, a1, log1)"
    by (metis surj_pair)
  note l = handleEvent_logged [OF he]
  show ?case
  proof (cases r1)
    case None
    with Cons.prems ev he have "deliver r (logged handler) evs (a1, log1) = (res, a', log')" by simp
    from Cons.IH [OF this] l ev show ?thesis
      by (auto split: option.splits)
  next
    case (Some err)
    with Cons.prems ev he l handleEvent_failure [of r "logged handler" q eob] show ?thesis
      by (auto split: option.splits)
  qed
qed simp

lemma batch_end_bounds:
  assumes "0 \<le> low" "low - 1 \<le> avail" "avail < 2 ^ 63 - 1" "1 \<le> n"
  shows "low - 1 \<le> batch_end n low avail" "batch_end n low avail \<le> avail"
    "batch_end n low avail - low + 1 \<le> n" "low \<le> avail \<Longrightarrow> low \<le> batch_end n low avail"
proof -
  have i: "i64 (i64 (avail - low) + 1) = avail - low + 1"
    using assms by (simp add: i64_id)
  have j: "i64 (i64 (low + n) - 1) = low + n - 1" if "n < avail - low + 1"
    using assms that by (simp add: i64_id)
  show "low - 1 \<le> batch_end n low avail" "batch_end n low avail \<le> avail"
    "batch_end n low avail - low + 1 \<le> n" "low \<le> avail \<Longrightarrow> low \<le> batch_end n low avail"
    using assms i j by (auto simp: batch_end_def)
qed

section \<open>What a run delivers\<close>

text \<open>
  The acknowledged position and the application state, which only the processor itself changes, and
  what a run may rely on: the invariant \<open>I\<close> holds whatever other goroutines do, it fixes which of
  the sequences handed out next are skipped, and it is kept when the processor acknowledges them.
\<close>

definition run_view :: "('t, 's) BatchProcessor \<Rightarrow> ('t, 'b, 's) world \<Rightarrow> int64 \<times> 's" where
  "run_view p w = (Sequence_Load (bp_sequence p) (fst w), sys_app (snd w))"

definition run_rely ::
  "('t, 's) BatchProcessor \<Rightarrow> (int64 \<Rightarrow> bool) \<Rightarrow> (('t, 'b, 's) world \<Rightarrow> bool) \<Rightarrow> bool"
where
  "run_rely p skip I \<longleftrightarrow>
     (\<forall>h y. I (h, y) \<longrightarrow> (\<forall>a. I (h, y\<lparr>sys_app := a\<rparr>)) \<and>
        (let low = Sequence_Load (bp_sequence p) h + 1;
             dep = sequenceReader_Load (sb_dependent (bp_barrier p)) h;
             avail = world_highest low dep (h, y)
         in low \<le> dep \<longrightarrow>
              low - 1 \<le> avail \<and> avail \<le> dep \<and> avail < 2 ^ 63 - 1 \<and>
              (\<forall>q. low \<le> q \<and> q \<le> avail \<longrightarrow> skipped (h, sys_ring y) q = skip q) \<and>
              (\<forall>v a. low - 1 \<le> v \<and> v \<le> avail \<longrightarrow>
                 I (Sequence_Store (bp_sequence p) v h, y\<lparr>sys_app := a\<rparr>))))"

text \<open>
  How a run ends: everything acknowledged was delivered, in order and once, and nothing else was,
  except that a handler failure stops inside a batch that stays unacknowledged. \<open>limit\<close> is what the
  barrier let through.
\<close>

definition exact_run ::
  "(int64 \<Rightarrow> bool) \<Rightarrow> int64 \<Rightarrow> int64 \<Rightarrow> (int64 \<times> bool) list \<Rightarrow> error option \<Rightarrow> int64 \<Rightarrow>
   (int64 \<times> bool) list \<Rightarrow> bool"
where
  "exact_run skip low limit log res acked log' \<longleftrightarrow>
     low - 1 \<le> acked \<and>
     (map fst log' = map fst log @ delivered skip low acked \<or>
      (\<exists>q err. res = Some err \<and> failure_at q err \<and> acked < q \<and> q \<le> limit \<and> \<not> skip q \<and>
         map fst log' = map fst log @ delivered skip low q))"

lemma exact_run_extend:
  assumes "exact_run skip (m + 1) limit log1 res acked log'" "low - 1 \<le> m"
    and "map fst log1 = map fst log @ delivered skip low m"
  shows "exact_run skip low limit log res acked log'"
proof -
  have ack: "m \<le> acked" using assms(1) by (simp add: exact_run_def)
  have d: "map fst log @ delivered skip low k = map fst log1 @ delivered skip (m + 1) k" if "m \<le> k" for k
    using delivered_append [OF assms(2) that, of skip] assms(3) by simp
  from assms(1) consider "map fst log' = map fst log1 @ delivered skip (m + 1) acked"
    | q err where "res = Some err" "failure_at q err" "acked < q" "q \<le> limit" "\<not> skip q"
      "map fst log' = map fst log1 @ delivered skip (m + 1) q"
    unfolding exact_run_def by blast
  then show ?thesis
  proof cases
    case 1
    with d [OF ack] ack assms(2) show ?thesis by (simp add: exact_run_def)
  next
    case 2
    from 2(3) ack have "m \<le> q" by simp
    from d [OF this] 2 ack assms(2) show ?thesis unfolding exact_run_def by auto
  qed
qed

lemma map_fst_batch_events: "map fst (batch_events skip low high) = delivered skip low high"
  by (simp add: batch_events_def Let_def comp_def)

lemma delivered_cong:
  "(\<And>q. low \<le> q \<Longrightarrow> q \<le> high \<Longrightarrow> f q = g q) \<Longrightarrow> delivered f low high = delivered g low high"
  unfolding delivered_def by (rule filter_cong) auto

lemma delivered_prefix:
  assumes "delivered skip low high = pre @ q # post"
  shows "low \<le> q \<and> q \<le> high \<and> \<not> skip q \<and> delivered skip low q = pre @ [q]"
proof -
  have q: "q \<in> set (delivered skip low high)" using assms by simp
  then have b: "low \<le> q" "q \<le> high" "\<not> skip q" by (auto simp: delivered_def)
  have eq: "delivered skip low high = delivered skip low (q - 1) @ q # delivered skip (q + 1) high"
    using delivered_append [of low q high skip] delivered_snoc [of low q skip] b by simp
  have "q \<notin> set (delivered skip low (q - 1))" "q \<notin> set (delivered skip (q + 1) high)"
    by (simp_all add: delivered_def)
  from append_Cons_eq_iff [OF this, of pre post] eq assms have "pre = delivered skip low (q - 1)" by simp
  with b delivered_snoc [of low q skip] show ?thesis by simp
qed

text \<open>One batch of a logged handler.\<close>

lemma processBatch_logged:
  assumes "processBatch hr (logged handler) low high (a, log) = (res, a', log')"
    and skip: "\<And>q. low \<le> q \<Longrightarrow> q \<le> high \<Longrightarrow> skipped hr q = skip q"
  shows "(res = None \<longrightarrow> map fst log' = map fst log @ delivered skip low high) \<and>
    (\<forall>err. res = Some err \<longrightarrow> (\<exists>q. failure_at q err \<and> low \<le> q \<and> q \<le> high \<and> \<not> skip q \<and>
       map fst log' = map fst log @ delivered skip low q))"
proof -
  let ?evs = "batch_events (skipped hr) low high"
  have fst_evs: "map fst ?evs = delivered skip low high"
    using map_fst_batch_events delivered_cong [of low high "skipped hr" skip] skip by metis
  from assms(1) have "deliver (snd hr) (logged handler) ?evs (a, log) = (res, a', log')"
    by (simp add: processBatch_deliver)
  note d = deliver_logged [OF this]
  show ?thesis
  proof (cases res)
    case None
    with d fst_evs show ?thesis by simp
  next
    case (Some err)
    with d obtain pre q eob post where "?evs = pre @ (q, eob) # post" "log' = log @ pre @ [(q, eob)]"
      "failure_at q err" by auto
    moreover from this(1) fst_evs have "delivered skip low high = map fst pre @ q # map fst post"
      by (metis list.simps(9) map_append fst_conv)
    ultimately show ?thesis using delivered_prefix [of skip low high "map fst pre" q] Some by auto
  qed
qed

definition run_limit :: "('t, 's) BatchProcessor \<Rightarrow> ('t, 'b, 's) world \<Rightarrow> int64" where
  "run_limit p w = sequenceReader_Load (sb_dependent (bp_barrier p)) (fst w)"

text \<open>One successful batch: what is acknowledged is what was delivered, and the run goes on after it.\<close>

lemma run_batch:
  assumes p: "bp_handler p = logged handler" "1 \<le> bp_maxBatchSize p" "run_rely p skip I"
    and I: "I (h, y)" and view: "run_view p (h, y) = (low - 1, a, log)" and low: "0 \<le> low"
    and av: "low \<le> sequenceReader_Load (sb_dependent (bp_barrier p)) h"
      "avail = world_highest low (sequenceReader_Load (sb_dependent (bp_barrier p)) h) (h, y)"
    and e: "e = batch_end (bp_maxBatchSize p) low avail"
    and pb: "processBatch (h, sys_ring y) (bp_handler p) low e (sys_app y) = (res, a', log')"
  shows "low - 1 \<le> e \<and> i64 (e + 1) = e + 1 \<and>
    I (Sequence_Store (bp_sequence p) e h, y\<lparr>sys_app := (a', log')\<rparr>) \<and>
    (case res of
       Some err \<Rightarrow> exact_run skip low (sequenceReader_Load (sb_dependent (bp_barrier p)) h) log (Some err) (low - 1) log'
     | None \<Rightarrow> map fst log' = map fst log @ delivered skip low e)"
proof -
  have low1: "Sequence_Load (bp_sequence p) h + 1 = low" using view by (simp add: run_view_def)
  have b: "low - 1 \<le> avail" "avail < 2 ^ 63 - 1"
    and dep: "avail \<le> sequenceReader_Load (sb_dependent (bp_barrier p)) h"
    and sk: "\<And>q. low \<le> q \<Longrightarrow> q \<le> avail \<Longrightarrow> skipped (h, sys_ring y) q = skip q"
    and keep: "\<And>v a. low - 1 \<le> v \<Longrightarrow> v \<le> avail \<Longrightarrow>
      I (Sequence_Store (bp_sequence p) v h, y\<lparr>sys_app := a\<rparr>)"
    using p(3) [unfolded run_rely_def Let_def, rule_format, OF I, unfolded low1, THEN conjunct2, rule_format,
        OF av(1), folded av(2)] by blast+
  note be = batch_end_bounds [OF low b p(2)]
  have "i64 (e + 1) = e + 1" using be(1,2) b low e by (intro i64_id) auto
  moreover have "processBatch (h, sys_ring y) (logged handler) low e (a, log) = (res, a', log')"
    using pb p(1) view by (simp add: run_view_def)
  from processBatch_logged [OF this, of skip] sk be(2) e
  have "(res = None \<longrightarrow> map fst log' = map fst log @ delivered skip low e) \<and>
    (\<forall>err. res = Some err \<longrightarrow> (\<exists>q. failure_at q err \<and> low \<le> q \<and> q \<le> e \<and> \<not> skip q \<and>
       map fst log' = map fst log @ delivered skip low q))" by auto
  moreover have "exact_run skip low (sequenceReader_Load (sb_dependent (bp_barrier p)) h) log (Some err) (low - 1) log'"
    if "failure_at q err" "low \<le> q" "q \<le> e" "\<not> skip q" "map fst log' = map fst log @ delivered skip low q" for q err
    using that be(2) dep e unfolding exact_run_def by fastforce
  ultimately show ?thesis using be(1,2) e keep [of e "(a', log')"] by (cases res) auto
qed

lemma Run_loop_exact:
  assumes "bp_handler p = logged handler" "1 \<le> bp_maxBatchSize p" "run_rely p skip I"
    and "Run_loop p ts low w = Some (res, ts', w')"
    and "\<forall>t \<in> set ts. harmless I (run_view p) t" "I w"
    and "run_view p w = (low - 1, a, log)" "0 \<le> low"
  shows "I w' \<and> (\<exists>acked a' log'. run_view p w' = (acked, a', log') \<and>
    exact_run skip low (run_limit p w') log res acked log')"
  using assms
proof (induction "length ts" arbitrary: ts low w a log rule: less_induct)
  case less
  note p = less(2,3,4)
  from less(5) obtain t us where ts_eq: "ts = t # us" by (cases ts) auto
  note run = less(5) [unfolded ts_eq] and ts = less(6) [unfolded ts_eq] and I = less(7)
    and view = less(8) and low = less(9)
  define w1 where "w1 = t_pre t w"
  have I1: "I w1" and v1: "run_view p w1 = (low - 1, a, log)"
    using harmless_steps(1,2) [of I "run_view p" t w] ts I view by (simp_all add: w1_def)
  have nil: "exact_run skip low b log r (low - 1) log" for r b by (simp add: exact_run_def delivered_def)
  show ?case
  proof (cases "t_ctx t")
    case (Some err)
    with run I1 v1 nil show ?thesis by (auto simp: w1_def)
  next
    case None
    then obtain r ts1 h y where wf: "SequenceBarrier_WaitFor world_highest (bp_barrier p) us low w1 =
        Some (r, ts1, h, y)"
      using run by (auto simp: w1_def split: option.splits)
    have k: "set ts1 \<subseteq> set us" "I (h, y)" "run_view p (h, y) = (low - 1, a, log)"
      using WaitFor_kept [OF wf, of I "run_view p"] ts I1 v1 by (simp_all add: kept_def)
    show ?thesis
    proof (cases r)
      case (Inl err)
      with run None wf k(2,3) nil show ?thesis by (auto simp: w1_def split: if_splits)
    next
      case (Inr avail)
      define e where "e = batch_end (bp_maxBatchSize p) low avail"
      obtain res1 a1 log1 where pb:
        "processBatch (h, sys_ring y) (bp_handler p) low e (sys_app y) = (res1, a1, log1)"
        by (metis surj_pair)
      have wr: "low \<le> sequenceReader_Load (sb_dependent (bp_barrier p)) h"
        "avail = world_highest low (sequenceReader_Load (sb_dependent (bp_barrier p)) h) (h, y)"
        using WaitFor_result [OF wf [unfolded Inr]] by simp_all
      note step = run_batch [OF p k(2,3) low wr e_def pb]
      show ?thesis
      proof (cases res1)
        case (Some err)
        moreover have "I (h, y\<lparr>sys_app := (a1, log1)\<rparr>)" using p(3) k(2) by (simp add: run_rely_def)
        ultimately show ?thesis using run None wf Inr pb step k(3)
          by (auto simp: w1_def e_def run_view_def run_limit_def)
      next
        case N: None
        let ?w = "(Sequence_Store (bp_sequence p) e h, y\<lparr>sys_app := (a1, log1)\<rparr>)"
        have rec: "Run_loop p ts1 (e + 1) ?w = Some (res, ts', w')"
          using run None wf Inr pb N step by (simp add: w1_def e_def Let_def)
        have "I ?w" using step by simp
        moreover have "run_view p ?w = (e + 1 - 1, a1, log1)" by (simp add: run_view_def heap_simps)
        moreover have "\<forall>t \<in> set ts1. harmless I (run_view p) t" using ts k(1) by auto
        moreover have "0 \<le> e + 1" using step low by simp
        ultimately obtain acked a' log' where "run_view p w' = (acked, a', log')"
          "exact_run skip (e + 1) (run_limit p w') log1 res acked log'" "I w'"
          using less(1) [OF _ p rec] WaitFor_turns [OF wf] by (auto simp: ts_eq)
        then show ?thesis using exact_run_extend [of skip e _ log1 res acked log' low log] step N by auto
      qed
    qed
  qed
qed

section \<open>Starting, stopping and restarting\<close>

text \<open>The two writes of \<open>Run\<close> outside the loop, which the invariant of a whole run has to survive.\<close>

definition start_rely ::
  "('t, 's) BatchProcessor \<Rightarrow> (('t, 'b, 's) world \<Rightarrow> bool) \<Rightarrow> bool"
where
  "start_rely p I \<longleftrightarrow>
     (\<forall>h y. I (h, y) \<longrightarrow> I (SequenceBarrier_ClearAlert (bp_barrier p) h, y) \<and>
        (\<forall>st. I (h, y\<lparr>sys_state := st\<rparr>)))"

lemma run_view_frame [simp]:
  "run_view p (set_state st w) = run_view p w"
  "run_view p (SequenceBarrier_ClearAlert b h, y) = run_view p (h, y)"
  "run_view p (SequenceBarrier_Alert b h, y) = run_view p (h, y)"
  by (simp_all add: run_view_def set_state_def SequenceBarrier_ClearAlert_def
      SequenceBarrier_Alert_def heap_simps)

lemma run_view_Halt [simp]: "run_view p (Halt p w) = run_view p w"
  by (cases w) (simp add: Halt_def Halt_swap_def set_state_def run_view_def SequenceBarrier_Alert_def
      heap_simps split: processorState.splits)

lemma Run_exact:
  assumes p: "bp_handler p = logged handler" "1 \<le> bp_maxBatchSize p"
    and rely: "run_rely p skip I" "start_rely p I"
    and run: "Run p ts w = Some (res, ts', w')"
    and env: "\<forall>t \<in> set ts. harmless I (run_view p) t" and I: "I w"
    and view: "run_view p w = (n, a, log)" and n: "-1 \<le> n" "n < 2 ^ 63 - 1"
  shows "I w' \<and> (\<exists>acked a' log'. run_view p w' = (acked, a', log') \<and>
    exact_run skip (n + 1) (run_limit p w') log res acked log')"
proof -
  from run obtain t us where ts: "ts = t # us" by (cases ts) auto
  define w0 where "w0 = t_pre t w"
  obtain h1 y1 where m: "t_mid t (set_state processorStarting w0) = (h1, y1)" by fastforce
  obtain h2 y2 where k: "t_park t (SequenceBarrier_ClearAlert (bp_barrier p) h1, y1) = (h2, y2)" by fastforce
  have ht: "harmless I (run_view p) t" using env ts by simp
  have st: "I (set_state s v)" if "I v" for s v
    using rely(2) that by (cases v) (simp add: start_rely_def set_state_def)
  have v0: "I w0" "run_view p w0 = (n, a, log)"
    using harmless_steps(1,2) [OF ht I] view by (simp_all add: w0_def)
  have v1: "I (h1, y1)" "run_view p (h1, y1) = (n, a, log)"
    using harmless_steps(3,4) [OF ht st [OF v0(1), of processorStarting]] v0(2) by (simp_all add: m)
  have "I (SequenceBarrier_ClearAlert (bp_barrier p) h1, y1)"
    using rely(2) v1(1) by (simp add: start_rely_def)
  then have v2: "I (h2, y2)" "run_view p (h2, y2) = (n, a, log)"
    using harmless_steps(5,6) [OF ht] v1(2) k by force+
  have nil: "exact_run skip (n + 1) b log r n log" for r b by (simp add: exact_run_def delivered_def)
  consider (busy) "sys_state (snd w0) \<noteq> processorIdle"
    | (halted) "sys_state (snd w0) = processorIdle" "sys_state y2 \<noteq> processorStarting"
    | (runs) "sys_state (snd w0) = processorIdle" "sys_state y2 = processorStarting" by blast
  then show ?thesis
  proof cases
    case busy
    with run v0 nil show ?thesis by (auto simp: ts w0_def Let_def)
  next
    case halted
    with run m k have "w' = set_state processorIdle (h2, y2)" by (simp add: ts w0_def [symmetric])
    with v2 nil st [OF v2(1)] show ?thesis by auto
  next
    case runs
    have "i64 (Sequence_Load (bp_sequence p) h2 + 1) = n + 1"
      using v2(2) n by (simp add: run_view_def i64_id)
    with runs run m k obtain us' w2 where
      loop: "Run_loop p us (n + 1) (set_state processorRunning (h2, y2)) = Some (res, us', w2)"
      and w': "w' = set_state processorIdle w2"
      by (auto simp: ts w0_def [symmetric] split: option.splits)
    have "I w2 \<and> (\<exists>acked a' log'. run_view p w2 = (acked, a', log') \<and>
        exact_run skip (n + 1) (run_limit p w2) log res acked log')"
      using Run_loop_exact [OF p rely(1) loop _ st [OF v2(1)]] env ts v2(2) n by simp
    moreover have "run_limit p w' = run_limit p w2" by (simp add: w' run_limit_def set_state_def split_def)
    ultimately show ?thesis using w' st by auto
  qed
qed

lemma Run_idle_after:
  assumes "Run p ts w = Some (res, ts', w')" "res \<noteq> Some ErrAlreadyRunning"
  shows "sys_state (snd w') = processorIdle"
  using assms by (cases ts)
    (auto simp: Let_def set_state_def split: if_splits option.splits prod.splits)

lemma Run_exclusive:
  assumes "sys_state (snd w) \<noteq> processorIdle" "t_pre t = id"
  shows "Run p (t # ts) w = Some (Some ErrAlreadyRunning, ts, w)"
  using assms by simp

lemma Halt_state:
  "sys_state (snd (Halt p w)) =
     (if sys_state (snd w) = processorIdle then processorIdle else processorHalted)"
  by (cases w) (auto simp: Halt_def Halt_swap_def set_state_def split: processorState.splits)

lemma Halt_alerts:
  "sys_state (snd w) \<in> {processorStarting, processorRunning} \<Longrightarrow>
   SequenceBarrier_IsAlerted (bp_barrier p) (fst (Halt p w))"
  by (cases w) (auto simp: Halt_def Halt_swap_def set_state_def Alert_alerted)

text \<open>A \<open>Halt\<close> before the next wait ends the run without error, and without another batch.\<close>

lemma Halt_while_running:
  assumes "sys_state (snd w) = processorRunning" "t_pre t = Halt p" "t_ctx t = None"
  shows "Run_loop p (t # ts) low w = Some (None, ts, Halt p w)"
proof -
  obtain h y where w: "w = (h, y)" by (cases w)
  have h: "Halt p w = (SequenceBarrier_Alert (bp_barrier p) h, y\<lparr>sys_state := processorHalted\<rparr>)"
    using assms(1) by (simp add: w Halt_def Halt_swap_def set_state_def)
  have "flags (SequenceBarrier_Alert (bp_barrier p) h) (sb_alerted (bp_barrier p))"
    using Alert_alerted [of "bp_barrier p" h] by (simp add: SequenceBarrier_IsAlerted_def)
  with assms(2,3) h show ?thesis by (simp add: SequenceBarrier_WaitFor_def Let_def)
qed

section \<open>Properties\<close>

text \<open>
  C11. \<open>processBatch\<close> with its two loops and its backward scan does what the reference does: it calls the
  handler on the sequences of the batch that are not discarded, in order, marks the last of them and only
  it as the end of the batch, and stops at the first failure.
\<close>

theorem processBatch_equivalent:
  "processBatch hr handler low high app =
     (let qs = filter (\<lambda>q. \<not> (hasDiscardedClaims (snd hr) \<and> IsDiscarded q hr)) [low..high]
      in deliver (snd hr) handler (map (\<lambda>q. (q, q = last qs)) qs) app)"
  by (simp add: processBatch_deliver batch_events_def delivered_def skipped_def Let_def)

text \<open>
  C25. A \<open>Halt\<close> that arrives while \<open>Run\<close> is starting is not lost, although \<open>Run\<close> clears the alert: whether
  it comes before or after the alert is cleared, \<open>Run\<close> returns without error and without handling anything.
\<close>

theorem Halt_while_starting:
  assumes "sys_state (snd w) = processorIdle" "t_pre t = id"
    and "t_mid t = Halt p \<and> t_park t = id \<or> t_mid t = id \<and> t_park t = Halt p"
  shows "\<exists>w'. Run p (t # ts) w = Some (None, ts, w') \<and> run_view p w' = run_view p w \<and>
    sys_state (snd w') = processorIdle"
proof -
  obtain h y where w: "w = (h, y)" by (cases w)
  let ?s = "(h, y\<lparr>sys_state := processorStarting\<rparr>)"
  have v: "run_view p (Halt p (h', y')) = run_view p (h', y')" for h' y' by simp
  from assms(3) show ?thesis
  proof
    assume a: "t_mid t = Halt p \<and> t_park t = id"
    have "Halt p ?s = (SequenceBarrier_Alert (bp_barrier p) h, y\<lparr>sys_state := processorHalted\<rparr>)"
      by (simp add: Halt_def Halt_swap_def set_state_def)
    with a assms(1,2) show ?thesis
      by (simp add: w set_state_def run_view_def SequenceBarrier_ClearAlert_def
          SequenceBarrier_Alert_def heap_simps)
  next
    assume a: "t_mid t = id \<and> t_park t = Halt p"
    have "Halt p (h', y\<lparr>sys_state := processorStarting\<rparr>) =
        (SequenceBarrier_Alert (bp_barrier p) h', y\<lparr>sys_state := processorHalted\<rparr>)" for h'
      by (simp add: Halt_def Halt_swap_def set_state_def)
    with a assms(1,2) show ?thesis
      by (simp add: w set_state_def run_view_def SequenceBarrier_ClearAlert_def
          SequenceBarrier_Alert_def heap_simps)
  qed
qed

text \<open>A processor without a ring to speak of, for the witnesses on starting and halting.\<close>

definition idle_processor :: "(int, int) BatchProcessor" where
  "idle_processor =
     \<lparr>bp_barrier = parked_barrier, bp_handler = (\<lambda>event q eob n. (Returned None, n + 1)), bp_sequence = 9,
      bp_maxBatchSize = 1\<rparr>"

definition idle_world :: "(int, singleProducerSequencer, int) world" where
  "idle_world =
     (fst single_ring4, \<lparr>sys_ring = snd single_ring4, sys_state = processorIdle, sys_app = 0\<rparr>)"

theorem Halt_while_starting_witness:
  "\<exists>w'. Run idle_processor [quiet\<lparr>t_park := Halt idle_processor\<rparr>] idle_world = Some (None, [], w') \<and>
     sys_state (snd w') = processorIdle"
proof -
  have "sys_state (snd idle_world) = processorIdle" by (simp add: idle_world_def)
  from Halt_while_starting [OF this, of "quiet\<lparr>t_park := Halt idle_processor\<rparr>" idle_processor "[]"]
  show ?thesis by (auto simp: quiet_def simp del: Run.simps)
qed



text \<open>
  C37. The two steps of \<open>Halt\<close> can end up in different runs. When the run it meant to stop returns for
  another reason after the state change and the processor is started again before the alert is raised, the
  second run is ended by \<open>ErrAlerted\<close> although nobody halted it, without handling anything.
\<close>

theorem late_alert_ends_next_Run:
  assumes "sys_state (snd w) = processorIdle"
    and "t_pre t1 = (\<lambda>w. snd (Halt_swap w))" "t_ctx t1 = Some err"
    and "t_pre t2 = (\<lambda>(h, y). (SequenceBarrier_Alert (bp_barrier p) h, y))" "t_ctx t2 = None"
  shows "\<exists>w1 w2. Run p [quiet, t1] w = Some (Some err, [], w1) \<and>
    Run p (quiet # t2 # ts) w1 = Some (Some ErrAlerted, ts, w2) \<and>
    sys_state (snd w2) = processorIdle \<and> run_view p w2 = run_view p w"
proof -
  obtain h y where w: "w = (h, y)" by (cases w)
  let ?b = "bp_barrier p"
  let ?h1 = "SequenceBarrier_ClearAlert ?b h"
  let ?w1 = "(?h1, y\<lparr>sys_state := processorIdle\<rparr>)"
  let ?h2 = "SequenceBarrier_Alert ?b (SequenceBarrier_ClearAlert ?b ?h1)"
  have r1: "Run p [quiet, t1] w = Some (Some err, [], ?w1)"
    using assms(1-3) by (simp add: w set_state_def Halt_swap_def)
  have "flags ?h2 (sb_alerted ?b)"
    using Alert_alerted [of ?b] by (simp add: SequenceBarrier_IsAlerted_def)
  then have r2: "Run p (quiet # t2 # ts) ?w1 = Some (Some ErrAlerted, ts, ?h2, y\<lparr>sys_state := processorIdle\<rparr>)"
    using assms(4,5) by (simp add: set_state_def SequenceBarrier_WaitFor_def Let_def)
  have "run_view p (?h2, y\<lparr>sys_state := processorIdle\<rparr>) = run_view p w"
    by (simp add: w run_view_def SequenceBarrier_ClearAlert_def SequenceBarrier_Alert_def heap_simps)
  with r1 r2 show ?thesis by (intro exI conjI) (assumption | simp)+
qed

theorem late_alert_ends_next_Run_witness:
  "\<exists>w1 w2. Run idle_processor [quiet, quiet\<lparr>t_pre := \<lambda>w. snd (Halt_swap w), t_ctx := Some Canceled\<rparr>] idle_world =
       Some (Some Canceled, [], w1) \<and>
     Run idle_processor [quiet, quiet\<lparr>t_pre := \<lambda>(h, y). (SequenceBarrier_Alert (bp_barrier idle_processor) h, y)\<rparr>] w1 =
       Some (Some ErrAlerted, [], w2)"
proof -
  have "sys_state (snd idle_world) = processorIdle" by (simp add: idle_world_def)
  from late_alert_ends_next_Run [OF this, of "quiet\<lparr>t_pre := \<lambda>w. snd (Halt_swap w), t_ctx := Some Canceled\<rparr>" Canceled
      "quiet\<lparr>t_pre := \<lambda>(h, y). (SequenceBarrier_Alert (bp_barrier idle_processor) h, y)\<rparr>" idle_processor "[]"]
  show ?thesis by (auto simp: quiet_def simp del: Run.simps)
qed

end
