(* ===== verification/Poller.thy ===== *)
theory Poller
  imports Processor
begin

text \<open>
  \<open>EventPoller\<close> of \<open>poller.go\<close>: one non-blocking batch per call. The turn of a \<open>Poll\<close> says what other
  goroutines do before it reads the dependency (\<open>t_mid\<close>) and before it looks at the closed flag or
  scans for published sequences (\<open>t_park\<close>).
\<close>

datatype PollState = PollIdle | PollGating | PollProcessing

record ('t, 's) EventPoller =
  ep_barrier :: SequenceBarrier
  ep_handler :: "('t, 's) EventHandler"
  ep_sequence :: addr
  ep_maxBatchSize :: int64

definition NewEventPoller ::
  "SequenceBarrier \<Rightarrow> ('t, 's) EventHandler option \<Rightarrow> ProcessorOption list \<Rightarrow> heap \<Rightarrow>
   (error + ('t, 's) EventPoller) \<times> heap"
where
  "NewEventPoller barrier handler options h =
     (case handler of
        None \<Rightarrow> (Inl ErrNilHandler, h)
      | Some handle \<Rightarrow>
          (case apply_options options \<lparr>cfg_maxBatchSize = MaxInt64\<rparr> of
             Inl err \<Rightarrow> (Inl err, h)
           | Inr config \<Rightarrow>
               (let (s, h1) = NewSequence InitialSequence h
                in (Inr \<lparr>ep_barrier = barrier, ep_handler = handle, ep_sequence = s,
                         ep_maxBatchSize = cfg_maxBatchSize config\<rparr>, h1))))"

definition Poll ::
  "('t, 's) EventPoller \<Rightarrow> ('t, 'b, 's) world turn \<Rightarrow> ('t, 'b, 's) world \<Rightarrow>
   (PollState \<times> error option) \<times> ('t, 'b, 's) world"
where
  "Poll p t w =
     (if SequenceBarrier_IsAlerted (ep_barrier p) (fst w) then ((PollIdle, Some ErrAlerted), w)
      else
        let next = i64 (Sequence_Load (ep_sequence p) (fst w) + 1);
            producerAvailable = Sequence_Load (sb_cursor (ep_barrier p)) (fst w);
            w1 = t_mid t w;
            dependentAvailable = sequenceReader_Load (sb_dependent (ep_barrier p)) (fst w1);
            (h2, y2) = t_park t w1
        in if dependentAvailable < next then
             (if flags h2 (sb_closed (ep_barrier p)) then ((PollIdle, Some ErrClosed), h2, y2)
              else if producerAvailable \<ge> next then ((PollGating, None), h2, y2)
              else ((PollIdle, None), h2, y2))
           else
             (let avail = world_highest next dependentAvailable (h2, y2) in
              if avail < next then
                (if flags h2 (sb_closed (ep_barrier p)) then ((PollIdle, Some ErrClosed), h2, y2)
                 else ((PollGating, None), h2, y2))
              else
                let endSeq = batch_end (ep_maxBatchSize p) next avail;
                    (res, app1) = processBatch (h2, sys_ring y2) (ep_handler p) next endSeq (sys_app y2);
                    y3 = y2\<lparr>sys_app := app1\<rparr>
                in case res of
                     Some err \<Rightarrow> ((PollProcessing, Some err), h2, y3)
                   | None \<Rightarrow> ((PollProcessing, None), Sequence_Store (ep_sequence p) endSeq h2, y3)))"

section \<open>What a poll does\<close>

text \<open>The acknowledged position and the application state, as for a processor.\<close>

definition poll_view :: "('t, 's) EventPoller \<Rightarrow> ('t, 'b, 's) world \<Rightarrow> int64 \<times> 's" where
  "poll_view p w = (Sequence_Load (ep_sequence p) (fst w), sys_app (snd w))"

text \<open>With nobody else running, a poll is decided by the dependency and the scan.\<close>

definition poll_ready :: "('t, 's) EventPoller \<Rightarrow> ('t, 'b, 's) world \<Rightarrow> int64" where
  "poll_ready p w =
     (let next = Sequence_Load (ep_sequence p) (fst w) + 1;
          dep = sequenceReader_Load (sb_dependent (ep_barrier p)) (fst w)
      in if dep < next then next - 1 else world_highest next dep w)"


text \<open>
  A poll that finds nothing changes nothing, and it says why: the ring is closed, something is
  published or claimed that cannot be handled yet, or the ring is idle.
\<close>

theorem Poll_nothing:
  assumes alert: "\<not> SequenceBarrier_IsAlerted (ep_barrier p) h"
    and range: "-1 \<le> Sequence_Load (ep_sequence p) h" "Sequence_Load (ep_sequence p) h < 2 ^ 63 - 1"
    and none: "poll_ready p (h, y) \<le> Sequence_Load (ep_sequence p) h"
  shows "Poll p quiet (h, y) =
    ((if flags h (sb_closed (ep_barrier p)) then (PollIdle, Some ErrClosed)
      else if sequenceReader_Load (sb_dependent (ep_barrier p)) h \<le> Sequence_Load (ep_sequence p) h \<and>
              Sequence_Load (sb_cursor (ep_barrier p)) h \<le> Sequence_Load (ep_sequence p) h
      then (PollIdle, None) else (PollGating, None)), h, y)"
  using assms by (auto simp: Poll_def poll_ready_def i64_id Let_def split: if_splits)

text \<open>A poller on a ring of four entries, with two published sequences and with none.\<close>

definition published_ring :: "(int, singleProducerSequencer) ring_state" where
  "published_ring =
     (case TryPublishN [] 2 (Some (\<lambda>event q app. (Returned None, app))) single_ring4 () of
        Some (_, _, hr, _) \<Rightarrow> hr | None \<Rightarrow> single_ring4)"

definition demo_poller ::
  "(int, singleProducerSequencer) ring_state \<Rightarrow> (int, int \<times> (int64 \<times> bool) list) EventPoller \<times>
   (int, singleProducerSequencer, int \<times> (int64 \<times> bool) list) world"
where
  "demo_poller hr =
     (let (b, h1, r1) = RingBuffer_NewBarrier [] hr; (g, h2) = NewSequence InitialSequence h1
      in (\<lparr>ep_barrier = b, ep_handler = logged (\<lambda>event q eob acc. (Returned None, acc + event)), ep_sequence = g,
           ep_maxBatchSize = 8\<rparr>,
          h2, \<lparr>sys_ring = r1, sys_state = processorIdle, sys_app = (0, [])\<rparr>))"


theorem Poll_nothing_witness:
  "Poll (fst (demo_poller single_ring4)) quiet (snd (demo_poller single_ring4)) =
     ((PollIdle, None), snd (demo_poller single_ring4))"
proof -
  let ?p = "fst (demo_poller single_ring4)" and ?w = "snd (demo_poller single_ring4)"
  obtain h y where w: "?w = (h, y)" by (cases ?w)
  have "\<not> SequenceBarrier_IsAlerted (ep_barrier ?p) (fst ?w)" "Sequence_Load (ep_sequence ?p) (fst ?w) = -1"
    "poll_ready ?p ?w = -1" "\<not> flags (fst ?w) (sb_closed (ep_barrier ?p))"
    "sequenceReader_Load (sb_dependent (ep_barrier ?p)) (fst ?w) = -1"
    "Sequence_Load (sb_cursor (ep_barrier ?p)) (fst ?w) = -1" by code_simp+
  then show ?thesis using Poll_nothing [of ?p h y] by (simp add: w)
qed

end
