(* ===== verification/Ring_Log.thy ===== *)
theory Ring_Log
  imports Poller
begin

text \<open>
  The interface between a ring and the processor that gates its producers. The locale \<open>gated_log\<close>
  says how claims, resolutions, acknowledgements and closing change what the scan of a barrier finds; both
  sequencers are shown to provide it. Theory \<open>Delivery\<close> proves the consumer side from it.
\<close>

section \<open>Rings with a log of resolutions\<close>

text \<open>The operations of a sequencer together with the reference notions its theory gives it.\<close>

record 'b ring_log =
  rl_methods :: "'b Sequencer"
  rl_ok :: "heap \<times> 'b \<Rightarrow> bool"
  rl_claimed :: "heap \<times> 'b \<Rightarrow> int64"
  rl_live :: "int64 \<Rightarrow> heap \<times> 'b \<Rightarrow> bool"
  rl_status :: "int64 \<Rightarrow> heap \<times> 'b \<Rightarrow> status"
  rl_pending :: "int64 \<Rightarrow> int64 \<Rightarrow> heap \<times> 'b \<Rightarrow> bool"

definition singleLog :: "singleProducerSequencer ring_log" where
  "singleLog =
     \<lparr>rl_methods = singleSequencer, rl_ok = single_log_ok, rl_claimed = (\<lambda>hs. nextValue (snd hs)),
      rl_live = single_live, rl_status = single_status, rl_pending = single_pending\<rparr>"

definition multiLog :: "multiProducerSequencer ring_log" where
  "multiLog =
     \<lparr>rl_methods = multiSequencer, rl_ok = multi_ok, rl_claimed = multi_claimed,
      rl_live = multi_live, rl_status = multi_status, rl_pending = multi_pending\<rparr>"

text \<open>A change that leaves every sequence but the cursor alone and does not move the cursor back.\<close>

definition same_gates ::
  "heap \<times> 'a sequencerBase_scheme \<Rightarrow> heap \<times> 'a sequencerBase_scheme \<Rightarrow> bool"
where
  "same_gates hs hs' \<longleftrightarrow>
     gating (snd hs') = gating (snd hs) \<and> cursor (snd hs') = cursor (snd hs) \<and>
     (\<forall>a. a \<noteq> cursor (snd hs) \<longrightarrow> Sequence_Load a (fst hs') = Sequence_Load a (fst hs)) \<and>
     Sequence_Load (cursor (snd hs)) (fst hs) \<le> Sequence_Load (cursor (snd hs)) (fst hs')"

text \<open>The same log: nothing a reader can ask about it changes.\<close>

definition same_log :: "'b ring_log \<Rightarrow> heap \<times> 'b \<Rightarrow> heap \<times> 'b \<Rightarrow> bool" where
  "same_log L hs hs' \<longleftrightarrow>
     rl_ok L hs' \<and> rl_claimed L hs' = rl_claimed L hs \<and>
     (\<forall>q. rl_live L q hs' = rl_live L q hs \<and> rl_status L q hs' = rl_status L q hs)"

text \<open>A pending range becomes resolved as \<open>st\<close>, and nothing else changes.\<close>

definition resolved_as ::
  "'b ring_log \<Rightarrow> status \<Rightarrow> int64 \<Rightarrow> int64 \<Rightarrow> heap \<times> 'b \<Rightarrow> heap \<times> 'b \<Rightarrow> bool"
where
  "resolved_as L st low high hs hs' \<longleftrightarrow>
     rl_ok L hs' \<and> rl_claimed L hs' = rl_claimed L hs \<and>
     (\<forall>q. rl_live L q hs' = rl_live L q hs \<and>
        (rl_live L q hs \<longrightarrow> rl_status L q hs' = (if low \<le> q \<and> q \<le> high then st else rl_status L q hs)))"

locale gated_log =
  fixes L :: "'a sequencerBase_scheme ring_log"
  assumes publish: "rl_ok L hs \<Longrightarrow> rl_pending L low high hs \<Longrightarrow>
      resolved_as L Published low high hs (seq_Publish (rl_methods L) low high hs) \<and>
      same_gates hs (seq_Publish (rl_methods L) low high hs)"
    and discard: "rl_ok L hs \<Longrightarrow> rl_pending L low high hs \<Longrightarrow>
      resolved_as L Discarded low high hs (seq_Discard (rl_methods L) low high hs) \<and>
      same_gates hs (seq_Discard (rl_methods L) low high hs)"
    and claim: "rl_ok L hs \<Longrightarrow> rl_claimed L hs < 2 ^ 63 - 1 \<Longrightarrow> rl_claimed L hs + n < 2 ^ 63 - 1 \<Longrightarrow>
      \<exists>res ts' hs'. seq_TryNext (rl_methods L) [quiet] n hs = Some (res, ts', hs') \<and> rl_ok L hs' \<and>
        same_gates hs hs' \<and> rl_claimed L hs' < 2 ^ 63 - 1 \<and>
        (\<forall>q. rl_live L q hs' \<and> rl_status L q hs' \<noteq> Unresolved \<longrightarrow>
           rl_live L q hs \<and> rl_status L q hs = rl_status L q hs')"
    and close: "seq_Close (rl_methods L) = base_Close"
      "rl_ok L (h, s) \<Longrightarrow> same_log L (h, s) (h, s\<lparr>sealed := True, closeOnce := True\<rparr>)"
    and frame: "rl_ok L (h, s) \<Longrightarrow> 
      (\<And>a. a = cursor s \<or> a \<in> set (gating s) \<Longrightarrow> Sequence_Load a h' = Sequence_Load a h) \<Longrightarrow>
      same_log L (h, s) (h', s)"
    and acknowledge: "rl_ok L (h, s) \<Longrightarrow> g \<in> set (gating s) \<Longrightarrow> Sequence_Load g h \<le> v \<Longrightarrow>
      v \<le> Sequence_Load (cursor s) h \<Longrightarrow> same_log L (h, s) (Sequence_Store g v h, s)"
    and gate: "rl_ok L (h, s) \<Longrightarrow> g \<in> set (gating s) \<Longrightarrow> -1 \<le> Sequence_Load g h \<and> g \<noteq> cursor s"
    and cursor_claimed: "rl_ok L (h, s) \<Longrightarrow> Sequence_Load (cursor s) h \<le> rl_claimed L (h, s)"
    and is_discarded: "rl_ok L hs \<Longrightarrow> rl_live L q hs \<Longrightarrow>
      seq_IsDiscarded (rl_methods L) q hs \<longleftrightarrow> rl_status L q hs = Discarded"
    and scan: "rl_ok L (h, s) \<Longrightarrow> g \<in> set (gating s) \<Longrightarrow> Sequence_Load g h \<le> low \<Longrightarrow> low < high \<Longrightarrow>
      high \<le> Sequence_Load (cursor s) h \<Longrightarrow>
      avail = seq_HighestPublished (rl_methods L) (low + 1) high (h, s) \<Longrightarrow>
      low \<le> avail \<and> avail \<le> high \<and>
      (\<forall>q. low < q \<and> q \<le> avail \<longrightarrow> rl_live L q (h, s) \<and> rl_status L q (h, s) \<noteq> Unresolved) \<and>
      (avail < high \<longrightarrow> rl_status L (avail + 1) (h, s) = Unresolved)"

section \<open>Both sequencers provide it\<close>

lemma multi_IsDiscarded_status: "multi_status q hs = Discarded \<longleftrightarrow> multi_IsDiscarded q hs"
  by (auto simp: multi_status_def status_of_def multi_IsAvailable_def multi_IsDiscarded_def
      publicationUnresolved_def publicationDiscarded_def)

lemma multi_status_cong:
  assumes "multi_shape s" "multi_shape s'" "available s' = available s" "bufferSize s' = bufferSize s"
    "indexShift s' = indexShift s"
  shows "multi_status q (h', s') = multi_status q (h, s)"
proof -
  have "multi_flag s' = multi_flag s" using assms(5) by (simp add: fun_eq_iff multi_flag_def)
  then show ?thesis
    using multi_status_word [OF assms(1), of q h] multi_status_word [OF assms(2), of q h'] assms(3,4)
    by (simp add: word_of_def)
qed

lemma multi_same_log:
  assumes "multi_ok (h, s)" "multi_ok (h', s')" "available s' = available s" "bufferSize s' = bufferSize s"
    "indexShift s' = indexShift s" "cursor s' = cursor s" "Sequence_Load (cursor s) h' = Sequence_Load (cursor s) h"
  shows "same_log multiLog (h, s) (h', s')"
  using assms multi_status_cong [of s s'] multi_ok_shape [OF assms(1)] multi_ok_shape [OF assms(2)]
  by (simp add: same_log_def multiLog_def multi_claimed_def multi_live_def)

lemma multi_resolve_same_gates:
  assumes "multi_ok (h, s)"
  shows "same_gates (h, s) (multi_Publish low high (h, s))" "same_gates (h, s) (multi_Discard low high (h, s))"
  using assms by (simp_all add: multi_resolve_signal same_gates_def heap_simps multi_ok_def)

lemma multi_claim_shape:
  assumes "multi_ok (h, s)" "multi_claim c n (h, s) = (h', s')"
  shows "gating s' = gating s" "cursor s' = cursor s" "bufferSize s' = bufferSize s"
    "h' = Sequence_store (cursor s) (Sequence_Load (cursor s) h + n) h"
proof -
  have "multi_shape (s\<lparr>gateCache := c\<rparr>)" using assms(1) by (simp add: multi_ok_def)
  then show "gating s' = gating s" "cursor s' = cursor s" "bufferSize s' = bufferSize s"
    "h' = Sequence_store (cursor s) (Sequence_Load (cursor s) h + n) h"
    using assms(2) by (auto simp: multi_claim_def Let_def)
qed

lemma multi_claim_log:
  assumes ok: "multi_ok (h, s)" and n: "1 \<le> n" "n \<le> bufferSize s"
    and hs': "multi_claim c n (h, s) = (h', s')" and ok': "multi_ok (h', s')"
  shows "same_gates (h, s) (h', s')"
    "multi_live q (h', s') \<Longrightarrow> multi_status q (h', s') \<noteq> Unresolved \<Longrightarrow>
       multi_live q (h, s) \<and> multi_status q (h, s) = multi_status q (h', s')"
proof -
  let ?c = "Sequence_Load (cursor s) h"
  note f = multi_claim_shape [OF ok hs']
  show "same_gates (h, s) (h', s')" using f n(1) by (auto simp: same_gates_def heap_simps)
  have pend: "multi_status q (h', s') = Unresolved" if "?c < q" "q \<le> ?c + n" for q
    using multi_log.pending_unresolved [OF ok', of "?c + 1" "?c + n" q]
      multi_claim_pending [OF ok n, of c] hs' that by simp
  show "multi_live q (h, s) \<and> multi_status q (h, s) = multi_status q (h', s')"
    if l: "multi_live q (h', s')" and u: "multi_status q (h', s') \<noteq> Unresolved"
  proof -
    have "q \<le> ?c + n" using l f by (simp add: multi_live_def heap_simps)
    with pend [of q] u have "q \<le> ?c" by force
    with l multi_claim_status [OF ok n, of q c] n(1) hs' f show ?thesis
      by (auto simp: multi_live_def heap_simps)
  qed
qed

lemma multi_TryNext_refused:
  "sealed s \<or> n < 1 \<or> bufferSize s < n \<Longrightarrow> \<exists>err ts. multi_TryNext [quiet] n (h, s) = Some (Inl err, ts, h, s)"
  by (auto simp: multi_TryNext_def)

lemma same_gates_refl: "same_gates hs hs"
  by (simp add: same_gates_def)

lemma multi_TryNext_log:
  assumes ok: "multi_ok (h, s)" and n: "multi_claimed (h, s) < 2 ^ 63 - 1" "multi_claimed (h, s) + n < 2 ^ 63 - 1"
  shows "\<exists>res ts' hs'. multi_TryNext [quiet] n (h, s) = Some (res, ts', hs') \<and> multi_ok hs' \<and>
    same_gates (h, s) hs' \<and> multi_claimed hs' < 2 ^ 63 - 1 \<and>
    (\<forall>q. multi_live q hs' \<and> multi_status q hs' \<noteq> Unresolved \<longrightarrow>
       multi_live q (h, s) \<and> multi_status q (h, s) = multi_status q hs')"
proof (cases "sealed s \<or> n < 1 \<or> bufferSize s < n")
  case True
  with multi_TryNext_refused [OF True, of h] ok n same_gates_refl show ?thesis by fastforce
next
  case False
  then have open_: "\<not> sealed s" "1 \<le> n" "n \<le> bufferSize s" by auto
  let ?c = "Sequence_Load (cursor s) h"
  have cn: "?c + n < 2 ^ 63" using n by (simp add: multi_claimed_def)
  from multi_TryNext_decides [OF ok open_ cn] obtain c where c: "-1 \<le> c" "c \<le> multi_slowest (h, s)"
    and eq: "multi_TryNext [quiet] n (h, s) = Some
      (if ?c + n - bufferSize s \<le> multi_slowest (h, s)
       then (Inr (?c + n), [], multi_claim c n (h, s))
       else (Inl ErrInsufficientCapacity, [], h, s\<lparr>gateCache := c\<rparr>))" by blast
  show ?thesis
  proof (cases "?c + n - bufferSize s \<le> multi_slowest (h, s)")
    case True
    obtain h' s' where hs': "multi_claim c n (h, s) = (h', s')" by fastforce
    have ok': "multi_ok (h', s')" using multi_ok_claim [OF ok open_(2) cn c True] hs' by simp
    have "multi_claimed (h', s') < 2 ^ 63 - 1"
      using n(2) multi_claim_shape [OF ok hs'] by (simp add: multi_claimed_def heap_simps)
    with eq True hs' ok' multi_claim_log [OF ok open_(2,3) hs' ok'] show ?thesis by auto
  next
    case False
    have ok': "multi_ok (h, s\<lparr>gateCache := c\<rparr>)" by (rule multi_ok_cache [OF ok c])
    have "same_log multiLog (h, s) (h, s\<lparr>gateCache := c\<rparr>)" by (rule multi_same_log [OF ok ok']) simp_all
    with eq False ok' n(1) show ?thesis
      by (simp add: same_log_def multiLog_def same_gates_def multi_claimed_def)
  qed
qed

interpretation multi_gated: gated_log multiLog
proof (unfold_locales, goal_cases)
  case (1 hs low high)
  then have ok: "multi_ok hs" "multi_pending low high hs" by (simp_all add: multiLog_def)
  then show ?case
    using multi_log.resolve_ok [OF ok] multi_log.publish_status [OF ok] multi_resolve_same_gates(1) [of "fst hs" "snd hs" low high]
    by (auto simp: resolved_as_def multiLog_def multiSequencer_def multi_claimed_def multi_resolve_signal
        heap_simps multi_ok_def split: prod.splits)
next
  case (2 hs low high)
  then have ok: "multi_ok hs" "multi_pending low high hs" by (simp_all add: multiLog_def)
  then show ?case
    using multi_log.resolve_ok [OF ok] multi_log.discard_status [OF ok] multi_resolve_same_gates(2) [of "fst hs" "snd hs" low high]
    by (auto simp: resolved_as_def multiLog_def multiSequencer_def multi_claimed_def multi_resolve_signal
        heap_simps multi_ok_def split: prod.splits)
next
  case (3 hs n)
  then show ?case
    using multi_TryNext_log [of "fst hs" "snd hs" n] by (simp add: multiLog_def multiSequencer_def)
next
  case 4
  show ?case by (simp add: multiLog_def multiSequencer_def)
next
  case (5 h s)
  then have "multi_ok (h, s)" "multi_ok (h, s\<lparr>sealed := True, closeOnce := True\<rparr>)"
    by (simp_all add: multiLog_def multi_ok_def multi_shape_def)
  then show ?case by (rule multi_same_log) simp_all
next
  case (6 h s h')
  then have "multi_ok (h, s)" "multi_ok (h', s)" by (simp_all add: multiLog_def multi_ok_def)
  then show ?case by (rule multi_same_log) (simp_all add: 6)
next
  case (7 h s g v)
  then have ok: "multi_ok (h, s)" by (simp add: multiLog_def)
  have "g \<noteq> cursor s" using ok 7(2) by (auto simp: multi_ok_def)
  with multi_same_log [OF ok multi_ok_gate_store [OF ok 7(2-4)]] show ?case by (simp add: heap_simps)
next
  case (8 h s g)
  then show ?case by (auto simp: multiLog_def multi_ok_def)
next
  case (9 h s)
  then show ?case by (simp add: multiLog_def multi_claimed_def)
next
  case (10 hs q)
  then show ?case by (simp add: multiLog_def multiSequencer_def multi_IsDiscarded_status)
next
  case (11 h s g low high avail)
  then have ok: "multi_ok (h, s)" by (simp add: multiLog_def)
  have g: "-1 \<le> low" "Sequence_Load (cursor s) h - bufferSize s \<le> low" "Sequence_Load (cursor s) h < 2 ^ 63"
    using ok 11(2,3) by (auto simp: multi_ok_def)
  then have rd: "multi_readable (low + 1) high (h, s)" using 11(5) by (simp add: multi_readable_def)
  have av: "avail = multi_HighestPublished (low + 1) high (h, s)"
    using 11(6) by (simp add: multiLog_def multiSequencer_def)
  have "multi_live q (h, s)" if "low < q" "q \<le> high" for q
    using that g 11(5) by (simp add: multi_live_def)
  with multi_log.highest_prefix [OF ok rd] 11(4) show ?case by (auto simp: multiLog_def av [symmetric])
qed

lemma single_same_log:
  assumes "single_log_ok (h', s')" "discarded s' = discarded s" "bufferSize s' = bufferSize s"
    "nextValue s' = nextValue s" "cursor s' = cursor s" "Sequence_Load (cursor s) h' = Sequence_Load (cursor s) h"
  shows "same_log singleLog (h, s) (h', s')"
  using assms
  by (simp add: same_log_def singleLog_def single_status_def single_IsAvailable_def single_IsDiscarded_def
      single_index_def single_live_def Let_def)

lemma single_log_ok_cong:
  assumes "single_log_ok (h, s)" "single_ok (h', s')" "discarded s' = discarded s" "bufferSize s' = bufferSize s"
    "cursor s' = cursor s" "Sequence_Load (cursor s) h' = Sequence_Load (cursor s) h"
  shows "single_log_ok (h', s')"
  using assms by (simp add: single_log_ok_def)

lemma single_resolve_same_gates:
  assumes "single_log_ok (h, s)" "single_pending low high (h, s)"
  shows "same_gates (h, s) (single_Publish low high (h, s))" "same_gates (h, s) (single_Discard low high (h, s))"
    "nextValue (snd (single_Publish low high (h, s))) = nextValue s"
    "nextValue (snd (single_Discard low high (h, s))) = nextValue s"
proof -
  have ok: "single_ok (h, s)" using assms(1) by (simp add: single_log_ok_def)
  have "g \<noteq> cursor s" if "g \<in> set (gating s)" for g using ok that by (auto simp: single_ok_def)
  with single_Discard_eq [OF ok assms(2)] assms(2)
  show "same_gates (h, s) (single_Publish low high (h, s))" "same_gates (h, s) (single_Discard low high (h, s))"
    "nextValue (snd (single_Publish low high (h, s))) = nextValue s"
    "nextValue (snd (single_Discard low high (h, s))) = nextValue s"
    by (auto simp: single_Publish_eq same_gates_def heap_simps single_pending_def)
qed

lemma single_claim_status:
  assumes "single_log_ok (h, s)" "single_log_ok (h, s')" "nextValue s \<le> nextValue s'"
    and "discarded s' = discarded s" "bufferSize s' = bufferSize s" "cursor s' = cursor s"
    and "single_live q (h, s')" "single_status q (h, s') \<noteq> Unresolved"
  shows "single_live q (h, s) \<and> single_status q (h, s) = single_status q (h, s')"
proof -
  have "q \<le> Sequence_Load (cursor s) h" using single_status_eq [OF assms(2,7)] assms(6,8) by (auto split: if_splits)
  moreover have "Sequence_Load (cursor s) h \<le> nextValue s" using assms(1) by (simp add: single_log_ok_def single_ok_def)
  ultimately have l: "single_live q (h, s)" using assms(3,5,7) by (simp add: single_live_def)
  with single_status_eq [OF assms(1) l] single_status_eq [OF assms(2,7)] assms(4-6) show ?thesis by simp
qed

lemma single_TryNext_log:
  assumes lok: "single_log_ok (h, s)" and n: "nextValue s < 2 ^ 63 - 1" "nextValue s + n < 2 ^ 63 - 1"
  shows "\<exists>res hs'. single_TryNext n (h, s) = (res, hs') \<and> single_log_ok hs' \<and>
    same_gates (h, s) hs' \<and> nextValue (snd hs') < 2 ^ 63 - 1 \<and>
    (\<forall>q. single_live q hs' \<and> single_status q hs' \<noteq> Unresolved \<longrightarrow>
       single_live q (h, s) \<and> single_status q (h, s) = single_status q hs')"
proof (cases "sealed s \<or> n < 1 \<or> bufferSize s < n")
  case True
  then have "\<exists>err. single_TryNext n (h, s) = (Inl err, h, s)" by (auto simp: single_TryNext_def)
  with lok n same_gates_refl show ?thesis by fastforce
next
  case False
  then have open_: "\<not> sealed s" "1 \<le> n" "n \<le> bufferSize s" by auto
  have ok: "single_ok (h, s)" using lok by (simp add: single_log_ok_def)
  from single_TryNext_decides [OF ok open_] n(2) obtain c where c: "-1 \<le> c" "c \<le> single_slowest (h, s)"
    and eq: "single_TryNext n (h, s) =
      (if nextValue s + n - bufferSize s \<le> single_slowest (h, s)
       then (Inr (nextValue s + n), h, s\<lparr>cachedGate := c, nextValue := nextValue s + n\<rparr>)
       else (Inl ErrInsufficientCapacity, h, s\<lparr>cachedGate := c\<rparr>))" by fastforce
  define s' where "s' = (if nextValue s + n - bufferSize s \<le> single_slowest (h, s)
    then s\<lparr>cachedGate := c, nextValue := nextValue s + n\<rparr> else s\<lparr>cachedGate := c\<rparr>)"
  have "single_ok (h, s')"
  proof (cases "nextValue s + n - bufferSize s \<le> single_slowest (h, s)")
    case True
    with single_ok_claim [OF ok open_(2,3) _ c True] n(2) show ?thesis by (simp add: s'_def)
  next
    case False
    have "c \<le> Sequence_Load g h" if "g \<in> set (gating s)" for g
      using c(2) minimumSequence_le [OF that, of "nextValue s" h]
      by (simp add: single_slowest_def base_minimumGate_def)
    with False ok c single_slowest_bounds [OF ok] show ?thesis by (auto simp: s'_def single_ok_def)
  qed
  then have lok': "single_log_ok (h, s')" by (rule single_log_ok_cong [OF lok]) (simp_all add: s'_def)
  have res: "\<exists>res. single_TryNext n (h, s) = (res, h, s')" using eq by (simp add: s'_def)
  have "same_gates (h, s) (h, s')" "nextValue s' < 2 ^ 63 - 1" "nextValue s \<le> nextValue s'"
    using n open_(2) by (simp_all add: s'_def same_gates_def)
  moreover have "discarded s' = discarded s" "bufferSize s' = bufferSize s" "cursor s' = cursor s"
    by (simp_all add: s'_def)
  ultimately show ?thesis using res lok' single_claim_status [OF lok lok'] by fastforce
qed

interpretation single_gated: gated_log singleLog
proof (unfold_locales, goal_cases)
  case (1 hs low high)
  then have ok: "single_log_ok hs" "single_pending low high hs" by (simp_all add: singleLog_def)
  then show ?case
    using single_log.resolve_ok [OF ok] single_log.publish_status [OF ok]
      single_resolve_same_gates [of "fst hs" "snd hs" low high]
    by (simp add: resolved_as_def singleLog_def singleSequencer_def)
next
  case (2 hs low high)
  then have ok: "single_log_ok hs" "single_pending low high hs" by (simp_all add: singleLog_def)
  then show ?case
    using single_log.resolve_ok [OF ok] single_log.discard_status [OF ok]
      single_resolve_same_gates [of "fst hs" "snd hs" low high]
    by (simp add: resolved_as_def singleLog_def singleSequencer_def)
next
  case (3 hs n)
  then show ?case
    using single_TryNext_log [of "fst hs" "snd hs" n] by (auto simp: singleLog_def singleSequencer_def)
next
  case 4
  show ?case by (simp add: singleLog_def singleSequencer_def)
next
  case (5 h s)
  then have lok: "single_log_ok (h, s)" by (simp add: singleLog_def)
  then have "single_log_ok (h, s\<lparr>sealed := True, closeOnce := True\<rparr>)" by (simp add: single_log_ok_def single_ok_def)
  then show ?case by (rule single_same_log) simp_all
next
  case (6 h s h')
  then have "single_log_ok (h', s)" by (simp add: singleLog_def single_log_ok_def single_ok_def)
  then show ?case by (rule single_same_log) (simp_all add: 6)
next
  case (7 h s g v)
  then have lok: "single_log_ok (h, s)" by (simp add: singleLog_def)
  then have ok: "single_ok (h, s)" by (simp add: single_log_ok_def)
  have ne: "g \<noteq> cursor s" and v: "v \<le> nextValue s" using ok 7(2,4) by (auto simp: single_ok_def)
  have "single_log_ok (Sequence_Store g v h, s)"
    using single_log_ok_cong [OF lok single_ok_gate_store [OF ok 7(2,3) v]] ne by (simp add: heap_simps)
  then show ?case by (rule single_same_log) (use ne in \<open>simp_all add: heap_simps\<close>)
next
  case (8 h s g)
  then show ?case by (auto simp: singleLog_def single_log_ok_def single_ok_def)
next
  case (9 h s)
  then show ?case by (simp add: singleLog_def single_log_ok_def single_ok_def)
next
  case (10 hs q)
  then show ?case
    by (auto simp: singleLog_def singleSequencer_def single_status_def status_of_def single_IsDiscarded_def
        single_IsAvailable_def Let_def split: prod.splits)
next
  case (11 h s g low high avail)
  then have lok: "single_log_ok (h, s)" by (simp add: singleLog_def)
  have g: "-1 \<le> low" "nextValue s - bufferSize s \<le> low" "Sequence_Load (cursor s) h \<le> nextValue s"
    using lok 11(2,3) by (auto simp: single_log_ok_def single_ok_def)
  then have rd: "single_readable (low + 1) high (h, s)" using 11(5) by (simp add: single_readable_def)
  have av: "avail = single_HighestPublished (low + 1) high (h, s)"
    using 11(6) by (simp add: singleLog_def singleSequencer_def)
  have "single_live q (h, s)" if "low < q" "q \<le> high" for q
    using that g 11(5) by (simp add: single_live_def)
  with single_log.highest_prefix [OF lok rd] 11(4) show ?case by (auto simp: singleLog_def av [symmetric])
qed

end
