(* ===== verification/Delivery.thy ===== *)
theory Delivery
  imports Ring_Log
begin

text \<open>
  Consumers on real rings, proved from the interface \<open>gated_log\<close> for both sequencers: \<open>Run\<close> delivers
  exactly the published sequences while producers claim, publish and discard, and works through a
  backlog. Where a multi-producer ring has a gap, the run loop does not return.
\<close>

section \<open>A processor that gates a ring\<close>

text \<open>
  \<open>skip q\<close> is how sequence \<open>q\<close> will be resolved once and for all: as discarded or as published.
\<close>

abbreviation slots :: "('t, 'b) ring_state \<Rightarrow> heap \<times> 'b" where
  "slots hr \<equiv> (fst hr, sequencer (snd hr))"

definition log_ring :: "'b ring_log \<Rightarrow> (int64 \<Rightarrow> bool) \<Rightarrow> ('t, 'b) ring_state \<Rightarrow> bool" where
  "log_ring L skip hr \<longleftrightarrow>
     methods (snd hr) = rl_methods L \<and> rl_ok L (slots hr) \<and> rl_claimed L (slots hr) < 2 ^ 63 - 1 \<and>
     (\<forall>q. rl_live L q (slots hr) \<and> rl_status L q (slots hr) \<noteq> Unresolved \<longrightarrow>
        (rl_status L q (slots hr) = Discarded \<longleftrightarrow> skip q) \<and> (skip q \<longrightarrow> rb_discarded (snd hr)))"

text \<open>
  A processor somewhere in a graph of consumers: its barrier follows the cursor or the sequences of the
  consumers before it, which it does not move itself, and some gate of the ring, its own or that of a
  consumer after it, is not ahead of it.
\<close>

abbreviation world_slots :: "('t, 'b, 's) world \<Rightarrow> heap \<times> 'b" where
  "world_slots w \<equiv> slots (fst w, sys_ring (snd w))"

fun reader_addrs :: "sequenceReader \<Rightarrow> addr list" where
  "reader_addrs (SequenceReader s) = [s]"
| "reader_addrs (GroupReader g) = g"

definition covered :: "addr \<Rightarrow> heap \<times> 'a sequencerBase_scheme \<Rightarrow> bool" where
  "covered a hs \<longleftrightarrow> (\<exists>g \<in> set (gating (snd hs)). Sequence_Load g (fst hs) \<le> Sequence_Load a (fst hs))"

definition log_world ::
  "'a sequencerBase_scheme ring_log \<Rightarrow> ('t, 's) BatchProcessor \<Rightarrow> (int64 \<Rightarrow> bool) \<Rightarrow>
   ('t, 'a sequencerBase_scheme, 's) world \<Rightarrow> bool"
where
  "log_world L p skip w \<longleftrightarrow>
     log_ring L skip (fst w, sys_ring (snd w)) \<and>
     bp_sequence p \<noteq> cursor (snd (world_slots w)) \<and>
     bp_sequence p \<notin> set (reader_addrs (sb_dependent (bp_barrier p))) \<and>
     Sequence_Load (bp_sequence p) (fst w) \<le> run_limit p w \<and>
     run_limit p w \<le> Sequence_Load (cursor (snd (world_slots w))) (fst w) \<and>
     covered (bp_sequence p) (world_slots w)"

text \<open>
  What producers do between the steps of a consumer: claim without blocking, and publish or discard
  claims that are still pending, the way \<open>skip\<close> says they end. Other consumers acknowledge what is
  visible, those after the processor without leaving it behind. \<open>Halt\<close> and \<open>Close\<close> may come from anywhere.
\<close>

datatype producer_action =
    ClaimAction int64
  | PublishAction int64 int64
  | DiscardAction int64 int64

fun ring_act ::
  "'b ring_log \<Rightarrow> (int64 \<Rightarrow> bool) \<Rightarrow> producer_action \<Rightarrow> ('t, 'b) ring_state \<Rightarrow> ('t, 'b) ring_state"
where
  "ring_act L skip (ClaimAction n) hr =
     (if rl_claimed L (slots hr) + n < 2 ^ 63 - 1
      then (case TryNextN [quiet] n hr of Some (_, _, hr') \<Rightarrow> hr' | None \<Rightarrow> hr) else hr)"
| "ring_act L skip (PublishAction low high) hr =
     (if rl_pending L low high (slots hr) \<and> (\<forall>q \<in> set [low..high]. \<not> skip q)
      then PublishRange low high hr else hr)"
| "ring_act L skip (DiscardAction low high) hr =
     (if rl_pending L low high (slots hr) \<and> (\<forall>q \<in> set [low..high]. skip q)
      then DiscardRange low high hr else hr)"

definition acknowledge_act ::
  "addr \<Rightarrow> addr \<Rightarrow> int64 \<Rightarrow> ('t, 'a sequencerBase_scheme) ring_state \<Rightarrow> ('t, 'a sequencerBase_scheme) ring_state"
where
  "acknowledge_act own a v hr =
     (let (h, r) = hr; h1 = Sequence_Store a v h; s = sequencer r in
      if a \<noteq> own \<and> a \<noteq> cursor s \<and> Sequence_Load a h \<le> v \<and> v \<le> Sequence_Load (cursor s) h \<and> covered own (h1, s)
      then (h1, r) else hr)"

datatype env_action = Producer producer_action | Acknowledge addr int64 | HaltCall | CloseCall

definition in_world :: "(('t, 'b) ring_state \<Rightarrow> ('t, 'b) ring_state) \<Rightarrow> ('t, 'b, 's) world \<Rightarrow> ('t, 'b, 's) world" where
  "in_world f w = (let (h, r) = f (fst w, sys_ring (snd w)) in (h, (snd w)\<lparr>sys_ring := r\<rparr>))"

fun env_act ::
  "'a sequencerBase_scheme ring_log \<Rightarrow> ('t, 's) BatchProcessor \<Rightarrow> (int64 \<Rightarrow> bool) \<Rightarrow> env_action \<Rightarrow>
   ('t, 'a sequencerBase_scheme, 's) world \<Rightarrow> ('t, 'a sequencerBase_scheme, 's) world"
where
  "env_act L p skip (Producer a) w = in_world (ring_act L skip a) w"
| "env_act L p skip (Acknowledge a v) w = in_world (acknowledge_act (bp_sequence p) a v) w"
| "env_act L p skip HaltCall w = Halt p w"
| "env_act L p skip CloseCall w = in_world RingBuffer_Close w"

definition others ::
  "'a sequencerBase_scheme ring_log \<Rightarrow> ('t, 's) BatchProcessor \<Rightarrow> (int64 \<Rightarrow> bool) \<Rightarrow> env_action list \<Rightarrow>
   ('t, 'a sequencerBase_scheme, 's) world \<Rightarrow> ('t, 'a sequencerBase_scheme, 's) world"
where
  "others L p skip as w = fold (env_act L p skip) as w"

definition busy_turn ::
  "'a sequencerBase_scheme ring_log \<Rightarrow> ('t, 's) BatchProcessor \<Rightarrow> (int64 \<Rightarrow> bool) \<Rightarrow>
   ('t, 'a sequencerBase_scheme, 's) world turn \<Rightarrow> bool"
where
  "busy_turn L p skip t \<longleftrightarrow> {t_pre t, t_mid t, t_park t} \<subseteq> range (others L p skip)"

lemma quiet_busy: "id \<in> range (others L p skip)"
  by (rule image_eqI [of _ _ "[]"]) (auto simp: others_def fun_eq_iff)

lemma same_log_ring:
  assumes "log_ring L skip (h, r)" "same_log L (h, sequencer r) (h', sequencer r')"
    and "methods r' = methods r" "rb_discarded r' = rb_discarded r"
  shows "log_ring L skip (h', r')"
  using assms by (simp add: log_ring_def same_log_def)

lemma reader_addrs_cong:
  assumes "\<And>a. a \<in> set (reader_addrs r) \<Longrightarrow> Sequence_Load a h' = Sequence_Load a h"
  shows "sequenceReader_Load r h' = sequenceReader_Load r h"
proof (cases r)
  case (GroupReader g)
  have "minimumSequence g InitialSequence h' = minimumSequence g InitialSequence h"
    by (rule minimumSequence_cong) (use assms GroupReader in simp)
  then show ?thesis by (simp add: GroupReader sequenceGroup_Load_minimum)
qed (use assms in simp)

lemma reader_addrs_le: "a \<in> set (reader_addrs r) \<Longrightarrow> sequenceReader_Load r h \<le> Sequence_Load a h"
  by (cases r) (simp_all add: sequenceGroup_Load_minimum minimumSequence_le)

text \<open>A reader moves forward with the sequences it reads, and stays below a bound that they stay below.\<close>

lemma reader_mono:
  assumes "\<And>a. Sequence_Load a h \<le> Sequence_Load a h'"
  shows "sequenceReader_Load r h \<le> sequenceReader_Load r h'"
proof (cases r)
  case (GroupReader g)
  have "minimumSequence g InitialSequence h \<le> minimumSequence g InitialSequence h'"
    unfolding minimumSequence_ge_iff [of "minimumSequence g InitialSequence h" g InitialSequence h']
    using minimumSequence_le [of _ g InitialSequence h] assms by (auto intro: order_trans)
  then show ?thesis by (simp add: GroupReader sequenceGroup_Load_minimum)
qed (use assms in simp)

lemma reader_bound:
  assumes "\<And>a. Sequence_Load a h' = Sequence_Load a h \<or> Sequence_Load a h' \<le> b" "sequenceReader_Load r h \<le> b"
  shows "sequenceReader_Load r h' \<le> b"
proof (cases r)
  case (GroupReader g)
  show ?thesis
  proof (cases "g = []")
    case False
    then obtain a where a: "a \<in> set g" "minimumSequence g InitialSequence h = Sequence_Load a h"
      using minimumSequence_mem by blast
    have "minimumSequence g InitialSequence h' \<le> Sequence_Load a h'" by (rule minimumSequence_le [OF a(1)])
    with assms(1) [of a] assms(2) a(2) show ?thesis by (auto simp: GroupReader sequenceGroup_Load_minimum)
  qed (use assms(2) in \<open>simp add: GroupReader\<close>)
next
  case (SequenceReader a)
  with assms(1) [of a] assms(2) show ?thesis by auto
qed

text \<open>The world after a step of somebody else that moves sequences forward, none of them past the cursor.\<close>

lemma world_moved:
  assumes I: "log_world L p skip (h, y)" and ring: "log_ring L skip (h', sys_ring y')"
    and cur: "cursor (sequencer (sys_ring y')) = cursor (sequencer (sys_ring y))"
    and own: "Sequence_Load (bp_sequence p) h' = Sequence_Load (bp_sequence p) h"
    and mono: "\<And>a. Sequence_Load a h \<le> Sequence_Load a h'"
    and bound: "\<And>a. Sequence_Load a h' = Sequence_Load a h \<or>
      Sequence_Load a h' \<le> Sequence_Load (cursor (sequencer (sys_ring y))) h'"
    and cov: "covered (bp_sequence p) (h', sequencer (sys_ring y'))"
  shows "log_world L p skip (h', y')"
proof -
  let ?c = "cursor (sequencer (sys_ring y))" let ?r = "sb_dependent (bp_barrier p)"
  have "sequenceReader_Load ?r h \<le> Sequence_Load ?c h'"
    using I mono [of ?c] by (auto simp: log_world_def run_limit_def intro: order_trans)
  with bound have "sequenceReader_Load ?r h' \<le> Sequence_Load ?c h'" by (rule reader_bound)
  moreover have "sequenceReader_Load ?r h \<le> sequenceReader_Load ?r h'" using mono by (rule reader_mono)
  ultimately show ?thesis using I ring cur own cov by (auto simp: log_world_def run_limit_def)
qed

lemma same_log_world:
  assumes I: "log_world L p skip (h, y)"
    and log: "same_log L (h, sequencer (sys_ring y)) (h', sequencer (sys_ring y))"
    and y: "sys_ring y' = sys_ring y" and ld: "\<And>a. Sequence_Load a h' = Sequence_Load a h"
  shows "log_world L p skip (h', y')"
proof (rule world_moved [OF I])
  show "log_ring L skip (h', sys_ring y')"
    using same_log_ring [of L skip h "sys_ring y" h' "sys_ring y"] I log y by (simp add: log_world_def)
  show "covered (bp_sequence p) (h', sequencer (sys_ring y'))"
    using I y ld by (simp add: log_world_def covered_def)
qed (simp_all add: y ld)

section \<open>What the interface gives a processor\<close>

context gated_log
begin

lemma world_gate:
  assumes "log_world L p skip (h, y)"
  shows "-1 \<le> Sequence_Load (bp_sequence p) h" "Sequence_Load (bp_sequence p) h < 2 ^ 63 - 1"
    "run_limit p (h, y) < 2 ^ 63 - 1"
proof -
  let ?s = "sequencer (sys_ring y)"
  obtain g where I: "rl_ok L (h, ?s)" "rl_claimed L (h, ?s) < 2 ^ 63 - 1" "g \<in> set (gating ?s)"
    "Sequence_Load g h \<le> Sequence_Load (bp_sequence p) h" "Sequence_Load (bp_sequence p) h \<le> run_limit p (h, y)"
    "run_limit p (h, y) \<le> Sequence_Load (cursor ?s) h"
    using assms by (auto simp: log_world_def log_ring_def covered_def)
  with gate [OF I(1,3)] cursor_claimed [OF I(1)]
  show "-1 \<le> Sequence_Load (bp_sequence p) h" "Sequence_Load (bp_sequence p) h < 2 ^ 63 - 1"
    "run_limit p (h, y) < 2 ^ 63 - 1" by linarith+
qed

text \<open>Any consumer that acknowledges what is visible leaves the log as it is, whether it is a gate or not.\<close>

lemma store_same_log:
  assumes ok: "rl_ok L (h, s)" and a: "a \<noteq> cursor s"
    and v: "Sequence_Load a h \<le> v" "v \<le> Sequence_Load (cursor s) h"
  shows "same_log L (h, s) (Sequence_Store a v h, s)"
proof (cases "a \<in> set (gating s)")
  case True
  with acknowledge [OF ok _ v] show ?thesis by simp
next
  case False
  have "Sequence_Load b (Sequence_Store a v h) = Sequence_Load b h" if "b = cursor s \<or> b \<in> set (gating s)" for b
    using that False a by (auto simp: Sequence_Store_Load)
  with frame [OF ok] show ?thesis by blast
qed

lemma world_acknowledge:
  assumes I: "log_world L p skip (h, y)"
    and v: "Sequence_Load (bp_sequence p) h \<le> v" "v \<le> run_limit p (h, y)"
  shows "log_world L p skip (Sequence_Store (bp_sequence p) v h, y\<lparr>sys_app := a\<rparr>)"
    "rl_status L q (Sequence_Store (bp_sequence p) v h, sequencer (sys_ring y)) =
       rl_status L q (h, sequencer (sys_ring y))"
    "run_limit p (Sequence_Store (bp_sequence p) v h, y\<lparr>sys_app := a\<rparr>) = run_limit p (h, y)"
proof -
  let ?s = "sequencer (sys_ring y)" let ?o = "bp_sequence p" let ?h = "Sequence_Store ?o v h"
  have I': "rl_ok L (h, ?s)" "?o \<noteq> cursor ?s" "?o \<notin> set (reader_addrs (sb_dependent (bp_barrier p)))"
    "run_limit p (h, y) \<le> Sequence_Load (cursor ?s) h" "covered ?o (h, ?s)" "log_ring L skip (h, sys_ring y)"
    using I by (simp_all add: log_world_def log_ring_def)
  have "v \<le> Sequence_Load (cursor ?s) h" using v(2) I'(4) by simp
  note sl = store_same_log [OF I'(1,2) v(1) this]
  show "rl_status L q (?h, ?s) = rl_status L q (h, ?s)" using sl by (simp add: same_log_def)
  show lim: "run_limit p (?h, y\<lparr>sys_app := a\<rparr>) = run_limit p (h, y)"
    unfolding run_limit_def fst_conv by (rule reader_addrs_cong) (use I'(3) in \<open>auto simp: Sequence_Store_Load\<close>)
  have ld: "Sequence_Load ?o ?h = v" "Sequence_Load (cursor ?s) ?h = Sequence_Load (cursor ?s) h"
    using I'(2) by (auto simp: Sequence_Store_Load)
  obtain g where "g \<in> set (gating ?s)" "Sequence_Load g h \<le> Sequence_Load ?o h" using I'(5) by (auto simp: covered_def)
  then have "covered ?o (?h, ?s)" using v(1) ld(1) unfolding covered_def
    by (intro bexI [of _ g]) (auto simp: Sequence_Store_Load)
  moreover have "log_ring L skip (?h, sys_ring y)"
    using same_log_ring [OF I'(6), of ?h "sys_ring y"] sl by simp
  ultimately show "log_world L p skip (?h, y\<lparr>sys_app := a\<rparr>)"
    using I' lim ld v(2) by (simp add: log_world_def)
qed

text \<open>What the scan of a processor finds, and that acknowledging it is fine.\<close>

lemma world_scan:
  fixes h y p low
  defines "avail \<equiv> world_highest low (run_limit p (h, y)) (h, y)"
  assumes I: "log_world L p skip (h, y)" and low: "low = Sequence_Load (bp_sequence p) h + 1"
    and le: "low \<le> run_limit p (h, y)"
  shows "0 \<le> low" "low - 1 \<le> avail" "avail \<le> run_limit p (h, y)" "avail < 2 ^ 63 - 1"
    "low \<le> q \<Longrightarrow> q \<le> avail \<Longrightarrow>
       rl_status L q (h, sequencer (sys_ring y)) \<noteq> Unresolved \<and> skipped (h, sys_ring y) q = skip q"
    "avail < run_limit p (h, y) \<Longrightarrow> rl_status L (avail + 1) (h, sequencer (sys_ring y)) = Unresolved"
proof -
  let ?r = "sys_ring y" let ?s = "sequencer ?r"
  obtain g where I': "methods ?r = rl_methods L" "rl_ok L (h, ?s)" "g \<in> set (gating ?s)"
    "Sequence_Load g h \<le> low - 1" "run_limit p (h, y) \<le> Sequence_Load (cursor ?s) h"
    using I low by (auto simp: log_world_def log_ring_def covered_def)
  have av: "avail = seq_HighestPublished (rl_methods L) (low - 1 + 1) (run_limit p (h, y)) (h, ?s)"
    using I'(1) by (simp add: avail_def world_highest_def Let_def)
  note sc = scan [OF I'(2-4) _ I'(5) av]
  show "0 \<le> low" using world_gate(1) [OF I] low by simp
  show "low - 1 \<le> avail" "avail \<le> run_limit p (h, y)"
    "avail < run_limit p (h, y) \<Longrightarrow> rl_status L (avail + 1) (h, ?s) = Unresolved" using sc le by auto
  then show "avail < 2 ^ 63 - 1" using world_gate(3) [OF I] by simp
  show "rl_status L q (h, ?s) \<noteq> Unresolved \<and> skipped (h, ?r) q = skip q" if "low \<le> q" "q \<le> avail"
  proof -
    have q: "rl_live L q (h, ?s)" "rl_status L q (h, ?s) \<noteq> Unresolved" using sc le that by auto
    with is_discarded [OF I'(2) q(1)] I I'(1) show ?thesis
      by (auto simp: log_world_def log_ring_def skipped_def hasDiscardedClaims_def IsDiscarded_def)
  qed
qed

lemma world_app: "log_world L p skip (h, y) \<Longrightarrow> log_world L p skip (h, y\<lparr>sys_app := a\<rparr>)"
  by (simp add: log_world_def run_limit_def)

lemma world_run_rely: "run_rely p skip (log_world L p skip)"
  unfolding run_rely_def Let_def
proof (intro allI impI conjI)
  fix h y
  assume I: "log_world L p skip (h, y)"
  show "log_world L p skip (h, y\<lparr>sys_app := a\<rparr>)" for a using I by (rule world_app)
  let ?low = "Sequence_Load (bp_sequence p) h + 1"
  let ?dep = "sequenceReader_Load (sb_dependent (bp_barrier p)) h"
  let ?av = "world_highest ?low ?dep (h, y)"
  assume "?low \<le> ?dep"
  then have le: "?low \<le> run_limit p (h, y)" by (simp add: run_limit_def)
  have dep: "?dep = run_limit p (h, y)" by (simp add: run_limit_def)
  note sc = world_scan [OF I refl le, folded dep]
  show "?low - 1 \<le> ?av" "?av \<le> ?dep" "?av < 2 ^ 63 - 1" using sc(2-4) .
  show "skipped (h, sys_ring y) q = skip q" if "?low \<le> q \<and> q \<le> ?av" for q using sc(5) [of q] that by simp
  show "log_world L p skip (Sequence_Store (bp_sequence p) v h, y\<lparr>sys_app := a\<rparr>)" if "?low - 1 \<le> v \<and> v \<le> ?av" for v a
    using world_acknowledge(1) [OF I] sc(3) that dep by simp
qed

lemma world_start_rely: "start_rely p (log_world L p skip)"
  unfolding start_rely_def
proof (intro allI impI conjI)
  fix h y st
  assume I: "log_world L p skip (h, y)"
  then have ok: "rl_ok L (h, sequencer (sys_ring y))" by (simp add: log_world_def log_ring_def)
  have ld: "Sequence_Load a (SequenceBarrier_ClearAlert (bp_barrier p) h) = Sequence_Load a h" for a
    by (simp add: SequenceBarrier_ClearAlert_def heap_simps)
  show "log_world L p skip (SequenceBarrier_ClearAlert (bp_barrier p) h, y)"
    by (rule same_log_world [OF I frame [OF ok ld] refl ld])
  show "log_world L p skip (h, y\<lparr>sys_state := st\<rparr>)"
    by (rule same_log_world [OF I frame [OF ok]]) simp_all
qed

text \<open>
  What a step of another goroutine on the ring keeps: the contract, the gates with everything they say,
  and a cursor that does not move back.
\<close>

lemma claim_kept:
  assumes ring: "log_ring L skip (h, r)" and n: "rl_claimed L (h, sequencer r) + n < 2 ^ 63 - 1"
    and eq: "ring_act L skip (ClaimAction n) (h, r) = (h', r')"
  shows "log_ring L skip (h', r') \<and> same_gates (h, sequencer r) (h', sequencer r')"
proof -
  have ok: "rl_ok L (h, sequencer r)" "rl_claimed L (h, sequencer r) < 2 ^ 63 - 1" "methods r = rl_methods L"
    using ring by (simp_all add: log_ring_def)
  from claim [OF ok(1,2) n] obtain res ts' h1 s1 where
    t: "seq_TryNext (rl_methods L) [quiet] n (h, sequencer r) = Some (res, ts', h1, s1)"
    and k: "rl_ok L (h1, s1)" "same_gates (h, sequencer r) (h1, s1)" "rl_claimed L (h1, s1) < 2 ^ 63 - 1"
    and st: "\<forall>q. rl_live L q (h1, s1) \<and> rl_status L q (h1, s1) \<noteq> Unresolved \<longrightarrow>
      rl_live L q (h, sequencer r) \<and> rl_status L q (h, sequencer r) = rl_status L q (h1, s1)"
    by (metis surj_pair)
  have "h' = h1" "r' = r\<lparr>sequencer := s1\<rparr>" using eq n ok(3) t by (simp_all add: TryNextN_def)
  with k st ring show ?thesis by (simp add: log_ring_def) metis
qed

lemma resolve_kept:
  assumes ring: "log_ring L skip (h, r)" and pend: "rl_pending L low high (h, sequencer r)"
    and res: "resolved_as L st low high (h, sequencer r) (h', s')"
    and st: "st = Published \<and> (\<forall>q. low \<le> q \<and> q \<le> high \<longrightarrow> \<not> skip q) \<and> disc = rb_discarded r \<or>
      st = Discarded \<and> (\<forall>q. low \<le> q \<and> q \<le> high \<longrightarrow> skip q) \<and> disc"
  shows "log_ring L skip (h', r\<lparr>rb_discarded := disc, sequencer := s'\<rparr>)"
proof -
  have f: "rl_ok L (h', s')" "rl_claimed L (h', s') = rl_claimed L (h, sequencer r)"
    "\<And>q. rl_live L q (h', s') = rl_live L q (h, sequencer r)"
    "\<And>q. rl_live L q (h, sequencer r) \<Longrightarrow>
       rl_status L q (h', s') = (if low \<le> q \<and> q \<le> high then st else rl_status L q (h, sequencer r))"
    using res by (simp_all add: resolved_as_def)
  have "(rl_status L q (h', s') = Discarded \<longleftrightarrow> skip q) \<and> (skip q \<longrightarrow> disc)"
    if "rl_live L q (h, sequencer r)" "rl_status L q (h', s') \<noteq> Unresolved" for q
  proof (cases "low \<le> q \<and> q \<le> high")
    case True
    with st that f(4) [OF that(1)] show ?thesis by auto
  next
    case False
    with st that f(4) [OF that(1)] ring show ?thesis by (auto simp: log_ring_def)
  qed
  with f(1-3) ring show ?thesis by (auto simp: log_ring_def)
qed

lemma ring_act_kept:
  assumes ring: "log_ring L skip (h, r)" and eq: "ring_act L skip a (h, r) = (h', r')"
  shows "log_ring L skip (h', r') \<and> same_gates (h, sequencer r) (h', sequencer r')"
proof -
  have ok: "rl_ok L (h, sequencer r)" "methods r = rl_methods L" using ring by (simp_all add: log_ring_def)
  show ?thesis
  proof (cases "ring_act L skip a (h, r) = (h, r)")
    case True
    with eq ring show ?thesis by (simp add: same_gates_refl)
  next
    case act: False
    show ?thesis
    proof (cases a)
      case (ClaimAction n)
      with act have "rl_claimed L (h, sequencer r) + n < 2 ^ 63 - 1" by (auto split: if_splits)
      with claim_kept [OF ring] eq ClaimAction show ?thesis by blast
    next
      case (PublishAction low high)
      with act have g: "rl_pending L low high (h, sequencer r)" "\<forall>q. low \<le> q \<and> q \<le> high \<longrightarrow> \<not> skip q"
        by (auto split: if_splits)
      obtain h1 s1 where p: "seq_Publish (rl_methods L) low high (h, sequencer r) = (h1, s1)" by fastforce
      have "h' = h1" "r' = r\<lparr>sequencer := s1\<rparr>" using eq PublishAction g p ok(2)
        by (simp_all add: PublishRange_def on_sequencer_def)
      with publish [OF ok(1) g(1)] p resolve_kept [OF ring g(1), of Published h1 s1 "rb_discarded r"] g(2)
      show ?thesis by simp
    next
      case (DiscardAction low high)
      with act have g: "rl_pending L low high (h, sequencer r)" "\<forall>q. low \<le> q \<and> q \<le> high \<longrightarrow> skip q"
        by (auto split: if_splits)
      obtain h1 s1 where p: "seq_Discard (rl_methods L) low high (h, sequencer r) = (h1, s1)" by fastforce
      have "h' = h1" "r' = r\<lparr>rb_discarded := True, sequencer := s1\<rparr>" using eq DiscardAction g p ok(2)
        by (simp_all add: DiscardRange_def on_sequencer_def)
      with discard [OF ok(1) g(1)] p resolve_kept [OF ring g(1), of Discarded h1 s1 True] g(2)
      show ?thesis by simp
    qed
  qed
qed

lemma close_kept:
  assumes ring: "log_ring L skip (h, r)" and eq: "RingBuffer_Close (h, r) = (h', r')"
  shows "log_ring L skip (h', r') \<and> same_gates (h, sequencer r) (h', sequencer r')"
proof -
  let ?s = "sequencer r" let ?s' = "?s\<lparr>sealed := True, closeOnce := True\<rparr>"
  have ok: "rl_ok L (h, ?s)" "methods r = rl_methods L" using ring by (simp_all add: log_ring_def)
  have r': "r' = r\<lparr>sequencer := ?s'\<rparr>" and h': "h' = fst (base_Close (h, ?s))"
    using eq ok(2) close(1) Close_base [of h ?s] by (auto simp: RingBuffer_Close_def on_sequencer_def split: prod.splits)
  have ld: "Sequence_Load a h' = Sequence_Load a h" for a by (simp add: h' heap_simps)
  have c: "same_log L (h, ?s) (h, ?s')" by (rule close(2) [OF ok(1)])
  then have "rl_ok L (h, ?s')" by (simp add: same_log_def)
  from frame [OF this ld] c have "same_log L (h, ?s) (h', ?s')" by (simp add: same_log_def)
  from same_log_ring [OF ring, of h' r'] this ld show ?thesis by (simp add: r' same_gates_def)
qed

lemma in_world_kept:
  assumes I: "log_world L p skip (h, y)"
    and keep: "\<And>h' r'. f (h, sys_ring y) = (h', r') \<Longrightarrow>
      log_ring L skip (h', r') \<and> same_gates (h, sequencer (sys_ring y)) (h', sequencer r')"
  shows "log_world L p skip (in_world f (h, y)) \<and> run_view p (in_world f (h, y)) = run_view p (h, y)"
proof -
  obtain h' r' where f: "f (h, sys_ring y) = (h', r')" by fastforce
  let ?s = "sequencer (sys_ring y)" let ?y = "y\<lparr>sys_ring := r'\<rparr>"
  have k: "log_ring L skip (h', r')" "gating (sequencer r') = gating ?s" "cursor (sequencer r') = cursor ?s"
    "\<And>a. a \<noteq> cursor ?s \<Longrightarrow> Sequence_Load a h' = Sequence_Load a h"
    "Sequence_Load (cursor ?s) h \<le> Sequence_Load (cursor ?s) h'"
    using keep [OF f] by (auto simp: same_gates_def)
  have ok: "rl_ok L (h, ?s)" and o: "bp_sequence p \<noteq> cursor ?s" and cov: "covered (bp_sequence p) (h, ?s)"
    using I by (simp_all add: log_world_def log_ring_def)
  have ld: "Sequence_Load g h' = Sequence_Load g h" if "g \<in> set (gating ?s) \<or> g = bp_sequence p" for g
    using that gate [OF ok] o k(4) by blast
  have "log_world L p skip (h', ?y)"
  proof (rule world_moved [OF I])
    show "Sequence_Load a h \<le> Sequence_Load a h'" for a using k(4,5) by (cases "a = cursor ?s") simp_all
    show "Sequence_Load a h' = Sequence_Load a h \<or> Sequence_Load a h' \<le> Sequence_Load (cursor ?s) h'" for a
      using k(4) [of a] by (cases "a = cursor ?s") simp_all
    show "covered (bp_sequence p) (h', sequencer (sys_ring ?y))" using cov k(2) ld by (auto simp: covered_def)
  qed (use k(1,3) ld in simp_all)
  then show ?thesis using f ld by (simp add: in_world_def run_view_def)
qed

lemma acknowledge_kept:
  assumes I: "log_world L p skip (h, y)"
  shows "log_world L p skip (in_world (acknowledge_act (bp_sequence p) a v) (h, y)) \<and>
    run_view p (in_world (acknowledge_act (bp_sequence p) a v) (h, y)) = run_view p (h, y)"
proof -
  let ?s = "sequencer (sys_ring y)" let ?h = "Sequence_Store a v h"
  show ?thesis
  proof (cases "a \<noteq> bp_sequence p \<and> a \<noteq> cursor ?s \<and> Sequence_Load a h \<le> v \<and> v \<le> Sequence_Load (cursor ?s) h \<and>
      covered (bp_sequence p) (?h, ?s)")
    case True
    then have a: "a \<noteq> bp_sequence p" "a \<noteq> cursor ?s" "Sequence_Load a h \<le> v" "v \<le> Sequence_Load (cursor ?s) h"
      "covered (bp_sequence p) (?h, ?s)" by auto
    have ok: "rl_ok L (h, ?s)" and ring: "log_ring L skip (h, sys_ring y)"
      using I by (simp_all add: log_world_def log_ring_def)
    have w: "in_world (acknowledge_act (bp_sequence p) a v) (h, y) = (?h, y)"
      using a by (simp add: in_world_def acknowledge_act_def)
    have ld: "Sequence_Load b ?h = (if b = a then v else Sequence_Load b h)" for b by (simp add: Sequence_Store_Load)
    have "log_world L p skip (?h, y)"
    proof (rule world_moved [OF I])
      show "log_ring L skip (?h, sys_ring y)"
        by (rule same_log_ring [OF ring store_same_log [OF ok a(2-4)]]) simp_all
    qed (use a ld in auto)
    then show ?thesis using w a(1) ld by (simp add: run_view_def)
  next
    case False
    then have "in_world (acknowledge_act (bp_sequence p) a v) (h, y) = (h, y)"
      by (auto simp: in_world_def acknowledge_act_def Let_def)
    with I show ?thesis by simp
  qed
qed

lemma Halt_kept:
  assumes I: "log_world L p skip (h, y)"
  shows "log_world L p skip (Halt p (h, y)) \<and> run_view p (Halt p (h, y)) = run_view p (h, y)"
proof -
  obtain h' y' where e: "Halt p (h, y) = (h', y')" by fastforce
  have ld: "Sequence_Load a h' = Sequence_Load a h" "sys_ring y' = sys_ring y" for a
    using e by (auto simp: Halt_def Halt_swap_def set_state_def SequenceBarrier_Alert_def heap_simps
        split: processorState.splits)
  have "rl_ok L (h, sequencer (sys_ring y))" using I by (simp add: log_world_def log_ring_def)
  from same_log_world [OF I frame [OF this ld(1)] ld(2,1)] e run_view_Halt [of p "(h, y)"] show ?thesis by simp
qed

lemma others_kept:
  assumes "log_world L p skip w"
  shows "log_world L p skip (others L p skip as w) \<and> run_view p (others L p skip as w) = run_view p w"
  using assms
proof (induction as arbitrary: w)
  case (Cons a as)
  obtain h y where w: "w = (h, y)" by (cases w)
  have I: "log_world L p skip (h, y)" using Cons.prems w by simp
  then have ring: "log_ring L skip (h, sys_ring y)" by (simp add: log_world_def)
  have "log_world L p skip (env_act L p skip a w) \<and> run_view p (env_act L p skip a w) = run_view p w"
    unfolding w using in_world_kept [OF I] ring_act_kept [OF ring] close_kept [OF ring] Halt_kept [OF I] acknowledge_kept [OF I]
    by (cases a) auto
  with Cons.IH [of "env_act L p skip a w"] show ?case by (simp add: others_def)
qed (simp add: others_def)

lemma world_Run_exact:
  assumes "bp_handler p = logged handler" "1 \<le> bp_maxBatchSize p" "log_world L p skip w"
    and busy: "\<forall>t \<in> set ts. busy_turn L p skip t" and run: "Run p ts w = Some (res, ts', w')"
    and view: "run_view p w = (n, a, log)"
  shows "log_world L p skip w' \<and> (\<exists>acked a' log'. run_view p w' = (acked, a', log') \<and>
    exact_run skip (n + 1) (run_limit p w') log res acked log')"
proof -
  have n: "-1 \<le> n" "n < 2 ^ 63 - 1"
    using world_gate(1,2) [of p skip "fst w" "snd w"] assms(3) view by (simp_all add: run_view_def)
  have "harmless (log_world L p skip) (run_view p) t" if "busy_turn L p skip t" for t
    using that others_kept unfolding busy_turn_def harmless_def by fastforce
  with busy have "\<forall>t \<in> set ts. harmless (log_world L p skip) (run_view p) t" by blast
  from Run_exact [OF assms(1,2) world_run_rely world_start_rely run this assms(3) view n] show ?thesis .
qed

text \<open>Whatever the processor hands to its handler, the consumers before it have acknowledged.\<close>

lemma world_Run_behind:
  assumes "bp_handler p = logged handler" "1 \<le> bp_maxBatchSize p" "log_world L p skip w"
    and "\<forall>t \<in> set ts. busy_turn L p skip t" "Run p ts w = Some (res, ts', w')"
    and "run_view p w = (n, a, log)" and view: "run_view p w' = (acked, a', log')"
    and d: "d \<in> set (reader_addrs (sb_dependent (bp_barrier p)))"
  shows "acked \<le> Sequence_Load d (fst w') \<and> (\<forall>q \<in> set (drop (length log) (map fst log')). q \<le> Sequence_Load d (fst w'))"
proof -
  from world_Run_exact [OF assms(1-6)] view have I: "log_world L p skip w'"
    and ex: "exact_run skip (n + 1) (run_limit p w') log res acked log'" by auto
  have ack: "acked \<le> run_limit p w'" using I view by (simp add: log_world_def run_view_def)
  have lim: "run_limit p w' \<le> Sequence_Load d (fst w')" unfolding run_limit_def by (rule reader_addrs_le [OF d])
  from ex ack obtain k where k: "k \<le> run_limit p w'" "map fst log' = map fst log @ delivered skip (n + 1) k"
    by (auto simp: exact_run_def)
  have "drop (length log) (map fst log') = delivered skip (n + 1) k" unfolding k(2) by simp
  with ack lim k(1) show ?thesis by (auto simp: delivered_def)
qed

end

section \<open>Progress\<close>

text \<open>How many quiet turns a wait for a visible sequence takes, and that it takes exactly those.\<close>

fun wait_turns :: "WaitStrategy \<Rightarrow> nat" where
  "wait_turns (BlockingWaitStrategy s) = 2"
| "wait_turns _ = 1"

lemma visible_turns:
  assumes "desired \<le> sequenceReader_Load dep h" "desired \<le> sequenceReader_Load cur h"
  shows "wait_turns w \<le> n \<Longrightarrow> WaitStrategy_waitFor w (replicate n quiet @ us) desired cur dep st (h, b) =
      Some (Inr (sequenceReader_Load dep h), replicate (n - wait_turns w) quiet @ us, h, b)"
    "n < wait_turns w \<Longrightarrow> WaitStrategy_waitFor w (replicate n quiet) desired cur dep st (h, b) = None"
proof -
  show "WaitStrategy_waitFor w (replicate n quiet @ us) desired cur dep st (h, b) =
      Some (Inr (sequenceReader_Load dep h), replicate (n - wait_turns w) quiet @ us, h, b)"
    if "wait_turns w \<le> n"
  proof (cases w)
    case (BlockingWaitStrategy s)
    with that obtain m where "n = Suc (Suc m)" by (metis add_2_eq_Suc le_Suc_ex wait_turns.simps(1))
    with BlockingWaitStrategy assms show ?thesis by simp
  qed (use that assms in \<open>cases n; simp\<close>)+
  show "n < wait_turns w \<Longrightarrow> WaitStrategy_waitFor w (replicate n quiet) desired cur dep st (h, b) = None"
    using assms by (cases w; cases n; cases "n - 1") simp_all
qed

text \<open>The next batch of a run on its own.\<close>

definition next_ready :: "('t, 's) BatchProcessor \<Rightarrow> int64 \<Rightarrow> ('t, 'b, 's) world \<Rightarrow> bool" where
  "next_ready p low w \<longleftrightarrow>
     \<not> flags (fst w) (sb_alerted (bp_barrier p)) \<and>
     low \<le> sequenceReader_Load (sb_dependent (bp_barrier p)) (fst w) \<and>
     low \<le> Sequence_Load (sb_cursor (bp_barrier p)) (fst w)"

lemma Run_loop_step:
  assumes "next_ready p low (h, y)" "wait_turns (sb_wait (bp_barrier p)) \<le> n"
    and "e = batch_end (bp_maxBatchSize p) low
       (world_highest low (sequenceReader_Load (sb_dependent (bp_barrier p)) h) (h, y))"
    and "processBatch (h, sys_ring y) (bp_handler p) low e (sys_app y) = (None, app)"
  shows "Run_loop p (replicate (Suc n) quiet @ us) low (h, y) =
    Run_loop p (replicate (n - wait_turns (sb_wait (bp_barrier p))) quiet @ us) (i64 (e + 1))
      (Sequence_Store (bp_sequence p) e h, y\<lparr>sys_app := app\<rparr>)"
proof -
  let ?b = "bp_barrier p"
  let ?dep = "sequenceReader_Load (sb_dependent ?b) h"
  have v: "low \<le> ?dep" "low \<le> sequenceReader_Load (SequenceReader (sb_cursor ?b)) h" "\<not> flags h (sb_alerted ?b)"
    using assms(1) by (simp_all add: next_ready_def)
  have "SequenceBarrier_WaitFor world_highest ?b (replicate n quiet @ us) low (h, y) =
    Some (Inr (world_highest low ?dep (h, y)), replicate (n - wait_turns (sb_wait ?b)) quiet @ us, h, y)"
    using visible_turns(1) [OF v(1,2) assms(2), where b = y and us = us] v(1,3) by (simp add: SequenceBarrier_WaitFor_def)
  then show ?thesis using assms(3,4) by (simp add: Let_def)
qed

text \<open>A processor nobody has alerted, whose barrier watches the cursor of its ring.\<close>

definition unalerted ::
  "('t, 's) BatchProcessor \<Rightarrow> ('t, 'a sequencerBase_scheme, 's) world \<Rightarrow> bool"
where
  "unalerted p w \<longleftrightarrow>
     \<not> flags (fst w) (sb_alerted (bp_barrier p)) \<and> sb_cursor (bp_barrier p) = cursor (snd (world_slots w))"

abbreviation position :: "('t, 's) BatchProcessor \<Rightarrow> ('t, 'b, 's) world \<Rightarrow> int64" where
  "position p w \<equiv> Sequence_Load (bp_sequence p) (fst w)"

lemma wait_turns_le: "wait_turns w \<le> 2"
  by (cases w) simp_all

lemma processBatch_succeeds:
  assumes "\<And>event q eob a. fst (handler event q eob a) = Returned None"
  shows "\<exists>app'. processBatch hr handler low high app = (None, app')"
proof -
  have "\<exists>app'. deliver r handler evs app = (None, app')" for r evs
  proof (induction evs arbitrary: app)
    case (Cons ev evs)
    obtain q eob where ev: "ev = (q, eob)" by (cases ev)
    obtain app1 where "handler (Get r q) q eob app = (Returned None, app1)"
      using assms [of "Get r q" q eob app] by (metis prod.collapse)
    with Cons.IH [of app1] show ?case by (simp add: ev handleEvent_def)
  qed simp
  then show ?thesis by (simp add: processBatch_deliver)
qed

context gated_log
begin

text \<open>One batch of a run on its own: the store and the contract after it, and the turns it took.\<close>

lemma world_step:
  fixes p h y
  defines "low \<equiv> position p (h, y) + 1"
    and "avail \<equiv> world_highest (position p (h, y) + 1) (run_limit p (h, y)) (h, y)"
  assumes I: "log_world L p skip (h, y)" and un: "unalerted p (h, y)" and lt: "position p (h, y) < run_limit p (h, y)"
    and n: "Suc (wait_turns (sb_wait (bp_barrier p))) \<le> n"
    and e: "e = batch_end (bp_maxBatchSize p) low avail" "low - 1 \<le> e" "e \<le> avail"
    and pb: "processBatch (h, sys_ring y) (bp_handler p) low e (sys_app y) = (None, app)"
    and w': "w' = (Sequence_Store (bp_sequence p) e h, y\<lparr>sys_app := app\<rparr>)"
  shows "Run_loop p (replicate n quiet @ us) low (h, y) =
      Run_loop p (replicate (n - Suc (wait_turns (sb_wait (bp_barrier p)))) quiet @ us) (e + 1) w'"
    "log_world L p skip w'" "unalerted p w'" "position p w' = e" "run_limit p w' = run_limit p (h, y)"
    "rl_status L q (world_slots w') = rl_status L q (h, sequencer (sys_ring y))"
proof -
  let ?wt = "wait_turns (sb_wait (bp_barrier p))"
  have dep: "sequenceReader_Load (sb_dependent (bp_barrier p)) h = run_limit p (h, y)" by (simp add: run_limit_def)
  have le: "low \<le> run_limit p (h, y)" using lt by (simp add: low_def)
  have cur: "run_limit p (h, y) \<le> Sequence_Load (cursor (sequencer (sys_ring y))) h" using I by (simp add: log_world_def)
  note sc = world_scan [OF I low_def [THEN meta_eq_to_obj_eq, simplified] le]
  have av: "low - 1 \<le> avail" "avail \<le> run_limit p (h, y)" "avail < 2 ^ 63 - 1" "0 \<le> low"
    using sc(1-4) by (simp_all add: avail_def low_def)
  obtain m where m: "n = Suc m" "?wt \<le> m" using n by (metis Suc_le_D Suc_le_mono)
  have nr: "next_ready p low (h, y)" using un dep le cur by (simp add: next_ready_def unalerted_def)
  have ie: "i64 (e + 1) = e + 1" using e(2,3) av by (intro i64_id) auto
  show "Run_loop p (replicate n quiet @ us) low (h, y) =
      Run_loop p (replicate (n - Suc ?wt) quiet @ us) (e + 1) w'"
    using Run_loop_step [OF nr m(2) _ pb, of us] e(1) dep ie m(1) w' by (simp add: avail_def low_def)
  have v: "Sequence_Load (bp_sequence p) h \<le> e" "e \<le> run_limit p (h, y)"
    using e(2,3) av(2) by (simp_all add: low_def)
  note ack = world_acknowledge [OF I v]
  show "log_world L p skip w'" using ack(1) w' by simp
  show "unalerted p w'" using un w' by (simp add: unalerted_def heap_simps)
  show "position p w' = e" using w' by (simp add: Sequence_Store_Load)
  show "run_limit p w' = run_limit p (h, y)" using ack(3) w' by simp
  show "rl_status L q (world_slots w') = rl_status L q (h, sequencer (sys_ring y))" using ack(2) w' by simp
qed

text \<open>On its own, a run loop works through everything that is resolved.\<close>

lemma scan_reaches_limit:
  assumes "log_world L p skip (h, y)" "position p (h, y) < run_limit p (h, y)"
    and "\<forall>q. position p (h, y) < q \<and> q \<le> run_limit p (h, y) \<longrightarrow> rl_status L q (h, sequencer (sys_ring y)) \<noteq> Unresolved"
  shows "world_highest (position p (h, y) + 1) (run_limit p (h, y)) (h, y) = run_limit p (h, y)"
proof (rule ccontr)
  let ?av = "world_highest (position p (h, y) + 1) (run_limit p (h, y)) (h, y)"
  note sc = world_scan [OF assms(1) refl]
  assume "?av \<noteq> run_limit p (h, y)"
  with sc(2,3,6) assms(2) have "position p (h, y) < ?av + 1" "?av + 1 \<le> run_limit p (h, y)"
    "rl_status L (?av + 1) (h, sequencer (sys_ring y)) = Unresolved" by simp_all
  with assms(3) show False by blast
qed

lemma world_catches_up:
  assumes ok: "\<And>event q eob a. fst (bp_handler p event q eob a) = Returned None" "1 \<le> bp_maxBatchSize p"
    and "log_world L p skip w" "unalerted p w" "run_limit p w = c"
    and "\<forall>q. position p w < q \<and> q \<le> c \<longrightarrow> rl_status L q (world_slots w) \<noteq> Unresolved"
    and "3 * nat (c - position p w) \<le> n"
  shows "\<exists>m w'. Run_loop p (replicate n quiet @ us) (position p w + 1) w =
      Run_loop p (replicate m quiet @ us) (c + 1) w' \<and> position p w' = c"
  using assms(3-)
proof (induction "nat (c - position p w)" arbitrary: w n rule: less_induct)
  case less
  obtain h y where w: "w = (h, y)" by (cases w)
  note I = less(2) [unfolded w] and un = less(3) [unfolded w] and cur = less(4) [unfolded w]
    and res = less(5) [unfolded w] and n = less(6) [unfolded w]
  show ?case
  proof (cases "position p (h, y) < run_limit p (h, y)")
    case False
    then have "position p w = c" using I cur w by (simp add: log_world_def)
    then show ?thesis by blast
  next
    case lt: True
    let ?low = "position p (h, y) + 1"
    have av: "world_highest ?low (run_limit p (h, y)) (h, y) = c"
      using scan_reaches_limit [OF I lt] res cur by simp
    define e where "e = batch_end (bp_maxBatchSize p) ?low c"
    have r: "0 \<le> ?low" "?low - 1 \<le> c" "c < 2 ^ 63 - 1" using world_gate [OF I] lt cur by simp_all
    from batch_end_bounds [OF r ok(2)] lt cur have e: "position p (h, y) < e" "e \<le> c" by (simp_all add: e_def)
    obtain app where pb: "processBatch (h, sys_ring y) (bp_handler p) ?low e (sys_app y) = (None, app)"
      using processBatch_succeeds [of "bp_handler p"] ok(1) by metis
    define w' where "w' = (Sequence_Store (bp_sequence p) e h, y\<lparr>sys_app := app\<rparr>)"
    have len: "Suc (wait_turns (sb_wait (bp_barrier p))) \<le> n"
      "3 * nat (c - e) \<le> n - Suc (wait_turns (sb_wait (bp_barrier p)))"
      using n e wait_turns_le [of "sb_wait (bp_barrier p)"] by linarith+
    have e': "e = batch_end (bp_maxBatchSize p) ?low (world_highest ?low (run_limit p (h, y)) (h, y))"
      "?low - 1 \<le> e" "e \<le> world_highest ?low (run_limit p (h, y)) (h, y)" using e av by (simp_all add: e_def)
    note st = world_step [OF I un lt len(1) e' pb w'_def]
    have "\<exists>m w''. Run_loop p (replicate (n - Suc (wait_turns (sb_wait (bp_barrier p)))) quiet @ us) (position p w' + 1) w' =
        Run_loop p (replicate m quiet @ us) (c + 1) w'' \<and> position p w'' = c"
    proof (rule less(1))
      show "nat (c - position p w') < nat (c - position p w)" using e w st(4) by simp
      show "\<forall>q. position p w' < q \<and> q \<le> c \<longrightarrow> rl_status L q (world_slots w') \<noteq> Unresolved"
        using res e st(4,6) by auto
    qed (use st(2-5) cur len(2) in simp_all)
    with st(1) [of us] st(4) w show ?thesis by simp
  qed
qed

text \<open>
  On its own, a run loop that has reached a gap in front of its dependencies never returns, and closing
  the ring does not change that: the wait returns the position before the gap without an error.
\<close>

lemma world_gap:
  assumes max: "1 \<le> bp_maxBatchSize p" and "log_world L p skip w" "unalerted p w" "position p w < run_limit p w"
    and "rl_status L (position p w + 1) (world_slots w) = Unresolved"
  shows "Run_loop p (replicate n quiet) (position p w + 1) w = None"
  using assms(2-)
proof (induction n arbitrary: w rule: less_induct)
  case (less n)
  obtain h y where w: "w = (h, y)" by (cases w)
  note I = less(2) [unfolded w] and un = less(3) [unfolded w] and lt = less(4) [unfolded w]
    and gap = less(5) [unfolded w]
  let ?wt = "wait_turns (sb_wait (bp_barrier p))" let ?low = "position p (h, y) + 1"
  let ?av = "world_highest ?low (run_limit p (h, y)) (h, y)"
  note sc = world_scan [OF I refl]
  have av: "?av = ?low - 1" using sc(2) sc(5) [of ?low] gap lt by force
  consider "n = 0" | m where "n = Suc m" "m < ?wt" | "Suc ?wt \<le> n" by (cases n) (simp, metis Suc_le_mono not_le)
  then show ?case
  proof cases
    case 2
    have "?low \<le> sequenceReader_Load (sb_dependent (bp_barrier p)) h"
      "?low \<le> sequenceReader_Load (SequenceReader (sb_cursor (bp_barrier p))) h"
      using lt I un by (simp_all add: unalerted_def log_world_def run_limit_def)
    from visible_turns(2) [OF this 2(2), where b = y] un 2(1) show ?thesis
      by (simp add: w unalerted_def SequenceBarrier_WaitFor_def)
  next
    case 3
    have e: "?low - 1 = batch_end (bp_maxBatchSize p) ?low ?av" "?low - 1 \<le> ?low - 1" "?low - 1 \<le> ?av"
      using max av by (simp_all add: batch_end_def i64_id)
    have pb: "processBatch (h, sys_ring y) (bp_handler p) ?low (?low - 1) (sys_app y) = (None, sys_app y)"
      by (simp add: processBatch_deliver batch_events_def delivered_def)
    note st = world_step [OF I un lt 3 e pb refl]
    have "Run_loop p (replicate (n - Suc ?wt) quiet) (position p w' + 1) w' = None"
      if w': "w' = (Sequence_Store (bp_sequence p) (?low - 1) h, y\<lparr>sys_app := sys_app y\<rparr>)" for w'
      using less(1) [of "n - Suc ?wt" w'] st(2-6) 3 lt gap by (simp add: w')
    from this [OF refl] st(1) [of "[]"] st(4) w show ?thesis by simp
  qed simp
qed

end

section \<open>Properties\<close>

text \<open>
  C7. A batch processor on a multi-producer ring delivers every published sequence exactly once and in
  order, whatever producers claim, publish and discard while it runs and whenever it is halted or closed: when
  \<open>Run\<close> returns, the calls its handler got are the published sequences from the one after the
  acknowledged position up to the new acknowledged position, with the discarded ones left out; only a
  handler failure leaves calls behind that are not acknowledged, up to the sequence the error names. The
  processor may stand anywhere in a graph of consumers that acknowledge while it runs.
\<close>

theorem Run_delivers_exactly_once:
  assumes "bp_handler p = logged handler" "1 \<le> bp_maxBatchSize p" "log_world multiLog p skip w"
    and "\<forall>t \<in> set ts. busy_turn multiLog p skip t" "Run p ts w = Some (res, ts', w')"
    and "run_view p w = (n, a, log)"
  shows "\<exists>acked a' log'. run_view p w' = (acked, a', log') \<and> n \<le> acked \<and>
    (map fst log' = map fst log @ filter (\<lambda>q. \<not> skip q) [n + 1..acked] \<or>
     (\<exists>q err. res = Some err \<and> failure_at q err \<and> acked < q \<and> \<not> skip q \<and>
        map fst log' = map fst log @ filter (\<lambda>q. \<not> skip q) [n + 1..q]))"
  using multi_gated.world_Run_exact [OF assms] by (auto simp: exact_run_def delivered_def)

text \<open>
  C8. The same on a single-producer ring, where the producer publishes and discards its claims in order
  and a slot keeps the mark of the last sequence discarded in it.
\<close>

theorem single_Run_delivers_exactly_once:
  assumes "bp_handler p = logged handler" "1 \<le> bp_maxBatchSize p" "log_world singleLog p skip w"
    and "\<forall>t \<in> set ts. busy_turn singleLog p skip t" "Run p ts w = Some (res, ts', w')"
    and "run_view p w = (n, a, log)"
  shows "\<exists>acked a' log'. run_view p w' = (acked, a', log') \<and> n \<le> acked \<and>
    (map fst log' = map fst log @ filter (\<lambda>q. \<not> skip q) [n + 1..acked] \<or>
     (\<exists>q err. res = Some err \<and> failure_at q err \<and> acked < q \<and> \<not> skip q \<and>
        map fst log' = map fst log @ filter (\<lambda>q. \<not> skip q) [n + 1..q]))"
  using single_gated.world_Run_exact [OF assms] by (auto simp: exact_run_def delivered_def)

text \<open>
  A ring of four entries with one gating processor, and producers that claim three sequences, publish
  the first and the last and discard the one between them while the processor waits.
\<close>

definition gated_demo ::
  "'b Sequencer \<Rightarrow> heap \<times> 'b \<Rightarrow>
   (int, int \<times> (int64 \<times> bool) list) BatchProcessor \<times> (int, 'b, int \<times> (int64 \<times> bool) list) world"
where
  "gated_demo m hs =
     (let (b, h1, r1) = RingBuffer_NewBarrier []
            (fst hs, \<lparr>entries = [10, 11, 12, 13], rb_indexMask = 3, methods = m, sequencer = snd hs,
                      rb_discarded = False\<rparr>);
          (g, h2) = NewSequence InitialSequence h1;
          (h3, r3) = RingBuffer_AddGatingSequences [Some g] (h2, r1)
      in (\<lparr>bp_barrier = b, bp_handler = logged (\<lambda>event q eob acc. (Returned None, acc + event)),
            bp_sequence = g, bp_maxBatchSize = 2\<rparr>,
          (h3, \<lparr>sys_ring = r3, sys_state = processorIdle, sys_app = (0, [])\<rparr>)))"

definition demo_turns ::
  "'a sequencerBase_scheme ring_log \<Rightarrow> (int, int \<times> (int64 \<times> bool) list) BatchProcessor \<Rightarrow>
   (int, 'a sequencerBase_scheme, int \<times> (int64 \<times> bool) list) world turn list"
where
  "demo_turns L p =
     (let work = (\<lambda>as. others L p (\<lambda>q. q = 1) as) in
      [quiet, quiet,
       quiet\<lparr>t_pre := work [Producer (ClaimAction 3), Producer (PublishAction 0 0), Producer (DiscardAction 1 1)],
             t_mid := work [], t_park := work []\<rparr>,
       quiet\<lparr>t_pre := work [Producer (PublishAction 2 2)]\<rparr>,
       quiet, quiet\<lparr>t_pre := work [HaltCall]\<rparr>])"

lemma demo_turns_busy: "\<forall>t \<in> set (demo_turns L p). busy_turn L p (\<lambda>q. q = 1) t"
  using quiet_busy by (auto simp: demo_turns_def busy_turn_def Let_def quiet_def)

lemma gated_demo_sel:
  "bp_handler (fst (gated_demo m hs)) = logged (\<lambda>event q eob acc. (Returned None, acc + event))"
  "bp_maxBatchSize (fst (gated_demo m hs)) = 2" "methods (sys_ring (snd (snd (gated_demo m hs)))) = m"
  by (simp_all add: gated_demo_def RingBuffer_NewBarrier_def RingBuffer_AddGatingSequences_def on_sequencer_def
      split_def Let_def)

definition multi_processor :: "(int, int \<times> (int64 \<times> bool) list) BatchProcessor" where
  "multi_processor = fst (gated_demo multiSequencer fresh_multi)"

definition multi_start :: "(int, multiProducerSequencer, int \<times> (int64 \<times> bool) list) world" where
  "multi_start = snd (gated_demo multiSequencer fresh_multi)"

definition single_processor :: "(int, int \<times> (int64 \<times> bool) list) BatchProcessor" where
  "single_processor = fst (gated_demo singleSequencer fresh_single)"

definition single_start :: "(int, singleProducerSequencer, int \<times> (int64 \<times> bool) list) world" where
  "single_start = snd (gated_demo singleSequencer fresh_single)"

lemma multi_start_ok: "log_world multiLog multi_processor skip multi_start"
proof -
  let ?w = "multi_start" let ?s = "world_slots ?w"
  have "multi_ok ?s" "multi_claimed ?s = -1" "Sequence_Load (bp_sequence multi_processor) (fst ?w) = -1"
    "run_limit multi_processor ?w = -1" "Sequence_Load (cursor (snd ?s)) (fst ?w) = -1"
    "bp_sequence multi_processor \<noteq> cursor (snd ?s)" "covered (bp_sequence multi_processor) ?s"
    "bp_sequence multi_processor \<notin> set (reader_addrs (sb_dependent (bp_barrier multi_processor)))" by code_simp+
  moreover have "methods (sys_ring (snd ?w)) = multiSequencer" by (simp add: multi_start_def gated_demo_sel)
  ultimately show ?thesis
    by (auto simp: log_world_def log_ring_def multiLog_def multi_live_def multi_claimed_def)
qed

lemma single_start_ok: "log_world singleLog single_processor skip single_start"
proof -
  let ?w = "single_start" let ?s = "world_slots ?w"
  have "single_log_ok ?s" "nextValue (snd ?s) = -1" "Sequence_Load (bp_sequence single_processor) (fst ?w) = -1"
    "run_limit single_processor ?w = -1" "Sequence_Load (cursor (snd ?s)) (fst ?w) = -1"
    "bp_sequence single_processor \<noteq> cursor (snd ?s)" "covered (bp_sequence single_processor) ?s"
    "bp_sequence single_processor \<notin> set (reader_addrs (sb_dependent (bp_barrier single_processor)))" by code_simp+
  moreover have "methods (sys_ring (snd ?w)) = singleSequencer" by (simp add: single_start_def gated_demo_sel)
  ultimately show ?thesis
    by (auto simp: log_world_def log_ring_def singleLog_def single_live_def)
qed

theorem Run_delivers_exactly_once_witness:
  "\<exists>w'. Run multi_processor (demo_turns multiLog multi_processor) multi_start = Some (None, [], w') \<and>
     run_view multi_processor w' = (2, 22, [(0, True), (2, True)])"
proof -
  let ?p = multi_processor and ?ts = "demo_turns multiLog multi_processor"
  have "map_option (\<lambda>(res, ts, w'). (res, length ts, run_view ?p w')) (Run ?p ?ts multi_start) =
      Some (None, 0, 2, 22, [(0, True), (2, True)])" by code_simp
  then obtain w' where run: "Run ?p ?ts multi_start = Some (None, [], w')"
    and view: "run_view ?p w' = (2, 22, [(0, True), (2, True)])" by auto
  have p: "bp_handler ?p = logged (\<lambda>event q eob acc. (Returned None, acc + event))" "1 \<le> bp_maxBatchSize ?p"
    by (simp_all add: multi_processor_def gated_demo_sel)
  have v0: "run_view ?p multi_start = (-1, 0, [])" by code_simp
  from Run_delivers_exactly_once [OF p multi_start_ok demo_turns_busy run v0] view
  have "[0, 2] = filter (\<lambda>q. q \<noteq> 1) [0..2 :: int]" by (auto simp: failure_at_def)
  with run view show ?thesis by blast
qed

theorem single_Run_delivers_exactly_once_witness:
  "\<exists>w'. Run single_processor (demo_turns singleLog single_processor) single_start = Some (None, [], w') \<and>
     run_view single_processor w' = (2, 22, [(0, True), (2, True)])"
proof -
  let ?p = single_processor and ?ts = "demo_turns singleLog single_processor"
  have "map_option (\<lambda>(res, ts, w'). (res, length ts, run_view ?p w')) (Run ?p ?ts single_start) =
      Some (None, 0, 2, 22, [(0, True), (2, True)])" by code_simp
  then obtain w' where run: "Run ?p ?ts single_start = Some (None, [], w')"
    and view: "run_view ?p w' = (2, 22, [(0, True), (2, True)])" by auto
  have p: "bp_handler ?p = logged (\<lambda>event q eob acc. (Returned None, acc + event))" "1 \<le> bp_maxBatchSize ?p"
    by (simp_all add: single_processor_def gated_demo_sel)
  have v0: "run_view ?p single_start = (-1, 0, [])" by code_simp
  from single_Run_delivers_exactly_once [OF p single_start_ok demo_turns_busy run v0] view
  have "[0, 2] = filter (\<lambda>q. q \<noteq> 1) [0..2 :: int]" by (auto simp: failure_at_def)
  with run view show ?thesis by blast
qed

text \<open>
  C9. Consumers keep the order of the dependency graph: what a processor hands to its handler and what it
  acknowledges has been acknowledged before by every consumer its barrier depends on, whoever else runs.
\<close>

theorem Run_behind_dependencies:
  assumes "bp_handler p = logged handler" "1 \<le> bp_maxBatchSize p" "log_world multiLog p skip w"
    and "\<forall>t \<in> set ts. busy_turn multiLog p skip t" "Run p ts w = Some (res, ts', w')"
    and "run_view p w = (n, a, log)" "run_view p w' = (acked, a', log')"
    and "d \<in> set (reader_addrs (sb_dependent (bp_barrier p)))"
  shows "acked \<le> Sequence_Load d (fst w') \<and>
    (\<forall>q \<in> set (drop (length log) (map fst log')). q \<le> Sequence_Load d (fst w'))"
  by (rule multi_gated.world_Run_behind [OF assms])

text \<open>
  The second stage of a pipeline: its barrier depends on the sequence of a first stage, which acknowledges
  two of the three published sequences while the second stage runs.
\<close>

definition second_stage ::
  "(int, int \<times> (int64 \<times> bool) list) BatchProcessor \<times>
   (int, multiProducerSequencer, int \<times> (int64 \<times> bool) list) world"
where
  "second_stage =
     (let (first, h1) = NewSequence InitialSequence (fst multi_start);
          (b, h2, r2) = RingBuffer_NewBarrier [first] (h1, sys_ring (snd multi_start))
      in (multi_processor\<lparr>bp_barrier := b\<rparr>, (h2, (snd multi_start)\<lparr>sys_ring := r2\<rparr>)))"

definition stage_turns :: "(int, multiProducerSequencer, int \<times> (int64 \<times> bool) list) world turn list" where
  "stage_turns =
     (let p = fst second_stage; first = hd (reader_addrs (sb_dependent (bp_barrier p)));
          work = (\<lambda>as. others multiLog p (\<lambda>q. False) as) in
      [quiet, quiet\<lparr>t_pre := work [Producer (ClaimAction 3), Producer (PublishAction 0 2), Acknowledge first 1]\<rparr>,
       quiet, quiet, quiet\<lparr>t_pre := work [HaltCall]\<rparr>])"

theorem Run_behind_dependencies_witness:
  "\<exists>w' d. Run (fst second_stage) stage_turns (snd second_stage) = Some (None, [], w') \<and>
     run_view (fst second_stage) w' = (1, 21, [(0, False), (1, True)]) \<and>
     d \<in> set (reader_addrs (sb_dependent (bp_barrier (fst second_stage)))) \<and> 1 \<le> Sequence_Load d (fst w')"
proof -
  let ?p = "fst second_stage" and ?w = "snd second_stage"
  have "map_option (\<lambda>(res, ts, w'). (res, length ts, run_view ?p w')) (Run ?p stage_turns ?w) =
      Some (None, 0, 1, 21, [(0, False), (1, True)])" by code_simp
  then obtain w' where run: "Run ?p stage_turns ?w = Some (None, [], w')"
    and view: "run_view ?p w' = (1, 21, [(0, False), (1, True)])" by auto
  have p: "bp_handler ?p = logged (\<lambda>event q eob acc. (Returned None, acc + event))" "1 \<le> bp_maxBatchSize ?p"
    by (simp_all add: second_stage_def multi_processor_def gated_demo_sel split_def Let_def)
  have world: "log_world multiLog ?p (\<lambda>q. False) ?w"
  proof -
    let ?s = "world_slots ?w"
    have "multi_ok ?s" "multi_claimed ?s = -1" "Sequence_Load (bp_sequence ?p) (fst ?w) = -1"
      "run_limit ?p ?w = -1" "Sequence_Load (cursor (snd ?s)) (fst ?w) = -1"
      "bp_sequence ?p \<noteq> cursor (snd ?s)" "covered (bp_sequence ?p) ?s"
      "bp_sequence ?p \<notin> set (reader_addrs (sb_dependent (bp_barrier ?p)))" by code_simp+
    moreover have "methods (sys_ring (snd ?w)) = multiSequencer"
      by (simp add: second_stage_def multi_start_def gated_demo_sel RingBuffer_NewBarrier_def split_def Let_def)
    ultimately show ?thesis
      by (auto simp: log_world_def log_ring_def multiLog_def multi_live_def multi_claimed_def)
  qed
  have busy: "\<forall>t \<in> set stage_turns. busy_turn multiLog ?p (\<lambda>q. False) t"
    using quiet_busy by (auto simp: stage_turns_def busy_turn_def Let_def quiet_def)
  have v0: "run_view ?p ?w = (-1, 0, [])" by code_simp
  have ne: "reader_addrs (sb_dependent (bp_barrier ?p)) \<noteq> []" by code_simp
  obtain d where d: "d \<in> set (reader_addrs (sb_dependent (bp_barrier ?p)))"
    using ne by (cases "reader_addrs (sb_dependent (bp_barrier ?p))") auto
  from Run_behind_dependencies [OF p world busy run v0 view d] run view d show ?thesis by auto
qed


text \<open>
  C35. A processor that has reached a claimed but unresolved sequence of a multi-producer ring does not
  return on its own, also not when the ring is closed: the wait hands back the position before the gap
  again and again. The comment on \<open>Run\<close> promises that closing the ring returns \<open>ErrClosed\<close>.
\<close>

theorem Run_spins_at_gap:
  assumes "1 \<le> bp_maxBatchSize p" "log_world multiLog p skip w" "unalerted p w"
    and "low = Sequence_Load (bp_sequence p) (fst w) + 1" "low \<le> run_limit p w"
    and "multi_status low (fst w, sequencer (sys_ring (snd w))) = Unresolved"
  shows "Run_loop p (replicate n quiet) low w = None"
  using multi_gated.world_gap [of p skip w n] assms by (simp add: multiLog_def multi_claimed_def)

text \<open>The gating processor again: with a backlog of three sequences, and in front of a gap of a closed ring.\<close>

definition backlog_world :: "(int, multiProducerSequencer, int \<times> (int64 \<times> bool) list) world" where
  "backlog_world = others multiLog multi_processor (\<lambda>q. q = 1)
     [Producer (ClaimAction 3), Producer (PublishAction 0 0), Producer (DiscardAction 1 1),
      Producer (PublishAction 2 2)] multi_start"

definition gap_world :: "(int, multiProducerSequencer, int \<times> (int64 \<times> bool) list) world" where
  "gap_world = others multiLog multi_processor (\<lambda>q. q = 1) [Producer (ClaimAction 2), CloseCall] multi_start"


theorem Run_spins_at_gap_witness:
  "Run_loop multi_processor (replicate 100 quiet) 0 gap_world = None \<and>
   flags (fst gap_world) (sb_closed (bp_barrier multi_processor))"
proof -
  let ?p = multi_processor and ?w = gap_world
  have world: "log_world multiLog ?p (\<lambda>q. q = 1) ?w"
    unfolding gap_world_def using multi_gated.others_kept [OF multi_start_ok] by blast
  have f: "unalerted ?p ?w" "0 = Sequence_Load (bp_sequence ?p) (fst ?w) + 1"
    "0 \<le> run_limit ?p ?w"
    "multi_status 0 (fst ?w, sequencer (sys_ring (snd ?w))) = Unresolved" "flags (fst ?w) (sb_closed (bp_barrier ?p))"
    by code_simp+
  have "1 \<le> bp_maxBatchSize ?p" by (simp add: multi_processor_def gated_demo_sel)
  from Run_spins_at_gap [OF this world f(1-4), of 100] f(5) show ?thesis by blast
qed

end
