(* ===== verification/Graceful.thy ===== *)
theory Graceful
  imports Delivery
begin

text \<open>
  A processor and \<open>Shutdown\<close> together. \<open>Shutdown\<close> seals the ring against new claims, and closes it when every
  gate has reached the last claim; its two steps come between the steps of a processor, like the work of
  the producers and the other consumers. A claim is one step here: a producer that has looked at the seal
  before the shutdown and claims after it, which \<open>Shutdown\<close> does not wait for, is left to \<open>Multi_Protocol\<close>.
  The locale \<open>drained_log\<close> adds to \<open>gated_log\<close> what sealing promises.
\<close>

section \<open>Sealing a ring\<close>

text \<open>A step that neither seals nor closes the ring.\<close>

definition same_door ::
  "heap \<times> 'a sequencerBase_scheme \<Rightarrow> heap \<times> 'a sequencerBase_scheme \<Rightarrow> bool"
where
  "same_door hs hs' \<longleftrightarrow>
     closed_flag (snd hs') = closed_flag (snd hs) \<and> sealed (snd hs') = sealed (snd hs) \<and>
     flags (fst hs') (closed_flag (snd hs)) = flags (fst hs) (closed_flag (snd hs))"

locale drained_log = gated_log +
  assumes seal: "rl_ok L (h, s) \<Longrightarrow> same_log L (h, s) (h, s\<lparr>sealed := True\<rparr>)"
    and claim_door: "rl_ok L hs \<Longrightarrow> seq_TryNext (rl_methods L) [quiet] n hs = Some (res, ts', hs') \<Longrightarrow>
      same_door hs hs' \<and> (sealed (snd hs) \<longrightarrow> rl_claimed L hs' = rl_claimed L hs)"
    and publish_door: "rl_ok L hs \<Longrightarrow> same_door hs (seq_Publish (rl_methods L) low high hs)"
    and discard_door: "rl_ok L hs \<Longrightarrow> same_door hs (seq_Discard (rl_methods L) low high hs)"

section \<open>The steps of a shutdown\<close>

text \<open>The check of the drain loop: the gates have reached the last claim of a sealed ring.\<close>

definition ring_drained :: "'a sequencerBase_scheme ring_log \<Rightarrow> heap \<times> 'a sequencerBase_scheme \<Rightarrow> bool" where
  "ring_drained L hs \<longleftrightarrow>
     sealed (snd hs) \<and> \<not> minimumSequence (gating (snd hs)) (rl_claimed L hs) (fst hs) < rl_claimed L hs"

datatype shutdown_action =
    Work producer_action
  | Consumed addr int64
  | Halted
  | BeginShutdown
  | DrainCheck

fun shutdown_act ::
  "'a sequencerBase_scheme ring_log \<Rightarrow> ('t, 's) BatchProcessor \<Rightarrow> (int64 \<Rightarrow> bool) \<Rightarrow> shutdown_action \<Rightarrow>
   ('t, 'a sequencerBase_scheme, 's) world \<Rightarrow> ('t, 'a sequencerBase_scheme, 's) world"
where
  "shutdown_act L p skip (Work a) w = env_act L p skip (Producer a) w"
| "shutdown_act L p skip (Consumed a v) w = env_act L p skip (Acknowledge a v) w"
| "shutdown_act L p skip Halted w = env_act L p skip HaltCall w"
| "shutdown_act L p skip BeginShutdown w = in_world (on_sequencer (\<lambda>hs. snd (base_beginShutdown hs))) w"
| "shutdown_act L p skip DrainCheck w = (if ring_drained L (world_slots w) then in_world RingBuffer_Close w else w)"

definition shutdown_steps ::
  "'a sequencerBase_scheme ring_log \<Rightarrow> ('t, 's) BatchProcessor \<Rightarrow> (int64 \<Rightarrow> bool) \<Rightarrow> shutdown_action list \<Rightarrow>
   ('t, 'a sequencerBase_scheme, 's) world \<Rightarrow> ('t, 'a sequencerBase_scheme, 's) world"
where
  "shutdown_steps L p skip as w = fold (shutdown_act L p skip) as w"

definition shutdown_turn ::
  "'a sequencerBase_scheme ring_log \<Rightarrow> ('t, 's) BatchProcessor \<Rightarrow> (int64 \<Rightarrow> bool) \<Rightarrow>
   ('t, 'a sequencerBase_scheme, 's) world turn \<Rightarrow> bool"
where
  "shutdown_turn L p skip t \<longleftrightarrow> {t_pre t, t_mid t, t_park t} \<subseteq> range (shutdown_steps L p skip)"

text \<open>A ring that is closed was sealed, and the processor had reached its last claim.\<close>

definition ring_closed :: "('t, 'a sequencerBase_scheme, 's) world \<Rightarrow> bool" where
  "ring_closed w \<longleftrightarrow> flags (fst w) (closed_flag (snd (world_slots w)))"

definition closed_late ::
  "'a sequencerBase_scheme ring_log \<Rightarrow> ('t, 's) BatchProcessor \<Rightarrow> ('t, 'a sequencerBase_scheme, 's) world \<Rightarrow> bool"
where
  "closed_late L p w \<longleftrightarrow>
     sb_alerted (bp_barrier p) \<noteq> closed_flag (snd (world_slots w)) \<and>
     (ring_closed w \<longrightarrow> sealed (snd (world_slots w)) \<and> rl_claimed L (world_slots w) \<le> position p w)"

text \<open>A step that leaves the door alone and, when the ring is sealed, the claims too.\<close>

lemma closed_late_step:
  assumes "closed_late L p w" "same_door (world_slots w) (world_slots w')"
    and "sealed (snd (world_slots w)) \<Longrightarrow> rl_claimed L (world_slots w') = rl_claimed L (world_slots w)"
    and "position p w \<le> position p w'"
  shows "closed_late L p w'"
  using assms by (auto simp: closed_late_def ring_closed_def same_door_def)

context drained_log
begin

abbreviation drains :: "('t, 's) BatchProcessor \<Rightarrow> (int64 \<Rightarrow> bool) \<Rightarrow> ('t, 'a sequencerBase_scheme, 's) world \<Rightarrow> bool" where
  "drains p skip w \<equiv> log_world L p skip w \<and> closed_late L p w"

lemma drains_store:
  assumes I: "log_world L p skip (h, y)" "closed_late L p (h, y)"
    and v: "Sequence_Load (bp_sequence p) h \<le> v" "v \<le> run_limit p (h, y)"
  shows "drains p skip (Sequence_Store (bp_sequence p) v h, y\<lparr>sys_app := a\<rparr>)"
proof
  show "log_world L p skip (Sequence_Store (bp_sequence p) v h, y\<lparr>sys_app := a\<rparr>)"
    using world_acknowledge(1) [OF I(1) v] .
  have "rl_ok L (h, sequencer (sys_ring y))" "bp_sequence p \<noteq> cursor (sequencer (sys_ring y))"
    "v \<le> Sequence_Load (cursor (sequencer (sys_ring y))) h"
    using I(1) v(2) by (auto simp: log_world_def log_ring_def)
  from store_same_log [OF this(1,2) v(1) this(3)]
  show "closed_late L p (Sequence_Store (bp_sequence p) v h, y\<lparr>sys_app := a\<rparr>)"
    by (intro closed_late_step [OF I(2)]) (use v(1) in \<open>auto simp: same_log_def same_door_def heap_simps\<close>)
qed

lemma drains_run_rely: "run_rely p skip (drains p skip)"
  unfolding run_rely_def Let_def
proof (intro allI impI)
  fix h y
  assume I: "drains p skip (h, y)"
  let ?low = "Sequence_Load (bp_sequence p) h + 1"
  let ?dep = "sequenceReader_Load (sb_dependent (bp_barrier p)) h"
  let ?av = "world_highest ?low ?dep (h, y)"
  have app: "drains p skip (h, y\<lparr>sys_app := a\<rparr>)" for a
    using I world_app [of p skip h y a] by (auto simp: closed_late_def ring_closed_def)
  have "?low - 1 \<le> ?av \<and> ?av \<le> ?dep \<and> ?av < 2 ^ 63 - 1 \<and> (\<forall>q. ?low \<le> q \<and> q \<le> ?av \<longrightarrow> skipped (h, sys_ring y) q = skip q)"
    if "?low \<le> ?dep"
    using world_run_rely [of p skip] I that unfolding run_rely_def Let_def by blast
  moreover have "drains p skip (Sequence_Store (bp_sequence p) v h, y\<lparr>sys_app := a\<rparr>)"
    if "?low \<le> ?dep" "?low - 1 \<le> v" "v \<le> ?av" for v a
    using drains_store [of p skip h y v a] I calculation that by (simp add: run_limit_def)
  ultimately show "(\<forall>a. drains p skip (h, y\<lparr>sys_app := a\<rparr>)) \<and> (?low \<le> ?dep \<longrightarrow>
      ?low - 1 \<le> ?av \<and> ?av \<le> ?dep \<and> ?av < 2 ^ 63 - 1 \<and>
      (\<forall>q. ?low \<le> q \<and> q \<le> ?av \<longrightarrow> skipped (h, sys_ring y) q = skip q) \<and>
      (\<forall>v a. ?low - 1 \<le> v \<and> v \<le> ?av \<longrightarrow> drains p skip (Sequence_Store (bp_sequence p) v h, y\<lparr>sys_app := a\<rparr>)))"
    using app by blast
qed

lemma drains_start_rely: "start_rely p (drains p skip)"
  unfolding start_rely_def
proof (intro allI impI conjI)
  fix h y st
  assume I: "drains p skip (h, y)"
  let ?h = "SequenceBarrier_ClearAlert (bp_barrier p) h"
  have ok: "rl_ok L (h, sequencer (sys_ring y))" using I by (simp add: log_world_def log_ring_def)
  have ld: "Sequence_Load a ?h = Sequence_Load a h" for a by (simp add: SequenceBarrier_ClearAlert_def heap_simps)
  show "log_world L p skip (?h, y)" "log_world L p skip (h, y\<lparr>sys_state := st\<rparr>)"
    using world_start_rely [of p skip] I unfolding start_rely_def by blast+
  have fl: "flags ?h (closed_flag (sequencer (sys_ring y))) = flags h (closed_flag (sequencer (sys_ring y)))"
    using I by (simp add: closed_late_def SequenceBarrier_ClearAlert_def flag_Store_def)
  have cl: "rl_claimed L (?h, sequencer (sys_ring y)) = rl_claimed L (h, sequencer (sys_ring y))"
    using frame [OF ok ld] by (simp add: same_log_def)
  show "closed_late L p (?h, y)"
    by (rule closed_late_step [of L p "(h, y)"]) (use I fl cl ld in \<open>simp_all add: same_door_def\<close>)
  show "closed_late L p (h, y\<lparr>sys_state := st\<rparr>)" using I by (simp add: closed_late_def ring_closed_def)
qed

text \<open>Steps of the producers, of other consumers and of \<open>Halt\<close>.\<close>

lemma ring_act_door:
  assumes ring: "log_ring L skip (h, r)" and eq: "ring_act L skip a (h, r) = (h', r')"
  shows "same_door (h, sequencer r) (h', sequencer r')"
    "sealed (sequencer r) \<Longrightarrow> rl_claimed L (h', sequencer r') = rl_claimed L (h, sequencer r)"
proof -
  let ?hs = "(h, sequencer r)"
  have ok: "rl_ok L ?hs" "rl_claimed L ?hs < 2 ^ 63 - 1" "methods r = rl_methods L"
    using ring by (simp_all add: log_ring_def)
  have "same_door ?hs (h', sequencer r') \<and>
    (sealed (sequencer r) \<longrightarrow> rl_claimed L (h', sequencer r') = rl_claimed L ?hs)"
  proof (cases "ring_act L skip a (h, r) = (h, r)")
    case True
    with eq show ?thesis by (simp add: same_door_def)
  next
    case act: False
    show ?thesis
    proof (cases a)
      case (ClaimAction n)
      with act have n: "rl_claimed L ?hs + n < 2 ^ 63 - 1" by (auto split: if_splits)
      from claim [OF ok(1,2) n] obtain res ts' h1 s1 where
        t: "seq_TryNext (rl_methods L) [quiet] n ?hs = Some (res, ts', h1, s1)" by (metis surj_pair)
      then have "h' = h1" "r' = r\<lparr>sequencer := s1\<rparr>" using eq n ok(3) ClaimAction by (simp_all add: TryNextN_def)
      with claim_door [OF ok(1) t] show ?thesis by simp
    next
      case (PublishAction low high)
      with act have g: "rl_pending L low high ?hs" "\<forall>q. low \<le> q \<and> q \<le> high \<longrightarrow> \<not> skip q"
        by (auto split: if_splits)
      have "(h', sequencer r') = seq_Publish (rl_methods L) low high ?hs"
        using eq PublishAction g ok(3) by (auto simp: PublishRange_def on_sequencer_def split: prod.splits)
      with publish [OF ok(1) g(1)] publish_door [OF ok(1)] show ?thesis by (simp add: resolved_as_def)
    next
      case (DiscardAction low high)
      with act have g: "rl_pending L low high ?hs" "\<forall>q. low \<le> q \<and> q \<le> high \<longrightarrow> skip q"
        by (auto split: if_splits)
      have "(h', sequencer r') = seq_Discard (rl_methods L) low high ?hs"
        using eq DiscardAction g ok(3) by (auto simp: DiscardRange_def on_sequencer_def split: prod.splits)
      with discard [OF ok(1) g(1)] discard_door [OF ok(1)] show ?thesis by (simp add: resolved_as_def)
    qed
  qed
  then show "same_door ?hs (h', sequencer r')"
    "sealed (sequencer r) \<Longrightarrow> rl_claimed L (h', sequencer r') = rl_claimed L ?hs" by simp_all
qed

lemma work_kept:
  assumes I: "drains p skip (h, y)"
  shows "closed_late L p (shutdown_act L p skip (Work a) (h, y))"
proof -
  obtain h' r' where a: "ring_act L skip a (h, sys_ring y) = (h', r')" by fastforce
  have w: "shutdown_act L p skip (Work a) (h, y) = (h', y\<lparr>sys_ring := r'\<rparr>)" using a by (simp add: in_world_def)
  have "log_ring L skip (h, sys_ring y)" using I by (simp add: log_world_def)
  note d = ring_act_door [OF this a]
  have v: "run_view p (h', y\<lparr>sys_ring := r'\<rparr>) = run_view p (h, y)"
    using others_kept [of p skip "(h, y)" "[Producer a]"] I w by (simp add: others_def)
  show ?thesis
    unfolding w by (rule closed_late_step [of L p "(h, y)"]) (use I d v in \<open>simp_all add: run_view_def\<close>)
qed

lemma consumed_kept:
  assumes I: "drains p skip (h, y)"
  shows "closed_late L p (shutdown_act L p skip (Consumed a v) (h, y))"
proof -
  let ?s = "sequencer (sys_ring y)" let ?h = "Sequence_Store a v h"
  show ?thesis
  proof (cases "shutdown_act L p skip (Consumed a v) (h, y) = (h, y)")
    case False
    then have a: "a \<noteq> bp_sequence p" "a \<noteq> cursor ?s" "Sequence_Load a h \<le> v" "v \<le> Sequence_Load (cursor ?s) h"
      and w: "shutdown_act L p skip (Consumed a v) (h, y) = (?h, y)"
      by (auto simp: in_world_def acknowledge_act_def Let_def split: if_splits)
    have "rl_ok L (h, ?s)" using I by (simp add: log_world_def log_ring_def)
    from store_same_log [OF this a(2-4)] have cl: "rl_claimed L (?h, ?s) = rl_claimed L (h, ?s)" by (simp add: same_log_def)
    show ?thesis
      unfolding w by (rule closed_late_step [of L p "(h, y)"]) (use I a(1) cl in \<open>simp_all add: same_door_def heap_simps\<close>)
  qed (use I in simp)
qed

lemma halted_kept:
  assumes I: "drains p skip (h, y)"
  shows "closed_late L p (shutdown_act L p skip Halted (h, y))"
proof -
  obtain h' y' where e: "Halt p (h, y) = (h', y')" by fastforce
  have ld: "Sequence_Load a h' = Sequence_Load a h" "sys_ring y' = sys_ring y" for a
    using e by (auto simp: Halt_def Halt_swap_def set_state_def SequenceBarrier_Alert_def heap_simps
        split: processorState.splits)
  have fl: "flags h' (closed_flag (sequencer (sys_ring y))) = flags h (closed_flag (sequencer (sys_ring y)))"
    using e I by (auto simp: closed_late_def Halt_def Halt_swap_def set_state_def SequenceBarrier_Alert_def heap_simps
        flag_Store_def split: processorState.splits)
  have "rl_ok L (h, sequencer (sys_ring y))" using I by (simp add: log_world_def log_ring_def)
  from frame [OF this ld(1)] have cl: "rl_claimed L (h', sequencer (sys_ring y)) = rl_claimed L (h, sequencer (sys_ring y))"
    by (simp add: same_log_def)
  show ?thesis
    using e by simp (rule closed_late_step [of L p "(h, y)"], use I fl cl ld in \<open>simp_all add: same_door_def\<close>)
qed

lemma begin_kept:
  assumes I: "drains p skip (h, y)" and w: "w' = shutdown_act L p skip BeginShutdown (h, y)"
  shows "drains p skip w' \<and> run_view p w' = run_view p (h, y)"
proof -
  let ?r = "sys_ring y" let ?s = "sequencer ?r"
  have ring: "log_ring L skip (h, ?r)" and ok: "rl_ok L (h, ?s)" using I by (simp_all add: log_world_def log_ring_def)
  show ?thesis
  proof (cases "flags h (closed_flag ?s) \<or> sealed ?s")
    case True
    then have "w' = (h, y)" by (simp add: w in_world_def on_sequencer_def base_beginShutdown_def)
    with I show ?thesis by simp
  next
    case False
    let ?h = "producerWaiter_signalAll (producerWait ?s) h" let ?s' = "?s\<lparr>sealed := True\<rparr>"
    have w': "w' = (?h, y\<lparr>sys_ring := ?r\<lparr>sequencer := ?s'\<rparr>\<rparr>)"
      using False by (simp add: w in_world_def on_sequencer_def base_beginShutdown_def)
    have ld: "Sequence_Load a ?h = Sequence_Load a h" for a by (simp add: heap_simps)
    have sl: "same_log L (h, ?s) (h, ?s')" by (rule seal [OF ok])
    then have "rl_ok L (h, ?s')" by (simp add: same_log_def)
    from frame [OF this ld] sl have "same_log L (h, ?s) (?h, ?s')" by (simp add: same_log_def)
    then have "log_ring L skip (?h, ?r\<lparr>sequencer := ?s'\<rparr>)"
      using same_log_ring [OF ring, of ?h "?r\<lparr>sequencer := ?s'\<rparr>"] by simp
    then have "log_ring L skip (h', r') \<and> same_gates (h, ?s) (h', sequencer r')"
      if "on_sequencer (\<lambda>hs. snd (base_beginShutdown hs)) (h, ?r) = (h', r')" for h' r'
      using that False ld by (auto simp: on_sequencer_def base_beginShutdown_def same_gates_def)
    from in_world_kept [of p skip h y, OF _ this] I
    have "log_world L p skip w' \<and> run_view p w' = run_view p (h, y)" by (simp add: w)
    moreover have "closed_late L p w'"
      using I False by (simp add: w' closed_late_def ring_closed_def heap_simps)
    ultimately show ?thesis by simp
  qed
qed

lemma drain_kept:
  assumes I: "drains p skip (h, y)" and w: "w' = shutdown_act L p skip DrainCheck (h, y)"
  shows "drains p skip w' \<and> run_view p w' = run_view p (h, y)"
proof (cases "ring_drained L (h, sequencer (sys_ring y))")
  case True
  let ?r = "sys_ring y" let ?s = "sequencer ?r" let ?c = "rl_claimed L (h, ?s)"
  have ring: "log_ring L skip (h, ?r)" and ok: "methods ?r = rl_methods L" "rl_ok L (h, ?s)"
    and cov: "covered (bp_sequence p) (h, ?s)" using I by (simp_all add: log_world_def log_ring_def)
  from in_world_kept [of p skip h y RingBuffer_Close] close_kept [OF ring] I True
  have k: "log_world L p skip w' \<and> run_view p w' = run_view p (h, y)" by (simp add: w)
  obtain g where g: "g \<in> set (gating ?s)" "Sequence_Load g h \<le> Sequence_Load (bp_sequence p) h"
    using cov by (auto simp: covered_def)
  have pos: "?c \<le> Sequence_Load (bp_sequence p) h"
    using True g minimumSequence_le [OF g(1), of ?c h] by (simp add: ring_drained_def)
  have s': "sequencer (sys_ring (snd w')) = ?s\<lparr>sealed := True, closeOnce := True\<rparr>"
    using True ok(1) close(1) Close_base [of h ?s]
    by (auto simp: w in_world_def RingBuffer_Close_def on_sequencer_def split: prod.splits)
  have h': "fst w' = fst (base_Close (h, ?s))"
    using True ok(1) close(1) by (auto simp: w in_world_def RingBuffer_Close_def on_sequencer_def split: prod.splits)
  have "same_log L (h, ?s) (h, ?s\<lparr>sealed := True, closeOnce := True\<rparr>)" by (rule close(2) [OF ok(2)])
  moreover from this have "rl_ok L (h, ?s\<lparr>sealed := True, closeOnce := True\<rparr>)" by (simp add: same_log_def)
  from frame [OF this, of "fst w'"] have "same_log L (h, ?s\<lparr>sealed := True, closeOnce := True\<rparr>) (fst w', sequencer (sys_ring (snd w')))"
    by (simp add: h' s' heap_simps)
  ultimately have "rl_claimed L (world_slots w') = ?c" by (simp add: same_log_def)
  then have "closed_late L p w'"
    using I pos s' h' by (simp add: closed_late_def heap_simps)
  with k show ?thesis by simp
qed (use I w in simp)

lemma shutdown_steps_kept:
  "drains p skip w \<Longrightarrow> drains p skip (shutdown_steps L p skip as w) \<and> run_view p (shutdown_steps L p skip as w) = run_view p w"
proof (induction as arbitrary: w)
  case (Cons a as)
  obtain h y where w: "w = (h, y)" by (cases w)
  have I: "drains p skip (h, y)" using Cons.prems w by simp
  have env: "log_world L p skip (env_act L p skip e (h, y)) \<and> run_view p (env_act L p skip e (h, y)) = run_view p (h, y)" for e
    using others_kept [of p skip "(h, y)" "[e]"] I by (simp add: others_def)
  have "drains p skip (shutdown_act L p skip a w) \<and> run_view p (shutdown_act L p skip a w) = run_view p w"
    using env work_kept [OF I] consumed_kept [OF I] halted_kept [OF I] begin_kept [OF I refl] drain_kept [OF I refl]
    unfolding w by (cases a) (auto simp del: env_act.simps)
  with Cons.IH [of "shutdown_act L p skip a w"] show ?case by (simp add: shutdown_steps_def)
qed (simp add: shutdown_steps_def)

lemma shutdown_complete:
  assumes p: "bp_handler p = logged handler" "1 \<le> bp_maxBatchSize p" and I: "drains p skip w"
    and turns: "\<forall>t \<in> set ts. shutdown_turn L p skip t" and run: "Run p ts w = Some (res, ts', w')"
    and view: "run_view p w = (n, a, log)" and closed: "ring_closed w'"
  shows "\<exists>a' log'. run_view p w' = (rl_claimed L (world_slots w'), a', log') \<and>
    map fst log' = map fst log @ delivered skip (n + 1) (rl_claimed L (world_slots w'))"
proof -
  have n: "-1 \<le> n" "n < 2 ^ 63 - 1"
    using world_gate(1,2) [of p skip "fst w" "snd w"] I view by (simp_all add: run_view_def)
  have "harmless (drains p skip) (run_view p) t" if "shutdown_turn L p skip t" for t
    using that shutdown_steps_kept unfolding shutdown_turn_def harmless_def by fastforce
  with turns have "\<forall>t \<in> set ts. harmless (drains p skip) (run_view p) t" by blast
  from Run_exact [OF p drains_run_rely drains_start_rely run this I view n] obtain acked a' log' where
    I': "drains p skip w'" and v: "run_view p w' = (acked, a', log')"
    and ex: "exact_run skip (n + 1) (run_limit p w') log res acked log'" by blast
  let ?c = "rl_claimed L (world_slots w')"
  obtain h y where w': "w' = (h, y)" by (cases w')
  have pos: "acked = position p w'" using v by (simp add: run_view_def)
  have le: "?c \<le> acked" using I' closed pos by (simp add: closed_late_def)
  have "acked \<le> run_limit p w'" "run_limit p w' \<le> ?c"
    using I' pos cursor_claimed [of h "sequencer (sys_ring y)"] by (auto simp: w' log_world_def log_ring_def)
  with le have "acked = ?c" "run_limit p w' = acked" by simp_all
  with ex v show ?thesis by (auto simp: exact_run_def)
qed

end

section \<open>Both sequencers\<close>

lemma table_doors:
  assumes "multi_shape s"
  shows "closed_flag (multi_prepare low high s) = closed_flag s" "sealed (multi_prepare low high s) = sealed s"
    "closed_flag (multi_resolve low high st s) = closed_flag s" "sealed (multi_resolve low high st s) = sealed s"
  using assms by (simp_all add: multi_prepare_eq multi_resolve_eq)

lemma multi_TryNext_door:
  assumes "multi_shape s" "multi_TryNext [quiet] n (h, s) = Some (res, ts', hs')"
  shows "same_door (h, s) hs' \<and> (sealed s \<longrightarrow> hs' = (h, s))"
  using assms
  by (auto simp: multi_TryNext_def multi_cas_def Sequence_compareAndSwap_def Let_def same_door_def heap_simps table_doors
      split: if_splits)

interpretation multi_drained: drained_log multiLog
proof (unfold_locales, goal_cases)
  case (1 h s)
  then have "multi_ok (h, s)" "multi_ok (h, s\<lparr>sealed := True\<rparr>)"
    by (simp_all add: multiLog_def multi_ok_def multi_shape_def)
  then show ?case by (rule multi_same_log) simp_all
next
  case (2 hs n res ts' hs')
  then show ?case
    using multi_TryNext_door [of "snd hs" n "fst hs" res ts' hs'] multi_ok_shape [of hs] by (auto simp: multiLog_def)
next
  case (3 hs low high)
  then show ?case
    using multi_ok_shape [of hs] by (cases hs) (simp add: multiLog_def multi_resolve_signal same_door_def heap_simps table_doors)
next
  case (4 hs low high)
  then show ?case
    using multi_ok_shape [of hs] by (cases hs) (simp add: multiLog_def multi_resolve_signal same_door_def heap_simps table_doors)
qed

lemma single_discard_door: "same_door hs (fold single_discard_one qs hs)"
proof (induction qs arbitrary: hs)
  case (Cons q qs)
  have "same_door hs (single_discard_one q hs)"
    by (cases hs) (auto simp: single_discard_one_def same_door_def heap_simps)
  with Cons.IH [of "single_discard_one q hs"] show ?case by (simp add: same_door_def)
qed (simp add: same_door_def)

interpretation single_drained: drained_log singleLog
proof (unfold_locales, goal_cases)
  case (1 h s)
  then have "single_log_ok (h, s\<lparr>sealed := True\<rparr>)"
    by (simp add: singleLog_def single_log_ok_def single_ok_def)
  then show ?case by (rule single_same_log) simp_all
next
  case (2 hs n res ts' hs')
  then show ?case
    by (cases hs) (auto simp: singleLog_def single_TryNext_def Let_def same_door_def split: if_splits)
next
  case (3 hs low high)
  show ?case by (cases hs) (simp add: singleLog_def single_Publish_eq same_door_def heap_simps)
next
  case (4 hs low high)
  obtain h s where f: "fold single_discard_one [low..high] hs = (h, s)" by fastforce
  have "same_door hs (h, s)" using single_discard_door [of hs "[low..high]"] by (simp add: f)
  then have "same_door hs (WaitStrategy_signalAll (wait_with s) h, s)" by (simp add: same_door_def heap_simps)
  then show ?case by (simp add: singleLog_def single_Discard_def f) (simp add: same_door_def)
qed

section \<open>Properties\<close>


text \<open>
  Three claims, one of them discarded, a shutdown that starts before the processor has seen them, and a
  check of the drain loop before and after it has.
\<close>

definition graceful_turns :: "(int, multiProducerSequencer, int \<times> (int64 \<times> bool) list) world turn list" where
  "graceful_turns =
     (let steps = shutdown_steps multiLog multi_processor (\<lambda>q. q = 1) in
      [quiet,
       quiet\<lparr>t_pre := steps [Work (ClaimAction 3), Work (PublishAction 0 0), Work (DiscardAction 1 1),
         Work (PublishAction 2 2), BeginShutdown, Work (ClaimAction 1), DrainCheck]\<rparr>,
       quiet, quiet, quiet, quiet\<lparr>t_pre := steps [DrainCheck]\<rparr>, quiet])"


end
