(* ===== verification/Contents.thy ===== *)
theory Contents
  imports Delivery
begin

text \<open>
  What a handler reads. Here the entries of a ring are the contents of its preallocated events, which a
  producer writes in place between its claim and its publication. The locale \<open>windowed_log\<close> adds to
  \<open>gated_log\<close> that the sequences in use never share a slot; from it, a run is the same as one in which the
  handler is handed what the producer of each sequence wrote.
\<close>

unbundle bit_operations_syntax

section \<open>Runs that differ in what the handler is handed\<close>

definition reading :: "(int64 \<Rightarrow> 't) \<Rightarrow> ('t, 's) BatchProcessor \<Rightarrow> ('t, 's) BatchProcessor" where
  "reading payload p = p\<lparr>bp_handler := (\<lambda>event q. bp_handler p (payload q) q)\<rparr>"

lemma reading_sel [simp]:
  "bp_barrier (reading payload p) = bp_barrier p" "bp_sequence (reading payload p) = bp_sequence p"
  "bp_maxBatchSize (reading payload p) = bp_maxBatchSize p"
  "bp_handler (reading payload p) = (\<lambda>event q. bp_handler p (payload q) q)"
  by (simp_all add: reading_def)

lemma deliver_reading:
  assumes "\<And>q eob. (q, eob) \<in> set qs \<Longrightarrow> Get r q = payload q"
  shows "deliver r (\<lambda>event q. handler (payload q) q) qs app = deliver r handler qs app"
  using assms
proof (induction qs arbitrary: app)
  case (Cons e qs)
  obtain q eob where e: "e = (q, eob)" by fastforce
  have "Get r q = payload q" using Cons.prems [of q eob] by (simp add: e)
  then have "handleEvent r (\<lambda>event q. handler (payload q) q) q eob app = handleEvent r handler q eob app"
    by (simp add: handleEvent_def)
  with Cons show ?case by (auto simp: e split: prod.splits option.splits)
qed simp

lemma processBatch_reading:
  assumes "\<And>q. low \<le> q \<Longrightarrow> q \<le> high \<Longrightarrow> \<not> skipped hr q \<Longrightarrow> Get (snd hr) q = payload q"
  shows "processBatch hr (\<lambda>event q. handler (payload q) q) low high app = processBatch hr handler low high app"
  unfolding processBatch_deliver
  by (rule deliver_reading) (use assms in \<open>auto simp: batch_events_def delivered_def Let_def\<close>)

text \<open>
  \<open>reads_rely\<close>: in a state with the invariant, the sequences a batch may hand out have their payload in
  their slot.
\<close>

definition reads_rely ::
  "('t, 's) BatchProcessor \<Rightarrow> (int64 \<Rightarrow> bool) \<Rightarrow> (int64 \<Rightarrow> 't) \<Rightarrow> (('t, 'b, 's) world \<Rightarrow> bool) \<Rightarrow> bool"
where
  "reads_rely p skip payload I \<longleftrightarrow>
     (\<forall>h y q. I (h, y) \<longrightarrow>
        (let low = position p (h, y) + 1; dep = run_limit p (h, y) in
         low \<le> q \<and> low \<le> dep \<and> q \<le> world_highest low dep (h, y) \<and> \<not> skip q \<longrightarrow> Get (sys_ring y) q = payload q))"

lemma Run_loop_reading:
  assumes "1 \<le> bp_maxBatchSize p" "run_rely p skip I" "reads_rely p skip payload I"
    and "\<forall>t \<in> set ts. harmless I (position p) t" "I w" "position p w = low - 1" "0 \<le> low"
  shows "Run_loop (reading payload p) ts low w = Run_loop p ts low w"
  using assms
proof (induction "length ts" arbitrary: ts low w rule: less_induct)
  case less
  note p = less(2-4) and I = less(6) and low = less(8)
  show ?case
  proof (cases ts)
    case (Cons t us)
    define w1 where "w1 = t_pre t w"
    have I1: "I w1" "position p w1 = low - 1"
      using harmless_steps(1,2) [of I "position p" t w] less(5-7) by (simp_all add: w1_def Cons)
    let ?W = "SequenceBarrier_WaitFor world_highest (bp_barrier p) us low w1"
    show ?thesis
    proof (cases "t_ctx t = None \<and> (\<exists>avail ts1 h y. ?W = Some (Inr avail, ts1, h, y))")
      case False
      then show ?thesis
        by (auto simp: Cons w1_def [symmetric] Let_def split: option.splits sum.splits)
    next
      case True
      then obtain avail ts1 h y where wf: "?W = Some (Inr avail, ts1, h, y)" and ctx: "t_ctx t = None" by blast
      have k: "set ts1 \<subseteq> set us" "I (h, y)" "position p (h, y) = low - 1"
        using WaitFor_kept [OF wf, of I "position p"] less(5) I1 by (simp_all add: kept_def Cons)
      have wr: "low \<le> run_limit p (h, y)" "avail = world_highest low (run_limit p (h, y)) (h, y)"
        using WaitFor_result [OF wf] by (simp_all add: run_limit_def)
      define e where "e = batch_end (bp_maxBatchSize p) low avail"
      have b: "low - 1 \<le> avail" "avail < 2 ^ 63 - 1"
        and sk: "\<And>q. low \<le> q \<Longrightarrow> q \<le> avail \<Longrightarrow> skipped (h, sys_ring y) q = skip q"
        and keep: "\<And>v a. low - 1 \<le> v \<Longrightarrow> v \<le> avail \<Longrightarrow> I (Sequence_Store (bp_sequence p) v h, y\<lparr>sys_app := a\<rparr>)"
        using p(2) [unfolded run_rely_def Let_def, rule_format, OF k(2)] k(3) wr by (auto simp: run_limit_def)
      note be = batch_end_bounds [OF low b p(1)]
      have rd: "Get (sys_ring y) q = payload q" if "low \<le> q" "q \<le> e" "\<not> skipped (h, sys_ring y) q" for q
        using p(3) k(2,3) wr sk that be(2) unfolding reads_rely_def Let_def e_def by fastforce
      have pb: "processBatch (h, sys_ring y) (\<lambda>event q. bp_handler p (payload q) q) low e (sys_app y) =
          processBatch (h, sys_ring y) (bp_handler p) low e (sys_app y)"
        by (rule processBatch_reading) (use rd in simp)
      have e1: "i64 (e + 1) = e + 1" using be(1,2) b low by (intro i64_id) (auto simp: e_def)
      have "Run_loop (reading payload p) ts1 (e + 1) (Sequence_Store (bp_sequence p) e h, y\<lparr>sys_app := a\<rparr>) =
          Run_loop p ts1 (e + 1) (Sequence_Store (bp_sequence p) e h, y\<lparr>sys_app := a\<rparr>)" for a
      proof (rule less(1))
        show "length ts1 < length ts" using WaitFor_turns [OF wf] by (simp add: Cons)
        show "\<forall>t \<in> set ts1. harmless I (position p) t" using less(5) k(1) by (auto simp: Cons)
        show "I (Sequence_Store (bp_sequence p) e h, y\<lparr>sys_app := a\<rparr>)" using keep be(1,2) by (simp add: e_def)
      qed (use p be(1) low in \<open>simp_all add: heap_simps e_def\<close>)
      then show ?thesis
        using ctx wf pb e1 by (simp add: Cons w1_def [symmetric] e_def [symmetric] Let_def split: prod.splits option.splits)
    qed
  qed simp
qed

lemma Run_reading:
  assumes p: "1 \<le> bp_maxBatchSize p" "run_rely p skip I" "start_rely p I" "reads_rely p skip payload I"
    and env: "\<forall>t \<in> set ts. harmless I (position p) t" and I: "I w"
    and bounds: "\<And>w. I w \<Longrightarrow> -1 \<le> position p w \<and> position p w < 2 ^ 63 - 1"
  shows "Run (reading payload p) ts w = Run p ts w"
proof (cases ts)
  case (Cons t us)
  define w0 where "w0 = t_pre t w"
  obtain h1 y1 where m: "t_mid t (set_state processorStarting w0) = (h1, y1)" by fastforce
  obtain h2 y2 where k: "t_park t (SequenceBarrier_ClearAlert (bp_barrier p) h1, y1) = (h2, y2)" by fastforce
  have ht: "harmless I (position p) t" using env Cons by simp
  have st: "I (set_state s v)" if "I v" for s v
    using p(3) that by (cases v) (simp add: start_rely_def set_state_def)
  have "I w0" using harmless_steps(1) [OF ht I] by (simp add: w0_def)
  from harmless_steps(3) [OF ht st [OF this, of processorStarting]] m have "I (h1, y1)" by simp
  then have "I (SequenceBarrier_ClearAlert (bp_barrier p) h1, y1)" using p(3) by (simp add: start_rely_def)
  from harmless_steps(5) [OF ht this] k have I2: "I (h2, y2)" by simp
  let ?n = "Sequence_Load (bp_sequence p) h2"
  have "i64 (?n + 1) = ?n + 1" using bounds [OF I2] by (simp add: i64_id)
  moreover have "Run_loop (reading payload p) us (?n + 1) (set_state processorRunning (h2, y2)) =
      Run_loop p us (?n + 1) (set_state processorRunning (h2, y2))"
    by (rule Run_loop_reading [OF p(1,2,4) _ st [OF I2]])
      (use env Cons bounds [OF I2] in \<open>simp_all add: set_state_def\<close>)
  ultimately show ?thesis by (simp add: Cons w0_def [symmetric] m k)
qed simp

section \<open>Contents of a ring\<close>

locale windowed_log = gated_log +
  assumes window: "rl_ok L hs \<Longrightarrow> rl_live L p hs \<Longrightarrow> rl_live L q hs \<Longrightarrow> \<bar>p - q\<bar> < bufferSize (snd hs)"
    and pending: "rl_ok L hs \<Longrightarrow> rl_pending L low high hs \<Longrightarrow> low \<le> q \<Longrightarrow> q \<le> high \<Longrightarrow>
      rl_live L q hs \<and> rl_status L q hs \<noteq> Published"
    and claim_size: "rl_ok L hs \<Longrightarrow> seq_TryNext (rl_methods L) [quiet] n hs = Some (res, ts', hs') \<Longrightarrow>
      bufferSize (snd hs') = bufferSize (snd hs)"
    and publish_size: "rl_ok L hs \<Longrightarrow> bufferSize (snd (seq_Publish (rl_methods L) low high hs)) = bufferSize (snd hs)"
    and discard_size: "rl_ok L hs \<Longrightarrow> bufferSize (snd (seq_Discard (rl_methods L) low high hs)) = bufferSize (snd hs)"

text \<open>Every published sequence that is still in use has its payload in its slot.\<close>

definition contents_ok ::
  "'a sequencerBase_scheme ring_log \<Rightarrow> (int64 \<Rightarrow> 't) \<Rightarrow> ('t, 'a sequencerBase_scheme) ring_state \<Rightarrow> bool"
where
  "contents_ok L payload hr \<longleftrightarrow>
     ring_wf (bufferSize (sequencer (snd hr))) (snd hr) \<and>
     (\<forall>q. rl_live L q (slots hr) \<and> rl_status L q (slots hr) = Published \<longrightarrow> Get (snd hr) q = payload q)"

text \<open>
  What happens to the contents: a producer writes into a slot of a claim that is still pending, and it
  publishes a claim when the slots hold the payloads. Everything else is as before.
\<close>

definition write_act ::
  "'b ring_log \<Rightarrow> int64 \<Rightarrow> int64 \<Rightarrow> int64 \<Rightarrow> 't \<Rightarrow> ('t, 'b) ring_state \<Rightarrow> ('t, 'b) ring_state"
where
  "write_act L low high q v hr =
     (let (h, r) = hr in
      if rl_pending L low high (slots hr) \<and> low \<le> q \<and> q \<le> high
      then (h, r\<lparr>entries := (entries r)[unat (u64 q AND rb_indexMask r) := v]\<rparr>) else (h, r))"

datatype 't content_action = WriteEntry int64 int64 int64 't | Other env_action

fun written :: "(int64 \<Rightarrow> 't) \<Rightarrow> env_action \<Rightarrow> ('t, 'b) RingBuffer \<Rightarrow> bool" where
  "written payload (Producer (PublishAction low high)) r \<longleftrightarrow> (\<forall>q \<in> set [low..high]. Get r q = payload q)"
| "written payload _ r \<longleftrightarrow> True"

fun content_act ::
  "'a sequencerBase_scheme ring_log \<Rightarrow> ('t, 's) BatchProcessor \<Rightarrow> (int64 \<Rightarrow> bool) \<Rightarrow> (int64 \<Rightarrow> 't) \<Rightarrow> 't content_action \<Rightarrow>
   ('t, 'a sequencerBase_scheme, 's) world \<Rightarrow> ('t, 'a sequencerBase_scheme, 's) world"
where
  "content_act L p skip payload (WriteEntry low high q v) w = in_world (write_act L low high q v) w"
| "content_act L p skip payload (Other a) w = (if written payload a (sys_ring (snd w)) then env_act L p skip a w else w)"

definition content_steps ::
  "'a sequencerBase_scheme ring_log \<Rightarrow> ('t, 's) BatchProcessor \<Rightarrow> (int64 \<Rightarrow> bool) \<Rightarrow> (int64 \<Rightarrow> 't) \<Rightarrow>
   't content_action list \<Rightarrow> ('t, 'a sequencerBase_scheme, 's) world \<Rightarrow> ('t, 'a sequencerBase_scheme, 's) world"
where
  "content_steps L p skip payload as w = fold (content_act L p skip payload) as w"

definition content_turn ::
  "'a sequencerBase_scheme ring_log \<Rightarrow> ('t, 's) BatchProcessor \<Rightarrow> (int64 \<Rightarrow> bool) \<Rightarrow> (int64 \<Rightarrow> 't) \<Rightarrow>
   ('t, 'a sequencerBase_scheme, 's) world turn \<Rightarrow> bool"
where
  "content_turn L p skip payload t \<longleftrightarrow> {t_pre t, t_mid t, t_park t} \<subseteq> range (content_steps L p skip payload)"

abbreviation world_ring :: "('t, 'b, 's) world \<Rightarrow> ('t, 'b) ring_state" where
  "world_ring w \<equiv> (fst w, sys_ring (snd w))"

lemma same_contents:
  assumes "contents_ok L payload (h, r)" "same_log L (h, sequencer r) (h', sequencer r')"
    and "entries r' = entries r" "rb_indexMask r' = rb_indexMask r"
    and "bufferSize (sequencer r') = bufferSize (sequencer r)"
  shows "contents_ok L payload (h', r')"
  using assms by (auto simp: contents_ok_def same_log_def ring_wf_def Get_def)

context windowed_log
begin

lemma write_kept:
  assumes ok: "log_ring L skip (h, r)" "contents_ok L payload (h, r)"
    and w: "write_act L low high q v (h, r) = (h', r')"
  shows "h' = h \<and> sequencer r' = sequencer r \<and> methods r' = methods r \<and> rb_discarded r' = rb_discarded r \<and>
    contents_ok L payload (h', r')"
proof (cases "rl_pending L low high (h, sequencer r) \<and> low \<le> q \<and> q \<le> high")
  case True
  let ?n = "bufferSize (sequencer r)"
  have rl: "rl_ok L (h, sequencer r)" using ok(1) by (simp add: log_ring_def)
  have q: "rl_live L q (h, sequencer r)" "rl_status L q (h, sequencer r) \<noteq> Published" using pending [OF rl] True by auto
  have wf: "ring_wf ?n r" using ok(2) by (simp add: contents_ok_def)
  have r': "h' = h" "r' = r\<lparr>entries := (entries r)[slot ?n q := v]\<rparr>"
    using w True wf by (auto simp: write_act_def ring_wf_def mask_slot)
  have wf': "ring_wf ?n r'" using wf by (simp add: r' ring_wf_def)
  have "Get r' x = Get r x" if "rl_live L x (h, sequencer r)" "x \<noteq> q" for x
  proof -
    have "slot ?n x \<noteq> slot ?n q" using window [OF rl that(1) q(1)] that(2) slot_eq_close [of ?n x q] by auto
    then show ?thesis using Get_slot [OF wf] Get_slot [OF wf'] by (simp add: r')
  qed
  moreover have "x \<noteq> q" if "rl_status L x (h, sequencer r) = Published" for x using that q(2) by blast
  ultimately have "Get r' x = payload x" if "rl_live L x (h, sequencer r)" "rl_status L x (h, sequencer r) = Published" for x
    using that ok(2) by (simp add: contents_ok_def)
  with wf' show ?thesis by (simp add: contents_ok_def r')
next
  case False
  with w ok(2) show ?thesis by (auto simp: write_act_def)
qed

lemma ring_act_contents:
  assumes ring: "log_ring L skip (h, r)" and c: "contents_ok L payload (h, r)"
    and wr: "written payload (Producer a) r" and eq: "ring_act L skip a (h, r) = (h', r')"
  shows "contents_ok L payload (h', r')"
proof (cases "ring_act L skip a (h, r) = (h, r)")
  case True
  with eq c show ?thesis by simp
next
  case act: False
  let ?hs = "(h, sequencer r)"
  have ok: "rl_ok L ?hs" "rl_claimed L ?hs < 2 ^ 63 - 1" "methods r = rl_methods L" using ring by (simp_all add: log_ring_def)
  have step: "contents_ok L payload (h1, r1)"
    if "entries r1 = entries r" "rb_indexMask r1 = rb_indexMask r" "bufferSize (sequencer r1) = bufferSize (sequencer r)"
      and old: "\<And>q. rl_live L q (h1, sequencer r1) \<Longrightarrow> rl_status L q (h1, sequencer r1) = Published \<Longrightarrow>
         rl_live L q ?hs \<and> rl_status L q ?hs = Published \<or> Get r q = payload q" for h1 r1
  proof -
    have "Get r1 q = Get r q" for q using that(1,2) by (simp add: Get_def)
    moreover have "Get r q = payload q" if "rl_live L q (h1, sequencer r1)" "rl_status L q (h1, sequencer r1) = Published" for q
      using old [OF that] c by (auto simp: contents_ok_def)
    moreover have "ring_wf (bufferSize (sequencer r1)) r1" using c that(1-3) by (simp add: contents_ok_def ring_wf_def)
    ultimately show ?thesis by (simp add: contents_ok_def)
  qed
  show ?thesis
  proof (cases a)
    case (ClaimAction n)
    with act have n: "rl_claimed L ?hs + n < 2 ^ 63 - 1" by (auto split: if_splits)
    from claim [OF ok(1,2) n] obtain res ts' h1 s1 where
      t: "seq_TryNext (rl_methods L) [quiet] n ?hs = Some (res, ts', h1, s1)"
      and st: "\<forall>q. rl_live L q (h1, s1) \<and> rl_status L q (h1, s1) \<noteq> Unresolved \<longrightarrow>
        rl_live L q ?hs \<and> rl_status L q ?hs = rl_status L q (h1, s1)" by (metis surj_pair)
    have r': "h' = h1" "r' = r\<lparr>sequencer := s1\<rparr>" using eq n ok(3) t ClaimAction by (simp_all add: TryNextN_def)
    show ?thesis using claim_size [OF ok(1) t] st by (intro step) (auto simp: r')
  next
    case (PublishAction low high)
    with act have g: "rl_pending L low high ?hs" "\<forall>q. low \<le> q \<and> q \<le> high \<longrightarrow> \<not> skip q" by (auto split: if_splits)
    obtain h1 s1 where p: "seq_Publish (rl_methods L) low high ?hs = (h1, s1)" by fastforce
    have r': "h' = h1" "r' = r\<lparr>sequencer := s1\<rparr>" using eq PublishAction g p ok(3)
      by (simp_all add: PublishRange_def on_sequencer_def)
    have "resolved_as L Published low high ?hs (h1, s1)" "bufferSize s1 = bufferSize (sequencer r)"
      using publish [OF ok(1) g(1)] publish_size [OF ok(1), of low high] p by simp_all
    then show ?thesis using wr PublishAction by (intro step) (auto simp: r' resolved_as_def split: if_splits)
  next
    case (DiscardAction low high)
    with act have g: "rl_pending L low high ?hs" "\<forall>q. low \<le> q \<and> q \<le> high \<longrightarrow> skip q" by (auto split: if_splits)
    obtain h1 s1 where p: "seq_Discard (rl_methods L) low high ?hs = (h1, s1)" by fastforce
    have r': "h' = h1" "r' = r\<lparr>rb_discarded := True, sequencer := s1\<rparr>" using eq DiscardAction g p ok(3)
      by (simp_all add: DiscardRange_def on_sequencer_def)
    have "resolved_as L Discarded low high ?hs (h1, s1)" "bufferSize s1 = bufferSize (sequencer r)"
      using discard [OF ok(1) g(1)] discard_size [OF ok(1), of low high] p by simp_all
    then show ?thesis by (intro step) (auto simp: r' resolved_as_def split: if_splits)
  qed
qed

text \<open>A step that changes only the store and the door of the ring.\<close>

lemma world_contents:
  assumes "log_world L p skip w" "contents_ok L payload (world_ring w)"
    and "\<And>a. Sequence_Load a (fst w') = Sequence_Load a (fst w)"
    and "sys_ring (snd w') = sys_ring (snd w) \<or>
      sys_ring (snd w') = (sys_ring (snd w))\<lparr>sequencer := (sequencer (sys_ring (snd w)))\<lparr>sealed := True, closeOnce := True\<rparr>\<rparr>"
  shows "contents_ok L payload (world_ring w')"
proof -
  let ?s = "sequencer (sys_ring (snd w))" let ?s' = "sequencer (sys_ring (snd w'))"
  have ok: "rl_ok L (fst w, ?s)" using assms(1) by (simp add: log_world_def log_ring_def)
  have "same_log L (fst w, ?s) (fst w, ?s)" using ok by (simp add: same_log_def)
  with close(2) [OF ok] assms(4) have c: "same_log L (fst w, ?s) (fst w, ?s')" by auto
  then have "rl_ok L (fst w, ?s')" by (simp add: same_log_def)
  from frame [OF this, of "fst w'"] assms(3) have "same_log L (fst w, ?s') (fst w', ?s')" by simp
  with c have sl: "same_log L (fst w, ?s) (fst w', ?s')" by (simp add: same_log_def)
  show ?thesis by (rule same_contents [OF assms(2) sl]) (use assms(4) in auto)
qed

lemma env_contents:
  assumes I: "log_world L p skip w" "contents_ok L payload (world_ring w)" and wr: "written payload a (sys_ring (snd w))"
  shows "contents_ok L payload (world_ring (env_act L p skip a w))"
proof -
  obtain h y where w: "w = (h, y)" by (cases w)
  let ?s = "sequencer (sys_ring y)"
  have ring: "log_ring L skip (h, sys_ring y)" and ok: "rl_ok L (h, ?s)" "methods (sys_ring y) = rl_methods L"
    using I(1) by (simp_all add: w log_world_def log_ring_def)
  show ?thesis
  proof (cases a)
    case (Producer b)
    obtain h' r' where b: "ring_act L skip b (h, sys_ring y) = (h', r')" by fastforce
    from ring_act_contents [OF ring _ _ this] I(2) wr Producer b show ?thesis by (simp add: w in_world_def)
  next
    case (Acknowledge b v)
    show ?thesis
    proof (cases "env_act L p skip a w = w")
      case False
      then have b: "b \<noteq> cursor ?s" "Sequence_Load b h \<le> v" "v \<le> Sequence_Load (cursor ?s) h"
        and w': "env_act L p skip a w = (Sequence_Store b v h, y)"
        by (auto simp: w Acknowledge in_world_def acknowledge_act_def Let_def split: if_splits)
      from same_contents [of L payload h "sys_ring y", OF _ store_same_log [OF ok(1) b]] I(2)
      show ?thesis unfolding w' by (simp add: w)
    qed (use I(2) in simp)
  next
    case HaltCall
    show ?thesis
      by (rule world_contents [OF I])
        (auto simp: w HaltCall Halt_def Halt_swap_def set_state_def SequenceBarrier_Alert_def heap_simps
          split: processorState.splits)
  next
    case CloseCall
    have w': "env_act L p skip a w = (fst (base_Close (h, ?s)),
        y\<lparr>sys_ring := (sys_ring y)\<lparr>sequencer := ?s\<lparr>sealed := True, closeOnce := True\<rparr>\<rparr>\<rparr>)"
      unfolding CloseCall w using ok(2) close(1) Close_base [of h ?s]
      by (simp add: in_world_def RingBuffer_Close_def on_sequencer_def split_def Let_def)
    show ?thesis unfolding w' by (rule world_contents [OF I]) (auto simp: w heap_simps)
  qed
qed

abbreviation holds :: "('t, 's) BatchProcessor \<Rightarrow> (int64 \<Rightarrow> bool) \<Rightarrow> (int64 \<Rightarrow> 't) \<Rightarrow> ('t, 'a sequencerBase_scheme, 's) world \<Rightarrow> bool" where
  "holds p skip payload w \<equiv> log_world L p skip w \<and> contents_ok L payload (world_ring w)"

lemma content_act_kept:
  assumes I: "holds p skip payload w"
  shows "holds p skip payload (content_act L p skip payload a w) \<and> position p (content_act L p skip payload a w) = position p w"
proof (cases a)
  case (WriteEntry low high q v)
  obtain h y where w: "w = (h, y)" by (cases w)
  obtain h' r' where e: "write_act L low high q v (h, sys_ring y) = (h', r')" by fastforce
  have "log_ring L skip (h, sys_ring y)" "contents_ok L payload (h, sys_ring y)" using I by (simp_all add: w log_world_def)
  from write_kept [OF this e] have k: "h' = h" "sequencer r' = sequencer (sys_ring y)" "methods r' = methods (sys_ring y)"
    "rb_discarded r' = rb_discarded (sys_ring y)" "contents_ok L payload (h', r')" by blast+
  have w': "content_act L p skip payload a w = (h, y\<lparr>sys_ring := r'\<rparr>)" using e k by (simp add: w WriteEntry in_world_def)
  show ?thesis unfolding w' using I k by (simp add: w log_world_def log_ring_def run_limit_def)
next
  case (Other e)
  have "log_world L p skip (env_act L p skip e w) \<and> run_view p (env_act L p skip e w) = run_view p w"
    using others_kept [of p skip w "[e]"] I by (simp add: others_def)
  with env_contents [of p skip w payload e] I show ?thesis by (simp add: Other run_view_def)
qed

lemma content_steps_kept:
  "holds p skip payload w \<Longrightarrow> holds p skip payload (content_steps L p skip payload as w) \<and>
     position p (content_steps L p skip payload as w) = position p w"
proof (induction as arbitrary: w)
  case (Cons a as)
  from content_act_kept [OF Cons.prems, of a] Cons.IH [of "content_act L p skip payload a w"]
  show ?case by (simp add: content_steps_def)
qed (simp add: content_steps_def)

lemma holds_run_rely: "run_rely p skip (holds p skip payload)"
  unfolding run_rely_def Let_def
proof (intro allI impI)
  fix h y
  assume I: "holds p skip payload (h, y)"
  let ?low = "Sequence_Load (bp_sequence p) h + 1"
  let ?dep = "sequenceReader_Load (sb_dependent (bp_barrier p)) h"
  let ?av = "world_highest ?low ?dep (h, y)"
  have app: "holds p skip payload (h, y\<lparr>sys_app := a\<rparr>)" for a using I world_app [of p skip h y a] by simp
  have b: "?low - 1 \<le> ?av \<and> ?av \<le> ?dep \<and> ?av < 2 ^ 63 - 1 \<and> (\<forall>q. ?low \<le> q \<and> q \<le> ?av \<longrightarrow> skipped (h, sys_ring y) q = skip q)"
    if "?low \<le> ?dep"
    using world_run_rely [of p skip] I that unfolding run_rely_def Let_def by blast
  moreover have "holds p skip payload (Sequence_Store (bp_sequence p) v h, y\<lparr>sys_app := a\<rparr>)"
    if "?low \<le> ?dep" "?low - 1 \<le> v" "v \<le> ?av" for v a
  proof
    have v: "Sequence_Load (bp_sequence p) h \<le> v" "v \<le> run_limit p (h, y)" using b that by (simp_all add: run_limit_def)
    show "log_world L p skip (Sequence_Store (bp_sequence p) v h, y\<lparr>sys_app := a\<rparr>)"
      using world_acknowledge(1) [OF _ v] I by blast
    have "rl_ok L (h, sequencer (sys_ring y))" "bp_sequence p \<noteq> cursor (sequencer (sys_ring y))"
      "v \<le> Sequence_Load (cursor (sequencer (sys_ring y))) h"
      using I v(2) by (auto simp: log_world_def log_ring_def)
    note sl = store_same_log [OF this(1,2) v(1) this(3)]
    show "contents_ok L payload (world_ring (Sequence_Store (bp_sequence p) v h, y\<lparr>sys_app := a\<rparr>))"
      using same_contents [of L payload h "sys_ring y", OF _ sl] I by simp
  qed
  ultimately show "(\<forall>a. holds p skip payload (h, y\<lparr>sys_app := a\<rparr>)) \<and> (?low \<le> ?dep \<longrightarrow>
      ?low - 1 \<le> ?av \<and> ?av \<le> ?dep \<and> ?av < 2 ^ 63 - 1 \<and>
      (\<forall>q. ?low \<le> q \<and> q \<le> ?av \<longrightarrow> skipped (h, sys_ring y) q = skip q) \<and>
      (\<forall>v a. ?low - 1 \<le> v \<and> v \<le> ?av \<longrightarrow> holds p skip payload (Sequence_Store (bp_sequence p) v h, y\<lparr>sys_app := a\<rparr>)))"
    using app by blast
qed

lemma holds_start_rely: "start_rely p (holds p skip payload)"
  unfolding start_rely_def
proof (intro allI impI)
  fix h y
  assume I: "holds p skip payload (h, y)"
  let ?h = "SequenceBarrier_ClearAlert (bp_barrier p) h"
  have "log_world L p skip (?h, y) \<and> (\<forall>st. log_world L p skip (h, y\<lparr>sys_state := st\<rparr>))"
    using world_start_rely [of p skip] I unfolding start_rely_def by blast
  moreover have "contents_ok L payload (world_ring (?h, y))"
    by (rule world_contents [of p skip "(h, y)"]) (use I in \<open>simp_all add: SequenceBarrier_ClearAlert_def heap_simps\<close>)
  ultimately show "holds p skip payload (?h, y) \<and> (\<forall>st. holds p skip payload (h, y\<lparr>sys_state := st\<rparr>))"
    using I by simp
qed

lemma holds_reads_rely: "reads_rely p skip payload (holds p skip payload)"
  unfolding reads_rely_def Let_def
proof (intro allI impI)
  fix h y q
  assume I: "holds p skip payload (h, y)"
  let ?s = "sequencer (sys_ring y)" let ?low = "position p (h, y) + 1" let ?dep = "run_limit p (h, y)"
  assume q: "?low \<le> q \<and> ?low \<le> ?dep \<and> q \<le> world_highest ?low ?dep (h, y) \<and> \<not> skip q"
  obtain g where ring: "log_ring L skip (h, sys_ring y)" and g: "g \<in> set (gating ?s)" "Sequence_Load g h \<le> position p (h, y)"
    and dep: "?dep \<le> Sequence_Load (cursor ?s) h"
    using I by (auto simp: log_world_def covered_def)
  have ok: "rl_ok L (h, ?s)" "methods (sys_ring y) = rl_methods L" using ring by (simp_all add: log_ring_def)
  have "world_highest ?low ?dep (h, y) = seq_HighestPublished (rl_methods L) (position p (h, y) + 1) ?dep (h, ?s)"
    using ok(2) by (simp add: world_highest_def Let_def)
  from scan [OF ok(1) g _ dep this] q
  have "rl_live L q (h, ?s)" "rl_status L q (h, ?s) \<noteq> Unresolved" by auto
  moreover from this ring q have "rl_status L q (h, ?s) \<noteq> Discarded" by (auto simp: log_ring_def)
  ultimately have "rl_live L q (h, ?s)" "rl_status L q (h, ?s) = Published" by (cases "rl_status L q (h, ?s)"; simp)+
  with I show "Get (sys_ring y) q = payload q" by (simp add: contents_ok_def)
qed

lemma world_Run_reading:
  assumes p: "1 \<le> bp_maxBatchSize p" and I: "log_world L p skip w" "contents_ok L payload (world_ring w)"
    and turns: "\<forall>t \<in> set ts. content_turn L p skip payload t"
  shows "Run (reading payload p) ts w = Run p ts w"
proof (rule Run_reading [OF p holds_run_rely holds_start_rely holds_reads_rely])
  have "harmless (holds p skip payload) (position p) t" if "content_turn L p skip payload t" for t
    using that content_steps_kept unfolding content_turn_def harmless_def by fastforce
  with turns show "\<forall>t \<in> set ts. harmless (holds p skip payload) (position p) t" by blast
  show "-1 \<le> position p w \<and> position p w < 2 ^ 63 - 1" if "holds p skip payload w" for w
    using world_gate(1,2) [of p skip "fst w" "snd w"] that by simp
qed (use I in simp)

end

section \<open>Both sequencers\<close>

lemma multi_TryNext_size:
  assumes "multi_shape s" "multi_TryNext [quiet] n (h, s) = Some (res, ts', hs')"
  shows "bufferSize (snd hs') = bufferSize s"
  using assms
  by (auto simp: multi_TryNext_def multi_cas_def Sequence_compareAndSwap_def Let_def split: if_splits)

interpretation multi_windowed: windowed_log multiLog
proof (unfold_locales, goal_cases)
  case (1 hs p q)
  then show ?case by (auto simp: multiLog_def multi_live_def split: prod.splits)
next
  case (2 hs low high q)
  then have ok: "multi_ok hs" "multi_pending low high hs" by (simp_all add: multiLog_def)
  from multi_log.pending_unresolved [OF ok 2(3,4)] show ?case by (simp add: multiLog_def)
next
  case (3 hs n res ts' hs')
  then show ?case
    using multi_TryNext_size [of "snd hs" n "fst hs" res ts' hs'] multi_ok_shape [of hs] by (simp add: multiLog_def)
next
  case (4 hs low high)
  then show ?case using multi_ok_shape [of hs] by (cases hs) (simp add: multiLog_def multi_resolve_signal)
next
  case (5 hs low high)
  then show ?case using multi_ok_shape [of hs] by (cases hs) (simp add: multiLog_def multi_resolve_signal)
qed

lemma single_discard_size: "bufferSize (snd (fold single_discard_one qs hs)) = bufferSize (snd hs)"
  by (induction qs arbitrary: hs) (simp_all add: single_discard_one_def split_def Let_def)

interpretation single_windowed: windowed_log singleLog
proof (unfold_locales, goal_cases)
  case (1 hs p q)
  then show ?case by (auto simp: singleLog_def single_live_def split: prod.splits)
next
  case (2 hs low high q)
  then have ok: "single_log_ok hs" "single_pending low high hs" by (simp_all add: singleLog_def)
  from single_log.pending_unresolved [OF ok 2(3,4)] show ?case by (simp add: singleLog_def)
next
  case (3 hs n res ts' hs')
  then show ?case by (cases hs) (auto simp: singleLog_def single_TryNext_def Let_def split: if_splits)
next
  case (4 hs low high)
  show ?case by (cases hs) (simp add: singleLog_def single_Publish_def)
next
  case (5 hs low high)
  show ?case using single_discard_size [of "[low..high]" hs]
    by (simp add: singleLog_def single_Discard_def split_def Let_def)
qed

section \<open>Properties\<close>

text \<open>
  C6. A handler reads what was written. Producers claim, write the entries of their pending claims in any
  way and as often as they like, and publish a claim when its entries hold the payloads; slots are used
  again on every lap. Whatever the handler does with its arguments, the run of a processor is the run in which every
  event it is handed is the payload of its sequence: no entry is read before it is written or after it is
  overwritten.
\<close>

theorem handler_reads_what_was_written:
  assumes "1 \<le> bp_maxBatchSize p" "log_world multiLog p skip w" "contents_ok multiLog payload (world_ring w)"
    and "\<forall>t \<in> set ts. content_turn multiLog p skip payload t"
  shows "Run p ts w = Run (p\<lparr>bp_handler := (\<lambda>event q. bp_handler p (payload q) q)\<rparr>) ts w"
  using multi_windowed.world_Run_reading [OF assms] by (simp add: reading_def)

text \<open>
  Five sequences on a ring of four entries, one of them discarded and one of them written twice; the last
  claim reuses the entry of the first.
\<close>

definition content_turns :: "(int, multiProducerSequencer, int \<times> (int64 \<times> bool) list) world turn list" where
  "content_turns =
     (let steps = content_steps multiLog multi_processor (\<lambda>q. q = 1) (\<lambda>q. 100 + q) in
      [quiet,
       quiet\<lparr>t_pre := steps [Other (Producer (ClaimAction 3)), WriteEntry 0 2 0 100, WriteEntry 0 2 2 7,
         WriteEntry 0 2 2 102, Other (Producer (PublishAction 0 0)), Other (Producer (DiscardAction 1 1)),
         Other (Producer (PublishAction 2 2))]\<rparr>,
       quiet, quiet, quiet, quiet\<lparr>t_pre := steps [Other (Producer (ClaimAction 2)), WriteEntry 3 4 3 103,
         WriteEntry 3 4 4 104, Other (Producer (PublishAction 3 4))]\<rparr>,
       quiet, quiet\<lparr>t_pre := steps [Other HaltCall]\<rparr>])"

theorem handler_reads_what_was_written_witness:
  "\<exists>w'. Run multi_processor content_turns multi_start = Some (None, [], w') \<and>
     run_view multi_processor w' = (4, 100 + 102 + 103 + 104, [(0, True), (2, True), (3, False), (4, True)]) \<and>
     Run (multi_processor\<lparr>bp_handler := (\<lambda>event q. bp_handler multi_processor (100 + q) q)\<rparr>) content_turns multi_start =
       Some (None, [], w')"
proof -
  let ?p = multi_processor and ?skip = "\<lambda>q :: int. q = 1" and ?payload = "\<lambda>q :: int. 100 + q"
  have "map_option (\<lambda>(res, ts, w'). (res, length ts, run_view ?p w')) (Run ?p content_turns multi_start) =
      Some (None, 0, 4, 409, [(0, True), (2, True), (3, False), (4, True)])" by code_simp
  then obtain w' where run: "Run ?p content_turns multi_start = Some (None, [], w')"
    and view: "run_view ?p w' = (4, 409, [(0, True), (2, True), (3, False), (4, True)])" by auto
  have p: "1 \<le> bp_maxBatchSize ?p" by (simp add: multi_processor_def gated_demo_sel)
  have "ring_wf (bufferSize (sequencer (sys_ring (snd multi_start)))) (sys_ring (snd multi_start))"
    "multi_claimed (world_slots multi_start) = -1" by code_simp+
  then have contents: "contents_ok multiLog ?payload (world_ring multi_start)"
    by (auto simp: contents_ok_def multiLog_def multi_live_def multi_claimed_def)
  have "id \<in> range (content_steps multiLog ?p ?skip ?payload)"
    by (rule image_eqI [of _ _ "[]"]) (auto simp: content_steps_def fun_eq_iff)
  then have turns: "\<forall>t \<in> set content_turns. content_turn multiLog ?p ?skip ?payload t"
    by (auto simp: content_turns_def content_turn_def Let_def quiet_def)
  note same = handler_reads_what_was_written [OF p multi_start_ok contents turns]
  show ?thesis
    by (rule exI [of _ w']) (use run view same [symmetric] in \<open>simp del: Run.simps\<close>)
qed

end
