(* ===== verification/Multi_Protocol.thy ===== *)
theory Multi_Protocol
  imports Sequencer_Multi
begin

text \<open>
  Producers and consumers of a multi-producer ring running concurrently. Every atomic operation of
  \<open>Next\<close>, \<open>TryNext\<close>, \<open>Publish\<close> and \<open>Discard\<close> is one step of a step relation over the shared state of
  the sequencer and a program counter per producer goroutine; the reads of the gates are one step
  each. Consumers advance a gate over resolved sequences only. The invariant gives mutual exclusion
  on slots, the claim window and the absence of gap crossing for every interleaving of any number of
  producers. Sequences stay below \<open>2^62\<close>, so that neither \<open>int64\<close> nor the lap words wrap. The whole
  operations of the sequencer are shown to be paths of this relation.
\<close>

section \<open>Program counters and steps\<close>

text \<open>
  The first argument tells \<open>Next\<close> (\<open>True\<close>) from \<open>TryNext\<close> (\<open>False\<close>). \<open>Scan\<close> is the loop of
  \<open>minimumSequence\<close> with its running minimum and the gates still to read.
\<close>

datatype pc =
    Idle
  | CheckSealed bool int64
  | LoadCursor bool int64
  | LoadCache bool int64 int64
  | LoadGates bool int64 int64
  | Scan bool int64 int64 int64 "addr list"
  | Decide bool int64 int64 int64
  | Swap bool int64 int64
  | Preparing int64 int64 int64
  | Claimed int64 int64
  | Resolving uint32 int64 int64

type_synonym config = "multi_state \<times> (nat \<Rightarrow> pc)"

inductive step :: "config \<Rightarrow> config \<Rightarrow> bool" where
  call: "pcs i = Idle \<Longrightarrow> 1 \<le> n \<Longrightarrow> n \<le> bufferSize s \<Longrightarrow>
    step ((h, s), pcs) ((h, s), pcs(i := CheckSealed b n))"
| rejected: "pcs i = CheckSealed b n \<Longrightarrow> sealed s \<Longrightarrow>
    step ((h, s), pcs) ((h, s), pcs(i := Idle))"
| admitted: "pcs i = CheckSealed b n \<Longrightarrow> \<not> sealed s \<Longrightarrow>
    step ((h, s), pcs) ((h, s), pcs(i := LoadCursor b n))"
| load_cursor: "pcs i = LoadCursor b n \<Longrightarrow>
    step ((h, s), pcs) ((h, s), pcs(i := LoadCache b n (Sequence_Load (cursor s) h)))"
| cache_hit: "pcs i = LoadCache b n c \<Longrightarrow>
    \<not> (i64 (i64 (c + n) - bufferSize s) > gateCache s \<or> gateCache s > c) \<Longrightarrow>
    step ((h, s), pcs) ((h, s), pcs(i := Swap b n c))"
| cache_miss: "pcs i = LoadCache b n c \<Longrightarrow>
    i64 (i64 (c + n) - bufferSize s) > gateCache s \<or> gateCache s > c \<Longrightarrow>
    step ((h, s), pcs) ((h, s), pcs(i := LoadGates b n c))"
| load_gates: "pcs i = LoadGates b n c \<Longrightarrow> gating s = g # gs \<Longrightarrow>
    step ((h, s), pcs) ((h, s), pcs(i := Scan b n c (Sequence_Load g h) gs))"
| scan: "pcs i = Scan b n c m (g # gs) \<Longrightarrow>
    step ((h, s), pcs) ((h, s), pcs(i := Scan b n c
      (if Sequence_Load g h < m then Sequence_Load g h else m) gs))"
| scanned: "pcs i = Scan b n c m [] \<Longrightarrow>
    step ((h, s), pcs) ((h, s), pcs(i := Decide b n c m))"
| full_try: "pcs i = Decide False n c m \<Longrightarrow> i64 (i64 (c + n) - bufferSize s) > m \<Longrightarrow>
    step ((h, s), pcs) ((h, s\<lparr>gateCache := m\<rparr>), pcs(i := Idle))"
| full_wait: "pcs i = Decide True n c m \<Longrightarrow> i64 (i64 (c + n) - bufferSize s) > m \<Longrightarrow>
    step ((h, s), pcs) ((h, s), pcs(i := CheckSealed True n))"
| full_fail: "pcs i = Decide True n c m \<Longrightarrow> i64 (i64 (c + n) - bufferSize s) > m \<Longrightarrow>
    step ((h, s), pcs) ((h, s), pcs(i := Idle))"
| room: "pcs i = Decide b n c m \<Longrightarrow> \<not> i64 (i64 (c + n) - bufferSize s) > m \<Longrightarrow>
    step ((h, s), pcs) ((h, s\<lparr>gateCache := m\<rparr>), pcs(i := Swap b n c))"
| swap_lost: "pcs i = Swap b n c \<Longrightarrow>
    Sequence_compareAndSwap (cursor s) c (i64 (c + n)) h = (False, h') \<Longrightarrow>
    step ((h, s), pcs) ((h', s), pcs(i := CheckSealed b n))"
| swap_won: "pcs i = Swap b n c \<Longrightarrow> c + n < 2 ^ 62 \<Longrightarrow>
    Sequence_compareAndSwap (cursor s) c (i64 (c + n)) h = (True, h') \<Longrightarrow>
    step ((h, s), pcs) ((h', s), pcs(i := Preparing (i64 (c + 1)) (i64 (c + n)) (i64 (c + 1))))"
| prepare: "pcs i = Preparing low high k \<Longrightarrow>
    step ((h, s), pcs) ((h, multi_prepare_one k s),
      pcs(i := if k = high then Claimed low high else Preparing low high (k + 1)))"
| resolve: "pcs i = Claimed low high \<Longrightarrow> r = publicationPublished \<or> r = publicationDiscarded \<Longrightarrow>
    step ((h, s), pcs) ((h, s), pcs(i := Resolving r high low))"
| resolving: "pcs i = Resolving r high k \<Longrightarrow> k \<noteq> high \<Longrightarrow>
    step ((h, s), pcs) ((h, multi_resolve_one r k s), pcs(i := Resolving r high (k + 1)))"
| resolved: "pcs i = Resolving r high high \<Longrightarrow>
    step ((h, s), pcs) ((WaitStrategy_signalAll (wait_with s) h, multi_resolve_one r high s), pcs(i := Idle))"
| consume: "g \<in> set (gating s) \<Longrightarrow> Sequence_Load g h < v \<Longrightarrow>
    v \<le> multi_HighestPublished (Sequence_Load g h + 1) (Sequence_Load (cursor s) h) (h, s) \<Longrightarrow>
    step ((h, s), pcs) ((Sequence_Store g v h, s), pcs)"
| close: "step ((h, s), pcs) (base_Close (h, s), pcs)"

text \<open>A fresh sequencer with its gates registered, and everything it can become.\<close>

definition initial :: "config \<Rightarrow> bool" where
  "initial cfg \<longleftrightarrow>
     (let ((h, s), pcs) = cfg in
      multi_shape s \<and> gating s \<noteq> [] \<and> cursor s \<notin> set (gating s) \<and> gateCache s = -1 \<and>
      Sequence_Load (cursor s) h = -1 \<and> (\<forall>g \<in> set (gating s). Sequence_Load g h = -1) \<and>
      available s = replicate (nat (bufferSize s)) (-1) \<and> (\<forall>i. pcs i = Idle))"

inductive reachable :: "config \<Rightarrow> bool" where
  start: "initial cfg \<Longrightarrow> reachable cfg"
| more: "reachable cfg \<Longrightarrow> step cfg cfg' \<Longrightarrow> reachable cfg'"

section \<open>The invariant\<close>

text \<open>The sequences a producer owns and has not resolved, and those it has not even prepared.\<close>

fun owned :: "pc \<Rightarrow> int64 set" where
  "owned (Preparing low high k) = {low..high}"
| "owned (Claimed low high) = {low..high}"
| "owned (Resolving r high k) = {k..high}"
| "owned _ = {}"

fun unprepared :: "pc \<Rightarrow> int64 set" where
  "unprepared (Preparing low high k) = {k..high}"
| "unprepared _ = {}"

definition gates_above :: "multi_state \<Rightarrow> int64 \<Rightarrow> bool" where
  "gates_above hs x \<longleftrightarrow> (\<forall>g \<in> set (gating (snd hs)). x \<le> Sequence_Load g (fst hs))"

definition window_inv :: "multi_state \<Rightarrow> bool" where
  "window_inv hs \<longleftrightarrow>
     (let (h, s) = hs in
      multi_shape s \<and> gating s \<noteq> [] \<and> cursor s \<notin> set (gating s) \<and>
      -1 \<le> Sequence_Load (cursor s) h \<and> Sequence_Load (cursor s) h < 2 ^ 62 \<and>
      -1 \<le> gateCache s \<and> gates_above hs (gateCache s) \<and>
      gates_above hs (Sequence_Load (cursor s) h - bufferSize s) \<and>
      (\<forall>g \<in> set (gating s). Sequence_Load g h \<le> Sequence_Load (cursor s) h))"

fun pc_inv :: "multi_state \<Rightarrow> pc \<Rightarrow> bool" where
  "pc_inv hs (CheckSealed b n) \<longleftrightarrow> 1 \<le> n \<and> n \<le> bufferSize (snd hs)"
| "pc_inv hs (LoadCursor b n) \<longleftrightarrow> 1 \<le> n \<and> n \<le> bufferSize (snd hs)"
| "pc_inv hs (LoadCache b n c) \<longleftrightarrow> 1 \<le> n \<and> n \<le> bufferSize (snd hs) \<and> -1 \<le> c \<and> c < 2 ^ 62"
| "pc_inv hs (LoadGates b n c) \<longleftrightarrow> 1 \<le> n \<and> n \<le> bufferSize (snd hs) \<and> -1 \<le> c \<and> c < 2 ^ 62"
| "pc_inv hs (Scan b n c m gs) \<longleftrightarrow> 1 \<le> n \<and> n \<le> bufferSize (snd hs) \<and> -1 \<le> c \<and> c < 2 ^ 62 \<and> -1 \<le> m \<and>
     (\<forall>g \<in> set (gating (snd hs)). g \<in> set gs \<or> m \<le> Sequence_Load g (fst hs)) \<and> set gs \<subseteq> set (gating (snd hs))"
| "pc_inv hs (Decide b n c m) \<longleftrightarrow> 1 \<le> n \<and> n \<le> bufferSize (snd hs) \<and> -1 \<le> c \<and> c < 2 ^ 62 \<and> -1 \<le> m \<and>
     gates_above hs m"
| "pc_inv hs (Swap b n c) \<longleftrightarrow> 1 \<le> n \<and> n \<le> bufferSize (snd hs) \<and> -1 \<le> c \<and> c < 2 ^ 62 \<and>
     gates_above hs (c + n - bufferSize (snd hs))"
| "pc_inv hs (Preparing low high k) \<longleftrightarrow> 0 \<le> low \<and> low \<le> k \<and> k \<le> high \<and> high \<le> multi_claimed hs"
| "pc_inv hs (Claimed low high) \<longleftrightarrow> 0 \<le> low \<and> low \<le> high \<and> high \<le> multi_claimed hs"
| "pc_inv hs (Resolving r high k) \<longleftrightarrow> 0 \<le> k \<and> k \<le> high \<and> high \<le> multi_claimed hs \<and>
     (r = publicationPublished \<or> r = publicationDiscarded)"
| "pc_inv hs Idle \<longleftrightarrow> True"

definition own_inv :: "config \<Rightarrow> bool" where
  "own_inv cfg \<longleftrightarrow>
     (let ((h, s), pcs) = cfg in
      (\<forall>i j. i \<noteq> j \<longrightarrow> owned (pcs i) \<inter> owned (pcs j) = {}) \<and>
      (\<forall>i. \<forall>q \<in> owned (pcs i). \<forall>g \<in> set (gating s). Sequence_Load g h < q))"

text \<open>A word that an earlier lap left in the slot of a sequence.\<close>

definition stale_word :: "multiProducerSequencer \<Rightarrow> int64 \<Rightarrow> bool" where
  "stale_word s q \<longleftrightarrow>
     word_of s q = -1 \<or>
     (\<exists>p a. 0 \<le> p \<and> p < q \<and> p div bufferSize s \<noteq> q div bufferSize s \<and> a < 4 \<and>
        word_of s q = publicationValue (multi_flag s p) a)"

definition unresolved_word :: "multiProducerSequencer \<Rightarrow> int64 \<Rightarrow> bool" where
  "unresolved_word s q \<longleftrightarrow> word_of s q = publicationValue (multi_flag s q) publicationUnresolved"

definition resolved_word :: "multiProducerSequencer \<Rightarrow> int64 \<Rightarrow> bool" where
  "resolved_word s q \<longleftrightarrow> word_of s q = publicationValue (multi_flag s q) publicationPublished \<or>
     word_of s q = publicationValue (multi_flag s q) publicationDiscarded"

definition word_inv :: "config \<Rightarrow> bool" where
  "word_inv cfg \<longleftrightarrow>
     (let (hs, pcs) = cfg; s = snd hs in
      (\<forall>i. \<forall>q \<in> unprepared (pcs i). stale_word s q) \<and>
      (\<forall>i. \<forall>q \<in> owned (pcs i) - unprepared (pcs i). unresolved_word s q) \<and>
      (\<forall>q. multi_live q hs \<and> (\<forall>i. q \<notin> owned (pcs i)) \<longrightarrow> resolved_word s q) \<and>
      (\<forall>q. multi_claimed hs < q \<and> q < bufferSize s \<longrightarrow> word_of s q = -1))"

definition protocol_inv :: "config \<Rightarrow> bool" where
  "protocol_inv cfg \<longleftrightarrow> window_inv (fst cfg) \<and> (\<forall>i. pc_inv (fst cfg) (snd cfg i)) \<and> own_inv cfg \<and> word_inv cfg"

subsection \<open>Consequences of the invariant in one state\<close>

lemma gates_above_mono: "gates_above hs x \<Longrightarrow> y \<le> x \<Longrightarrow> gates_above hs y"
  by (auto simp: gates_above_def intro: order_trans)

lemma window_gate: "window_inv (h, s) \<Longrightarrow> \<exists>g. g \<in> set (gating s)"
  by (cases "gating s") (auto simp: window_inv_def)

lemma window_multi_ok: "window_inv hs \<Longrightarrow> multi_ok hs"
proof -
  assume w: "window_inv hs"
  obtain h s where hs: "hs = (h, s)" by (cases hs)
  from w obtain g where "g \<in> set (gating s)" using window_gate by (auto simp: hs)
  with w have "gateCache s \<le> Sequence_Load (cursor s) h"
    by (auto simp: hs window_inv_def gates_above_def intro: order_trans)
  with w show ?thesis by (fastforce simp: hs window_inv_def multi_ok_def gates_above_def)
qed

lemma owned_bounds:
  assumes "protocol_inv ((h, s), pcs)" "q \<in> owned (pcs i)"
  shows "multi_live q (h, s)"
proof -
  from assms(1) obtain g where g: "g \<in> set (gating s)" using window_gate [of h s] by (auto simp: protocol_inv_def)
  have "Sequence_Load g h < q" using assms g by (auto simp: protocol_inv_def own_inv_def)
  moreover have "Sequence_Load (cursor s) h - bufferSize s \<le> Sequence_Load g h"
    using assms(1) g by (auto simp: protocol_inv_def window_inv_def gates_above_def)
  moreover have "pc_inv (h, s) (pcs i)" using assms(1) by (simp add: protocol_inv_def)
  then have "0 \<le> q \<and> q \<le> Sequence_Load (cursor s) h"
    using assms(2) by (cases "pcs i") (auto simp: multi_claimed_def)
  ultimately show ?thesis by (simp add: multi_live_def)
qed

lemma live_slots: "multi_live p (h, s) \<Longrightarrow> multi_live q (h, s) \<Longrightarrow>
    slot (bufferSize s) p = slot (bufferSize s) q \<Longrightarrow> p = q"
  by (rule slot_eq_close [of "bufferSize s"]) (auto simp: multi_live_def)

lemma owned_unresolved:
  assumes "protocol_inv ((h, s), pcs)" "q \<in> owned (pcs i)"
  shows "multi_status q (h, s) = Unresolved"
proof -
  have shape: "multi_shape s" and c: "Sequence_Load (cursor s) h < 2 ^ 62"
    using assms(1) by (simp_all add: protocol_inv_def window_inv_def)
  have q: "0 \<le> q" "q < 2 ^ 62" using owned_bounds [OF assms] c by (auto simp: multi_live_def)
  show ?thesis
  proof (cases "q \<in> unprepared (pcs i)")
    case True
    with assms(1) have "stale_word s q" by (auto simp: protocol_inv_def word_inv_def)
    then consider "word_of s q = -1" | p a where "0 \<le> p" "p < q" "p div bufferSize s \<noteq> q div bufferSize s"
      "a < 4" "word_of s q = publicationValue (multi_flag s p) a" by (auto simp: stale_word_def)
    then show ?thesis
    proof cases
      case 1
      then show ?thesis using shape publicationValue_initial by (simp add: multi_status_word) metis
    next
      case 2
      with q show ?thesis by (intro multi_stale_unresolved [OF shape, of p q a]) auto
    qed
  next
    case False
    with assms have "unresolved_word s q" by (auto simp: protocol_inv_def word_inv_def)
    with shape show ?thesis by (simp add: unresolved_word_def)
  qed
qed

lemma consume_stops:
  assumes "protocol_inv ((h, s), pcs)" "q \<in> owned (pcs i)" "g \<in> set (gating s)"
  shows "multi_HighestPublished (Sequence_Load g h + 1) (Sequence_Load (cursor s) h) (h, s) < q"
proof -
  have w: "window_inv (h, s)" using assms(1) by (simp add: protocol_inv_def)
  have ok: "multi_ok (h, s)" using w by (rule window_multi_ok)
  have "Sequence_Load g h < q" using assms by (auto simp: protocol_inv_def own_inv_def)
  moreover have "-1 \<le> Sequence_Load g h" using ok assms(3) by (auto simp: multi_ok_def)
  moreover have "q \<le> Sequence_Load (cursor s) h" using owned_bounds [OF assms(1,2)] by (simp add: multi_live_def)
  moreover have "Sequence_Load (cursor s) h < 2 ^ 63" using ok by (simp add: multi_ok_def)
  ultimately show ?thesis
    using multi_log.highest_stops_at_gap [OF ok, of "Sequence_Load g h + 1" "Sequence_Load (cursor s) h" q]
      owned_unresolved [OF assms(1,2)] by (simp add: multi_readable_def)
qed

subsection \<open>Steps that keep it\<close>

lemma inv_initial: "initial cfg \<Longrightarrow> protocol_inv cfg"
  by (auto simp: initial_def protocol_inv_def window_inv_def own_inv_def word_inv_def gates_above_def
      multi_live_def multi_claimed_def word_of_def multi_shape_def ring_size_pos slot_less
      intro: less_imp_le)

lemma inv_local:
  assumes "protocol_inv (hs, pcs)" "pc_inv hs p" "owned p = owned (pcs i)" "unprepared p = unprepared (pcs i)"
  shows "protocol_inv (hs, pcs(i := p))"
proof -
  have o: "owned ((pcs(i := p)) j) = owned (pcs j)" "unprepared ((pcs(i := p)) j) = unprepared (pcs j)" for j
    using assms(3,4) by simp_all
  show ?thesis
    using assms(1,2) unfolding protocol_inv_def own_inv_def word_inv_def Let_def split_def fst_conv snd_conv o
    by simp
qed

text \<open>The invariant reads the loads, the gates, the table and the cache, and nothing else.\<close>

lemma inv_frame:
  assumes "protocol_inv ((h, s), pcs)" "\<And>a. Sequence_Load a h' = Sequence_Load a h"
    and "s' = s\<lparr>gateCache := m, sealed := b1, closeOnce := b2\<rparr>" "-1 \<le> m" "gates_above (h, s) m"
  shows "protocol_inv ((h', s'), pcs)"
proof -
  have ga: "gates_above (h', s') x = gates_above (h, s) x" for x using assms(2,3) by (simp add: gates_above_def)
  have fl: "multi_flag s' = multi_flag s" "word_of s' = word_of s"
    using assms(3) by (auto simp: multi_flag_def word_of_def fun_eq_iff)
  have cl: "multi_claimed (h', s') = multi_claimed (h, s)" "multi_live q (h', s') = multi_live q (h, s)" for q
    using assms(2,3) by (simp_all add: multi_claimed_def multi_live_def)
  have "pc_inv (h', s') p = pc_inv (h, s) p" for p
    using assms(2,3) ga cl by (cases p) simp_all
  moreover have "window_inv (h', s')"
    using assms ga by (simp add: protocol_inv_def window_inv_def multi_shape_def)
  moreover have "own_inv ((h', s'), pcs) = own_inv ((h, s), pcs)" using assms(2,3) by (simp add: own_inv_def)
  moreover have "word_inv ((h', s'), pcs) = word_inv ((h, s), pcs)"
    using fl cl assms(3)
    by (simp add: word_inv_def stale_word_def unresolved_word_def resolved_word_def)
  ultimately show ?thesis using assms(1) by (simp add: protocol_inv_def)
qed

lemma inv_cache:
  assumes "protocol_inv ((h, s), pcs)" "-1 \<le> m" "gates_above (h, s) m"
  shows "protocol_inv ((h, s\<lparr>gateCache := m\<rparr>), pcs)"
proof (rule inv_frame [OF assms(1) refl _ assms(2,3)])
  show "s\<lparr>gateCache := m\<rparr> = s\<lparr>gateCache := m, sealed := sealed s, closeOnce := closeOnce s\<rparr>" by simp
qed

lemma inv_swap:
  assumes protocol_inv: "protocol_inv ((h, s), pcs)" and pc: "pcs i = Swap b n c" "c = Sequence_Load (cursor s) h"
    and lim: "c + n < 2 ^ 62"
  shows "protocol_inv ((Sequence_store (cursor s) (c + n) h, s), pcs(i := Preparing (c + 1) (c + n) (c + 1)))"
proof -
  let ?h = "Sequence_store (cursor s) (c + n) h" and ?pcs = "pcs(i := Preparing (c + 1) (c + n) (c + 1))"
  have w: "window_inv (h, s)" and pci: "\<And>j. pc_inv (h, s) (pcs j)" and own: "own_inv ((h, s), pcs)"
    and wd: "word_inv ((h, s), pcs)" using protocol_inv by (simp_all add: protocol_inv_def)
  have n: "1 \<le> n" "n \<le> bufferSize s" "-1 \<le> c" "c + n < 2 ^ 62" "gates_above (h, s) (c + n - bufferSize s)"
    using pci [of i] pc lim by simp_all
  have ne: "g \<noteq> cursor s" if "g \<in> set (gating s)" for g using w that by (auto simp: window_inv_def)
  then have ld: "Sequence_Load g ?h = Sequence_Load g h" if "g \<in> set (gating s)" for g
    using that by (simp add: heap_simps)
  then have ga: "gates_above (?h, s) x = gates_above (h, s) x" for x by (simp add: gates_above_def)
  have cur: "Sequence_Load (cursor s) ?h = c + n" by (simp add: heap_simps)
  have gl: "Sequence_Load g h \<le> c" if "g \<in> set (gating s)" for g using w that pc by (auto simp: window_inv_def)
  have le: "q \<le> c" if "q \<in> owned (pcs j)" for q j
    using owned_bounds [OF protocol_inv that] pc by (simp add: multi_live_def)
  have pos: "0 < bufferSize s" using w by (auto simp: window_inv_def multi_shape_def ring_size_pos)
  have "window_inv (?h, s)"
    using w n gl ga ld cur by (fastforce simp: window_inv_def)
  moreover have "pc_inv (?h, s) (?pcs j)" for j
  proof (cases "j = i")
    case True
    with n show ?thesis by (simp add: multi_claimed_def cur)
  next
    case False
    with pci [of j] n ld ga pc cur show ?thesis by (cases "pcs j") (auto simp: multi_claimed_def)
  qed
  moreover have "own_inv ((?h, s), ?pcs)"
    using own le gl ld n by (fastforce simp: own_inv_def)
  moreover have "word_inv ((?h, s), ?pcs)"
  proof -
    have st: "stale_word s q" if "c + 1 \<le> q" "q \<le> c + n" for q
    proof (cases "q < bufferSize s")
      case True
      with wd that pc show ?thesis by (simp add: word_inv_def multi_claimed_def stale_word_def)
    next
      case False
      let ?p = "q - bufferSize s"
      have "?p \<notin> owned (pcs j)" for j
      proof
        assume p: "?p \<in> owned (pcs j)"
        from w obtain g where g: "g \<in> set (gating s)" using window_gate by blast
        with p own have "Sequence_Load g h < ?p" by (auto simp: own_inv_def)
        moreover have "c + n - bufferSize s \<le> Sequence_Load g h" using n(5) g by (auto simp: gates_above_def)
        ultimately show False using that by simp
      qed
      moreover have "multi_live ?p (h, s)" using False that n pc by (simp add: multi_live_def)
      ultimately have "resolved_word s ?p" using wd by (auto simp: word_inv_def)
      moreover have "word_of s ?p = word_of s q" by (simp add: word_of_def slot_def)
      moreover have "?p div bufferSize s \<noteq> q div bufferSize s" "?p < q"
        using pos div_add_self2 [of "bufferSize s" ?p] by simp_all
      moreover have "0 \<le> ?p" using False by simp
      ultimately show ?thesis unfolding stale_word_def resolved_word_def by (metis resolutions_differ(8,9))
    qed
    have "resolved_word s q" if "multi_live q (?h, s)" "\<forall>j. q \<notin> owned (?pcs j)" for q
    proof -
      have "q \<notin> {c + 1..c + n}" using that(2) by (metis fun_upd_same owned.simps(1))
      then have q: "q \<le> c" "multi_live q (h, s)"
        using that(1) n pc cur by (auto simp: multi_live_def)
      have "q \<notin> owned (pcs j)" for j using that(2) pc by (cases "j = i") (auto split: if_splits)
      with wd q show ?thesis by (auto simp: word_inv_def)
    qed
    with st wd n pc cur show ?thesis by (auto simp: word_inv_def multi_claimed_def)
  qed
  ultimately show ?thesis by (simp add: protocol_inv_def)
qed

text \<open>
  Preparing or resolving one owned sequence \<open>k\<close> changes the slot of \<open>k\<close> only; no other live sequence
  and no sequence that was never claimed shares that slot.
\<close>

lemma inv_write:
  assumes protocol_inv: "protocol_inv ((h, s), pcs)" and k: "k \<in> owned (pcs i)"
    and s': "s' = s\<lparr>available := (available s)[slot (bufferSize s) k := v]\<rparr>"
    and ld: "\<And>a. Sequence_Load a h' = Sequence_Load a h"
    and p: "pc_inv (h, s) p" "owned p \<subseteq> owned (pcs i)" "unprepared p = unprepared (pcs i) - {k}"
    and kept: "owned (pcs i) - owned p \<subseteq> {k}"
    and v: "k \<in> owned p \<Longrightarrow> v = publicationValue (multi_flag s k) publicationUnresolved"
      "k \<notin> owned p \<Longrightarrow> \<exists>r \<in> {publicationPublished, publicationDiscarded}. v = publicationValue (multi_flag s k) r"
  shows "protocol_inv ((h', s'), pcs(i := p))"
proof -
  let ?pcs = "pcs(i := p)"
  have w: "window_inv (h, s)" and pci: "\<And>j. pc_inv (h, s) (pcs j)" and own: "own_inv ((h, s), pcs)"
    and wd: "word_inv ((h, s), pcs)" using protocol_inv by (simp_all add: protocol_inv_def)
  have pos: "0 < bufferSize s" "length (available s) = nat (bufferSize s)"
    using w by (auto simp: window_inv_def multi_shape_def ring_size_pos)
  note kl = owned_bounds [OF protocol_inv k]
  have wk: "word_of s' k = v" using pos slot_less by (simp add: s' word_of_def)
  have wo: "word_of s' q = word_of s q" if "slot (bufferSize s) q \<noteq> slot (bufferSize s) k" for q
    using that by (simp add: s' word_of_def)
  have wl: "word_of s' q = word_of s q" if "multi_live q (h, s)" "q \<noteq> k" for q
    using live_slots [OF that(1) kl] that(2) by (intro wo) auto
  have fl: "multi_flag s' = multi_flag s" by (simp add: s')
  have cl: "multi_claimed (h', s') = multi_claimed (h, s)" "multi_live q (h', s') = multi_live q (h, s)"
    "gates_above (h', s') x = gates_above (h, s) x" for q x
    using ld by (simp_all add: s' multi_claimed_def multi_live_def gates_above_def)
  have pcf: "pc_inv (h', s') x = pc_inv (h, s) x" for x
    using ld cl(1) cl(3) by (cases x) (simp_all add: s')
  have sub: "owned (?pcs j) \<subseteq> owned (pcs j)" for j using p(2) by simp
  have "window_inv (h', s')" using w ld cl(3) by (simp add: window_inv_def s' multi_shape_def)
  moreover have "pc_inv (h', s') (?pcs j)" for j using pci p(1) pcf by simp
  moreover have "own_inv ((h', s'), ?pcs)"
  proof -
    have "owned (?pcs a) \<inter> owned (?pcs b) = {}" if "a \<noteq> b" for a b
    proof -
      have "owned (pcs a) \<inter> owned (pcs b) = {}" using own that by (simp add: own_inv_def)
      with sub [of a] sub [of b] show ?thesis by blast
    qed
    moreover have "Sequence_Load g h < q" if "q \<in> owned (?pcs j)" "g \<in> set (gating s)" for j q g
      using own that(2) subsetD [OF sub that(1)] by (auto simp: own_inv_def)
    ultimately show ?thesis using ld by (simp add: own_inv_def s')
  qed
  moreover have "word_inv ((h', s'), ?pcs)"
  proof -
    have notk: "k \<notin> owned (pcs j)" if "j \<noteq> i" for j using own k that by (fastforce simp: own_inv_def)
    have unp: "unprepared x \<subseteq> owned x" if "pc_inv (h, s) x" for x using that by (cases x) auto
    have "stale_word s' q" if "q \<in> unprepared (?pcs j)" for q j
    proof -
      have q: "q \<in> unprepared (pcs j)" "q \<noteq> k"
        using that p(3) notk unp [OF pci, of j] by (cases "j = i"; auto)+
      then have "multi_live q (h, s)" using unp [OF pci, of j] owned_bounds [OF protocol_inv] by blast
      with q wd wl fl show ?thesis by (auto simp: word_inv_def stale_word_def s')
    qed
    moreover have "unresolved_word s' q" if "q \<in> owned (?pcs j) - unprepared (?pcs j)" for q j
    proof (cases "q = k")
      case True
      then have "j = i" using that notk sub [of j] by auto
      with that True v(1) wk fl show ?thesis by (simp add: unresolved_word_def)
    next
      case False
      then have q: "q \<in> owned (pcs j) - unprepared (pcs j)"
        using that p(2,3) by (cases "j = i") auto
      then have "multi_live q (h, s)" using owned_bounds [OF protocol_inv] by blast
      with q wd wl False fl show ?thesis by (auto simp: word_inv_def unresolved_word_def)
    qed
    moreover have "resolved_word s' q" if "multi_live q (h, s)" "\<forall>j. q \<notin> owned (?pcs j)" for q
    proof (cases "q = k")
      case True
      then have "k \<notin> owned p" using that(2) by (metis fun_upd_same)
      from v(2) [OF this] True wk fl show ?thesis by (auto simp: resolved_word_def)
    next
      case False
      then have "q \<notin> owned (pcs j)" for j
        using that(2) kept by (cases "j = i") (metis Diff_iff fun_upd_same singletonD subsetD, metis fun_upd_other)
      with that(1) wd have "resolved_word s q" by (auto simp: word_inv_def)
      with wl [OF that(1) False] fl show ?thesis by (simp add: resolved_word_def)
    qed
    moreover have "word_of s' q = -1" if "multi_claimed (h, s) < q" "q < bufferSize s" for q
    proof -
      have "slot (bufferSize s) q \<noteq> slot (bufferSize s) k"
        using slot_eq_close [of "bufferSize s" q k] kl that by (auto simp: multi_live_def multi_claimed_def)
      with wo wd that show ?thesis by (auto simp: word_inv_def)
    qed
    ultimately show ?thesis using cl by (simp add: word_inv_def s')
  qed
  ultimately show ?thesis by (simp add: protocol_inv_def)
qed

lemma inv_prepare:
  assumes "protocol_inv ((h, s), pcs)" "pcs i = Preparing low high k"
  shows "protocol_inv ((h, multi_prepare_one k s),
    pcs(i := if k = high then Claimed low high else Preparing low high (k + 1)))"
proof (rule inv_write [OF assms(1), of k])
  have pi: "0 \<le> low" "low \<le> k" "k \<le> high" "high \<le> multi_claimed (h, s)"
    using assms by (auto simp: protocol_inv_def dest: spec [of _ i])
  show "k \<in> owned (pcs i)" using assms(2) pi by simp
  show "multi_prepare_one k s = s\<lparr>available := (available s)[slot (bufferSize s) k :=
      publicationValue (multi_flag s k) publicationUnresolved]\<rparr>"
    using assms(1) by (simp add: multi_prepare_one_def multi_index_slot protocol_inv_def window_inv_def)
  let ?p = "if k = high then Claimed low high else Preparing low high (k + 1)"
  show "pc_inv (h, s) ?p" using pi by simp
  show "\<exists>r \<in> {publicationPublished, publicationDiscarded}.
      publicationValue (multi_flag s k) publicationUnresolved = publicationValue (multi_flag s k) r"
    if "k \<notin> owned ?p" using that pi by (simp split: if_splits)
qed (use assms(2) in auto)

lemma inv_resolving:
  assumes protocol_inv: "protocol_inv ((h, s), pcs)" and pc: "pcs i = Resolving r high k"
    and ld: "\<And>a. Sequence_Load a h' = Sequence_Load a h"
  shows "protocol_inv ((h', multi_resolve_one r k s), pcs(i := if k = high then Idle else Resolving r high (k + 1)))"
proof (rule inv_write [OF protocol_inv, of k])
  have pi: "0 \<le> k" "k \<le> high" "high \<le> multi_claimed (h, s)"
    "r = publicationPublished \<or> r = publicationDiscarded"
    using protocol_inv pc by (auto simp: protocol_inv_def dest: spec [of _ i])
  show k: "k \<in> owned (pcs i)" using pc pi by simp
  have "unresolved_word s k" using protocol_inv pc pi by (auto simp: protocol_inv_def word_inv_def dest: spec [of _ i])
  then show "multi_resolve_one r k s = s\<lparr>available := (available s)[slot (bufferSize s) k :=
      publicationValue (multi_flag s k) r]\<rparr>"
    using protocol_inv by (simp add: multi_resolve_one_def multi_index_slot protocol_inv_def window_inv_def
        unresolved_word_def word_of_def Let_def)
  show "pc_inv (h, s) (if k = high then Idle else Resolving r high (k + 1))" using pi by simp
  show "\<exists>x \<in> {publicationPublished, publicationDiscarded}.
      publicationValue (multi_flag s k) r = publicationValue (multi_flag s k) x" using pi(4) by auto
  show "publicationValue (multi_flag s k) r = publicationValue (multi_flag s k) publicationUnresolved"
    if "k \<in> owned (if k = high then Idle else Resolving r high (k + 1))" using that by (simp split: if_splits)
qed (use pc ld in auto)

lemma inv_consume:
  assumes protocol_inv: "protocol_inv ((h, s), pcs)" and g: "g \<in> set (gating s)" "Sequence_Load g h < v"
    and v: "v \<le> multi_HighestPublished (Sequence_Load g h + 1) (Sequence_Load (cursor s) h) (h, s)"
  shows "protocol_inv ((Sequence_Store g v h, s), pcs)"
proof -
  have w: "window_inv (h, s)" using protocol_inv by (simp add: protocol_inv_def)
  have ok: "multi_ok (h, s)" using w by (rule window_multi_ok)
  have ne: "g \<noteq> cursor s" using w g by (auto simp: window_inv_def)
  have b: "-1 \<le> Sequence_Load g h" "Sequence_Load g h \<le> Sequence_Load (cursor s) h"
    "Sequence_Load (cursor s) h < 2 ^ 63" using ok g by (auto simp: multi_ok_def)
  have "multi_HighestPublished (Sequence_Load g h + 1) (Sequence_Load (cursor s) h) (h, s) \<le> Sequence_Load (cursor s) h"
    using multi_log.highest_prefix [OF ok, of "Sequence_Load g h + 1" "Sequence_Load (cursor s) h"] b
    by (cases "Sequence_Load g h + 1 \<le> Sequence_Load (cursor s) h")
      (simp_all add: multi_readable_def multi_HighestPublished_def)
  with v have vc: "v \<le> Sequence_Load (cursor s) h" by simp
  have ld: "Sequence_Load a (Sequence_Store g v h) = (if a = g then v else Sequence_Load a h)" for a
    by (simp add: heap_simps)
  have mono: "gates_above (h, s) x \<Longrightarrow> gates_above (Sequence_Store g v h, s) x" for x
    using g by (fastforce simp: gates_above_def ld)
  have cl: "multi_claimed (Sequence_Store g v h, s) = multi_claimed (h, s)"
    "multi_live q (Sequence_Store g v h, s) = multi_live q (h, s)" for q
    using ne by (simp_all add: multi_claimed_def multi_live_def ld)
  have "pc_inv (Sequence_Store g v h, s) p" if "pc_inv (h, s) p" for p
    using that mono cl(1) g by (cases p) (fastforce simp: ld)+
  moreover have "window_inv (Sequence_Store g v h, s)"
    using w mono ne vc by (auto simp: window_inv_def ld)
  moreover have "own_inv ((Sequence_Store g v h, s), pcs)"
    using protocol_inv consume_stops [OF protocol_inv _ g(1)] v by (fastforce simp: protocol_inv_def own_inv_def ld)
  moreover have "word_inv ((Sequence_Store g v h, s), pcs)"
    using protocol_inv cl by (simp add: protocol_inv_def word_inv_def)
  ultimately show ?thesis using protocol_inv by (simp add: protocol_inv_def)
qed

lemma inv_pc: "protocol_inv ((h, s), pcs) \<Longrightarrow> pcs i = p \<Longrightarrow> pc_inv (h, s) p"
  by (auto simp: protocol_inv_def)

lemma inv_ok: "protocol_inv ((h, s), pcs) \<Longrightarrow> multi_ok (h, s)"
  by (simp add: protocol_inv_def window_multi_ok)

text \<open>The arithmetic of a claim does not wrap.\<close>

lemma claim_i64:
  assumes "window_inv (h, s)" "1 \<le> n" "n \<le> bufferSize s" "-1 \<le> c" "c < 2 ^ 62"
  shows "i64 (c + n) = c + n" "i64 (c + 1) = c + 1" "i64 (i64 (c + n) - bufferSize s) = c + n - bufferSize s"
proof -
  have "0 < bufferSize s" "bufferSize s \<le> 2 ^ 62"
    using assms(1) ring_size_le ring_size_pos by (auto simp: window_inv_def multi_shape_def)
  with assms show "i64 (c + n) = c + n" "i64 (c + 1) = c + 1"
    "i64 (i64 (c + n) - bufferSize s) = c + n - bufferSize s" by (auto simp: i64_id)
qed

lemma inv_step:
  assumes "step cfg cfg'" "protocol_inv cfg" shows "protocol_inv cfg'"
  using assms
proof (cases rule: step.cases)
  case (call pcs i n s h b)
  with assms(2) show ?thesis by (auto intro!: inv_local)
next
  case (rejected pcs i b n s h)
  with assms(2) show ?thesis by (auto intro!: inv_local)
next
  case (admitted pcs i b n s h)
  then have "pc_inv (h, s) (CheckSealed b n)" using assms(2) inv_pc by blast
  with admitted assms(2) show ?thesis by (auto intro!: inv_local)
next
  case (load_cursor pcs i b n h s)
  then have "pc_inv (h, s) (LoadCursor b n)" "window_inv (h, s)"
    using assms(2) inv_pc by (blast, simp add: protocol_inv_def)
  with load_cursor assms(2) show ?thesis by (auto intro!: inv_local simp: window_inv_def)
next
  case (cache_hit pcs i b n c s h)
  then have p: "pc_inv (h, s) (LoadCache b n c)" "window_inv (h, s)"
    using assms(2) inv_pc by (blast, simp add: protocol_inv_def)
  then have "i64 (i64 (c + n) - bufferSize s) = c + n - bufferSize s" using claim_i64(3) by auto
  with cache_hit p have "gates_above (h, s) (c + n - bufferSize s)"
    by (auto simp: window_inv_def intro: gates_above_mono)
  with cache_hit assms(2) p show ?thesis by (auto intro!: inv_local)
next
  case (cache_miss pcs i b n c s h)
  then have "pc_inv (h, s) (LoadCache b n c)" using assms(2) inv_pc by blast
  with cache_miss assms(2) show ?thesis by (auto intro!: inv_local)
next
  case (load_gates pcs i b n c s g gs h)
  then have "pc_inv (h, s) (LoadGates b n c)" "multi_ok (h, s)"
    using assms(2) inv_pc inv_ok by blast+
  with load_gates assms(2) show ?thesis by (auto intro!: inv_local simp: multi_ok_def)
next
  case (scan pcs i b n c m g gs h s)
  then have "pc_inv (h, s) (Scan b n c m (g # gs))" "multi_ok (h, s)"
    using assms(2) inv_pc inv_ok by blast+
  then have "pc_inv (h, s) (Scan b n c (if Sequence_Load g h < m then Sequence_Load g h else m) gs)"
    by (fastforce simp: multi_ok_def)
  with scan assms(2) show ?thesis by (simp add: inv_local)
next
  case (scanned pcs i b n c m h s)
  then have "pc_inv (h, s) (Scan b n c m [])" using assms(2) inv_pc by blast
  with scanned assms(2) show ?thesis by (auto intro!: inv_local simp: gates_above_def)
next
  case (full_try pcs i n c m s h)
  then have "pc_inv (h, s) (Decide False n c m)" using assms(2) inv_pc by blast
  then have "protocol_inv ((h, s\<lparr>gateCache := m\<rparr>), pcs)"
    using full_try assms(2) by (simp add: inv_cache)
  with full_try show ?thesis by (auto intro!: inv_local)
next
  case (full_wait pcs i n c m s h)
  then have "pc_inv (h, s) (Decide True n c m)" using assms(2) inv_pc by blast
  with full_wait assms(2) show ?thesis by (auto intro!: inv_local)
next
  case (full_fail pcs i n c m s h)
  with assms(2) show ?thesis by (auto intro!: inv_local)
next
  case (room pcs i b n c m s h)
  then have p: "pc_inv (h, s) (Decide b n c m)" "window_inv (h, s)"
    using assms(2) inv_pc by (blast, simp add: protocol_inv_def)
  then have "i64 (i64 (c + n) - bufferSize s) = c + n - bufferSize s" using claim_i64(3) by auto
  with room p have "pc_inv (h, s\<lparr>gateCache := m\<rparr>) (Swap b n c)"
    by (auto simp: gates_above_def intro: order_trans)
  moreover have "protocol_inv ((h, s\<lparr>gateCache := m\<rparr>), pcs)"
    using room assms(2) p by (simp add: inv_cache)
  ultimately show ?thesis using room by (auto intro!: inv_local)
next
  case (swap_lost pcs i b n c s h h')
  then have "pc_inv (h, s) (Swap b n c)" using assms(2) inv_pc by blast
  with swap_lost assms(2) show ?thesis
    by (auto intro!: inv_local simp: Sequence_compareAndSwap_def split: if_splits)
next
  case (swap_won pcs i b n c s h h')
  then have "pc_inv (h, s) (Swap b n c)" "window_inv (h, s)"
    using assms(2) inv_pc by (blast, simp add: protocol_inv_def)
  then have "i64 (c + 1) = c + 1" "i64 (c + n) = c + n" using claim_i64 by auto
  with swap_won assms(2) show ?thesis
    by (auto intro!: inv_swap simp: Sequence_compareAndSwap_def split: if_splits)
next
  case (prepare pcs i low high k h s)
  with assms(2) inv_prepare [of h s pcs i low high k] show ?thesis by (simp only:)
next
  case (resolve pcs i low high r h s)
  then have "pc_inv (h, s) (Claimed low high)" using assms(2) inv_pc by blast
  with resolve assms(2) show ?thesis by (auto intro!: inv_local)
next
  case (resolving pcs i r high k h s)
  with assms(2) inv_resolving [of h s pcs i r high k h] show ?thesis by simp
next
  case (resolved pcs i r high h s)
  with assms(2) inv_resolving [of h s pcs i r high high "WaitStrategy_signalAll (wait_with s) h"]
  show ?thesis by (simp add: heap_simps)
next
  case (consume g s h v pcs)
  with assms(2) show ?thesis by (auto intro: inv_consume)
next
  case (close h s pcs)
  obtain h' s' where c: "base_Close (h, s) = (h', s')" by fastforce
  have "s' = s\<lparr>gateCache := gateCache s, sealed := True, closeOnce := True\<rparr>"
    using Close_base [of h s] c by simp
  moreover have "Sequence_Load a h' = Sequence_Load a h" for a using Close_Load [of a h s] c by simp
  moreover have "-1 \<le> gateCache s" "gates_above (h, s) (gateCache s)"
    using close assms(2) by (simp_all add: protocol_inv_def window_inv_def)
  ultimately have "protocol_inv ((h', s'), pcs)"
    using close assms(2) inv_frame [of h s pcs h' s'] by blast
  with close c show ?thesis by simp
qed

lemma reachable_inv: "reachable cfg \<Longrightarrow> protocol_inv cfg"
  by (induction rule: reachable.induct) (auto intro: inv_initial inv_step)

section \<open>What holds in every reachable state\<close>

text \<open>A claim whose wrap point the cached gate covers takes six steps.\<close>

lemma claim_by_cache:
  assumes r: "reachable ((h, s), pcs)" and pc: "pcs i = Idle" and n: "1 \<le> n" "n \<le> bufferSize s"
    and open_: "\<not> sealed s" and c: "c = Sequence_Load (cursor s) h" "c + n < 2 ^ 62"
    and hit: "c + n - bufferSize s \<le> gateCache s" "gateCache s \<le> c"
  shows "reachable ((Sequence_store (cursor s) (c + n) h, s), pcs(i := Preparing (c + 1) (c + n) (c + 1)))"
proof -
  have ok: "multi_ok (h, s)" using reachable_inv [OF r] by (rule inv_ok)
  then have b: "-1 \<le> c" "0 < bufferSize s" "bufferSize s < 2 ^ 63"
    using c by (auto simp: multi_ok_def multi_shape_def ring_size_def)
  then have i64s: "i64 (c + n) = c + n" "i64 (c + 1) = c + 1"
    "i64 (i64 (c + n) - bufferSize s) = c + n - bufferSize s"
    using c n by (auto simp: i64_id)
  have r1: "reachable ((h, s), pcs(i := CheckSealed False n))"
    using r pc n by (auto intro: reachable.more step.call)
  have r2: "reachable ((h, s), pcs(i := LoadCursor False n))"
    using reachable.more [OF r1 step.admitted [of _ i False n]] open_ by simp
  have r3: "reachable ((h, s), pcs(i := LoadCache False n c))"
    using reachable.more [OF r2 step.load_cursor [of _ i False n]] c by simp
  have r4: "reachable ((h, s), pcs(i := Swap False n c))"
    using reachable.more [OF r3 step.cache_hit [of _ i False n c]] hit i64s by simp
  have "Sequence_compareAndSwap (cursor s) c (i64 (c + n)) h = (True, Sequence_store (cursor s) (c + n) h)"
    using c i64s by (simp add: Sequence_compareAndSwap_def)
  from reachable.more [OF r4 step.swap_won [of _ i False n c, OF _ c(2) this]] i64s show ?thesis by simp
qed

text \<open>
  A concrete ring of four slots, one gate, and two producers that hold one sequence each: the
  state after both compare-and-swaps.
\<close>

definition demo_heap :: heap where
  "demo_heap = Sequence_store 1 (-1) (Sequence_store 2 (-1) empty_heap)"

definition demo_ring :: multiProducerSequencer where
  "demo_ring = \<lparr>bufferSize = 4, cursor = 1, wait_with = YieldingWaitStrategy, producerWait = 0,
     gating = [2], closed_flag = 0, sealed = False, closedCh = 0, closeOnce = False, gateCache = -1,
     available = [-1, -1, -1, -1], indexMask = u64 (i64 3), indexShift = TrailingZeros64 4\<rparr>"

definition demo_state :: config where
  "demo_state = ((Sequence_store 1 1 demo_heap, demo_ring),
     (\<lambda>_. Idle)(0 := Preparing 0 0 0, 1 := Preparing 1 1 1))"

lemma demo_start: "reachable ((demo_heap, demo_ring), \<lambda>_. Idle)"
proof -
  have "ring_size 4" using ring_size_exp [of 2] by simp
  moreover have "replicate (nat 4) (-1 :: int64) = [-1, -1, -1, -1]" by (simp add: eval_nat_numeral)
  ultimately have "initial ((demo_heap, demo_ring), \<lambda>_. Idle)"
    by (simp add: initial_def demo_ring_def demo_heap_def multi_shape_def heap_simps)
  then show ?thesis by (rule reachable.start)
qed

lemma demo_claimed:
  "reachable ((Sequence_store 1 0 demo_heap, demo_ring), (\<lambda>_. Idle)(0 := Preparing 0 0 0))"
proof -
  note r = demo_start
  have c: "-1 = Sequence_Load (cursor demo_ring) demo_heap"
    by (simp add: demo_ring_def demo_heap_def heap_simps)
  have "reachable ((Sequence_store (cursor demo_ring) (-1 + 1) demo_heap, demo_ring),
      (\<lambda>_. Idle)(0 := Preparing (-1 + 1) (-1 + 1) (-1 + 1)))"
    by (rule claim_by_cache [OF r _ _ _ _ c]) (simp_all add: demo_ring_def)
  then show ?thesis by (simp add: demo_ring_def)
qed

lemma demo_reachable: "reachable demo_state"
proof -
  note demo_claimed
  from claim_by_cache [OF this, where i = 1 and n = 1 and c = 0] show ?thesis
    by (simp add: demo_ring_def demo_heap_def heap_simps demo_state_def)
qed

text \<open>
  C1. Mutual exclusion on slots: whatever the interleaving, two producers that hold unresolved claims
  at the same time never hold sequences of the same slot, so nobody writes an event another
  producer is still writing.
\<close>

theorem concurrent_slots_exclusive:
  assumes "reachable ((h, s), pcs)" "i \<noteq> j" "p \<in> owned (pcs i)" "q \<in> owned (pcs j)"
  shows "multi_index s p \<noteq> multi_index s q"
proof
  assume eq: "multi_index s p = multi_index s q"
  have inv: "protocol_inv ((h, s), pcs)" using assms(1) by (rule reachable_inv)
  then have shape: "multi_shape s" by (simp add: protocol_inv_def window_inv_def)
  have "p = q"
    using live_slots [OF owned_bounds [OF inv assms(3)] owned_bounds [OF inv assms(4)]] eq shape
    by (simp add: multi_index_slot)
  moreover have "owned (pcs i) \<inter> owned (pcs j) = {}"
    using inv assms(2) by (simp add: protocol_inv_def own_inv_def)
  ultimately show False using assms(3,4) by blast
qed

theorem concurrent_slots_exclusive_witness:
  "multi_index demo_ring 0 \<noteq> multi_index demo_ring 1"
  using concurrent_slots_exclusive [OF demo_reachable [unfolded demo_state_def], of 0 1 0 1] by simp

text \<open>
  C2. No overrun: in every reachable state the claim position is at most one ring ahead of every
  gate and no gate is ahead of it, so a claimed sequence never shares its slot with an older
  sequence that some gating consumer has not acknowledged.
\<close>

theorem concurrent_no_overrun:
  assumes "reachable ((h, s), pcs)" "g \<in> set (gating s)"
  shows "Sequence_Load (cursor s) h - bufferSize s \<le> Sequence_Load g h \<and>
    Sequence_Load g h \<le> Sequence_Load (cursor s) h \<and>
    (\<forall>p q i. q \<in> owned (pcs i) \<and> Sequence_Load g h < p \<and> p \<le> Sequence_Load (cursor s) h \<and>
       multi_index s p = multi_index s q \<longrightarrow> p = q)"
proof -
  have inv: "protocol_inv ((h, s), pcs)" using assms(1) by (rule reachable_inv)
  have ok: "multi_ok (h, s)" using inv by (rule inv_ok)
  then have shape: "multi_shape s" by (simp add: multi_ok_def)
  have b: "Sequence_Load (cursor s) h - bufferSize s \<le> Sequence_Load g h"
    "Sequence_Load g h \<le> Sequence_Load (cursor s) h" "-1 \<le> Sequence_Load g h"
    using ok assms(2) by (auto simp: multi_ok_def)
  have "p = q" if "q \<in> owned (pcs i)" "Sequence_Load g h < p" "p \<le> Sequence_Load (cursor s) h"
    "multi_index s p = multi_index s q" for p q i
  proof -
    have "multi_live p (h, s)" using that(2,3) b by (simp add: multi_live_def)
    with owned_bounds [OF inv that(1)] that(4) shape live_slots show ?thesis
      by (simp add: multi_index_slot)
  qed
  with b show ?thesis by blast
qed

theorem concurrent_no_overrun_witness:
  "Sequence_Load 1 (Sequence_store 1 1 demo_heap) - 4 \<le> Sequence_Load 2 (Sequence_store 1 1 demo_heap)"
  using concurrent_no_overrun [OF demo_reachable [unfolded demo_state_def], of 2]
  by (simp add: demo_ring_def)

text \<open>
  C3. No gap is crossed: the scan a consumer makes from its own position never reaches a sequence
  that some producer has claimed and not yet resolved, even one whose slot still holds the words
  of an earlier lap.
\<close>

theorem concurrent_no_gap:
  assumes "reachable ((h, s), pcs)" "q \<in> owned (pcs i)" "g \<in> set (gating s)"
  shows "multi_HighestPublished (Sequence_Load g h + 1) (Sequence_Load (cursor s) h) (h, s) < q \<and>
    \<not> multi_IsAvailable q (h, s)"
proof -
  have inv: "protocol_inv ((h, s), pcs)" using assms(1) by (rule reachable_inv)
  have "multi_status q (h, s) = Unresolved" using owned_unresolved [OF inv assms(2)] .
  then have "\<not> multi_IsAvailable q (h, s)" by (auto simp: multi_status_def status_of_def split: if_splits)
  with consume_stops [OF inv assms(2,3)] show ?thesis by simp
qed

theorem concurrent_no_gap_witness:
  "\<not> multi_IsAvailable 1 (Sequence_store 1 1 demo_heap, demo_ring)"
  using concurrent_no_gap [OF demo_reachable [unfolded demo_state_def], of 1 1 2]
  by (simp add: demo_ring_def)

text \<open>
  C4. Nothing is lost: once no producer is inside a claim, every claimed sequence is resolved and a
  consumer's scan reaches the claim position.
\<close>

theorem concurrent_all_visible:
  assumes "reachable ((h, s), pcs)" "\<forall>i. owned (pcs i) = {}" "g \<in> set (gating s)"
    and "Sequence_Load g h < Sequence_Load (cursor s) h"
  shows "multi_HighestPublished (Sequence_Load g h + 1) (Sequence_Load (cursor s) h) (h, s) =
    Sequence_Load (cursor s) h"
proof -
  have inv: "protocol_inv ((h, s), pcs)" using assms(1) by (rule reachable_inv)
  have ok: "multi_ok (h, s)" using inv by (rule inv_ok)
  let ?c = "Sequence_Load (cursor s) h" and ?l = "Sequence_Load g h + 1"
  have b: "0 \<le> ?l" "?l \<le> ?c" "?c < 2 ^ 63" "?c - bufferSize s < ?l"
    using ok assms(3,4) by (auto simp: multi_ok_def)
  have shape: "multi_shape s" using ok by (simp add: multi_ok_def)
  have "multi_status q (h, s) \<noteq> Unresolved" if "?l \<le> q" "q \<le> ?c" for q
  proof -
    have "multi_live q (h, s)" using that b by (simp add: multi_live_def)
    with inv assms(2) have "resolved_word s q" by (auto simp: protocol_inv_def word_inv_def)
    with shape show ?thesis by (auto simp: resolved_word_def)
  qed
  moreover have rd: "multi_readable ?l ?c (h, s)" using b by (simp add: multi_readable_def)
  ultimately have "?c \<le> multi_HighestPublished ?l ?c (h, s)"
    using multi_log.highest_iff [OF ok rd b(2) b(2)] by simp
  with multi_log.highest_prefix [OF ok rd b(2)] show ?thesis by simp
qed

lemma publish_one_by_steps:
  assumes "reachable ((h, s), pcs)" "pcs i = Preparing k k k"
  shows "reachable ((WaitStrategy_signalAll (wait_with (multi_prepare_one k s)) h,
    multi_resolve_one publicationPublished k (multi_prepare_one k s)), pcs(i := Idle))"
proof -
  have "reachable ((h, multi_prepare_one k s), pcs(i := Claimed k k))"
    using reachable.more [OF assms(1) step.prepare [of pcs i k k k]] assms(2) by simp
  from reachable.more [OF this step.resolve [of _ i k k publicationPublished]]
  have "reachable ((h, multi_prepare_one k s), pcs(i := Resolving publicationPublished k k))" by simp
  from reachable.more [OF this step.resolved [of _ i publicationPublished k]] show ?thesis by simp
qed

theorem concurrent_all_visible_witness:
  "multi_HighestPublished 0 0 (Sequence_store 1 0 demo_heap,
     multi_resolve_one publicationPublished 0 (multi_prepare_one 0 demo_ring)) = 0"
proof -
  let ?s = "multi_resolve_one publicationPublished 0 (multi_prepare_one 0 demo_ring)"
  have f: "wait_with (multi_prepare_one 0 demo_ring) = YieldingWaitStrategy" "cursor ?s = 1" "gating ?s = [2]"
    by (simp_all add: multi_prepare_one_def multi_resolve_one_def demo_ring_def Let_def)
  have "reachable ((Sequence_store 1 0 demo_heap, ?s), (\<lambda>_. Idle)(0 := Preparing 0 0 0, 0 := Idle))"
    using publish_one_by_steps [OF demo_claimed, of 0 0] f by simp
  from concurrent_all_visible [OF this, of 2] f show ?thesis by (simp add: heap_simps demo_heap_def)
qed

end
