(* ===== verification/Multi_Paths.thy ===== *)
theory Multi_Paths
  imports Multi_Protocol
begin

text \<open>
  The operations of the multi-producer sequencer are paths of the step relation: whatever other
  goroutines do at the points where the model lets them run, a call of \<open>TryNext\<close> takes its producer from
  \<open>Idle\<close> to the claim it returns, and \<open>Publish\<close> and \<open>Discard\<close> take it back, by atomic steps. The results
  about all interleavings therefore hold of the operations.
\<close>

section \<open>Loops as paths\<close>

lemma reachable_path: "step\<^sup>*\<^sup>* cfg cfg' \<Longrightarrow> reachable cfg \<Longrightarrow> reachable cfg'"
  by (induction rule: rtranclp_induct) (auto intro: reachable.more)

lemma path_step: "step cfg cfg1 \<Longrightarrow> step\<^sup>*\<^sup>* cfg1 cfg2 \<Longrightarrow> step\<^sup>*\<^sup>* cfg cfg2"
  by (rule converse_rtranclp_into_rtranclp)

lemma path_one: "step cfg cfg' \<Longrightarrow> step\<^sup>*\<^sup>* cfg cfg'"
  by (rule r_into_rtranclp)

lemma scan_path:
  "pcs i = Scan b n c m gs \<Longrightarrow> step\<^sup>*\<^sup>* ((h, s), pcs) ((h, s), pcs(i := Decide b n c (minimum_loop m gs h)))"
proof (induction gs arbitrary: pcs m)
  case Nil
  show ?case unfolding minimum_loop.simps by (rule path_one, rule step.scanned, rule Nil)
next
  case (Cons g gs)
  let ?m = "if Sequence_Load g h < m then Sequence_Load g h else m"
  have "step ((h, s), pcs) ((h, s), pcs(i := Scan b n c ?m gs))" using Cons.prems by (rule step.scan)
  from path_step [OF this Cons.IH [of "pcs(i := Scan b n c ?m gs)" ?m]] show ?case
    unfolding minimum_loop.simps Let_def fun_upd_upd fun_upd_same by blast
qed

lemma prepare_path:
  "pcs i = Preparing low high k \<Longrightarrow> k \<le> high \<Longrightarrow>
   step\<^sup>*\<^sup>* ((h, s), pcs) ((h, fold multi_prepare_one [k..high] s), pcs(i := Claimed low high))"
proof (induction "nat (high - k)" arbitrary: k s pcs)
  case 0
  then have k: "k = high" by simp
  show ?case using path_one [OF step.prepare [of pcs i low high k h s, OF 0(2)]] by (simp add: k fun_upd_def)
next
  case (Suc d)
  then have k: "k < high" "d = nat (high - (k + 1))" by simp_all
  have st: "step ((h, s), pcs) ((h, multi_prepare_one k s), pcs(i := Preparing low high (k + 1)))"
    using step.prepare [of pcs i low high k h s, OF Suc(3)] k(1) by simp
  have "[k..high] = k # [k + 1..high]" using k(1) by (simp add: upto_rec1)
  with path_step [OF st Suc(1) [OF k(2), of "pcs(i := Preparing low high (k + 1))"]] k(1) show ?case by simp
qed

lemma resolve_path:
  "pcs i = Resolving r high k \<Longrightarrow> k \<le> high \<Longrightarrow>
   step\<^sup>*\<^sup>* ((h, s), pcs) ((WaitStrategy_signalAll (wait_with s) h, fold (multi_resolve_one r) [k..high] s), pcs(i := Idle))"
proof (induction "nat (high - k)" arbitrary: k s pcs)
  case 0
  then have k: "k = high" by simp
  show ?case using path_one [OF step.resolved [of pcs i r high h s]] 0(2) by (simp add: k fun_upd_def)
next
  case (Suc d)
  then have k: "k < high" "d = nat (high - (k + 1))" by simp_all
  have st: "step ((h, s), pcs) ((h, multi_resolve_one r k s), pcs(i := Resolving r high (k + 1)))"
    using step.resolving [of pcs i r high k h s, OF Suc(3)] k(1) by simp
  have "[k..high] = k # [k + 1..high]" "wait_with (multi_resolve_one r k s) = wait_with s"
    using k(1) by (simp_all add: upto_rec1 multi_resolve_one_def Let_def)
  with path_step [OF st Suc(1) [OF k(2), of "pcs(i := Resolving r high (k + 1))" "multi_resolve_one r k s"]] k(1)
  show ?case by simp
qed

section \<open>Interference\<close>

text \<open>
  What other goroutines may do while a producer is inside a call: a path that leaves its program counter
  alone. \<open>P\<close> describes where the others are; every call is allowed to assume it.
\<close>

definition interferes :: "nat \<Rightarrow> (nat \<Rightarrow> pc) set \<Rightarrow> (multi_state \<Rightarrow> multi_state) \<Rightarrow> bool" where
  "interferes i P f \<longleftrightarrow>
     (\<forall>hs pcs. reachable (hs, pcs) \<and> pcs \<in> P \<longrightarrow>
        (\<exists>pcs' \<in> P. pcs' i = pcs i \<and> step\<^sup>*\<^sup>* (hs, pcs) (f hs, pcs')))"

definition turn_interferes :: "nat \<Rightarrow> (nat \<Rightarrow> pc) set \<Rightarrow> multi_state turn \<Rightarrow> bool" where
  "turn_interferes i P t \<longleftrightarrow> interferes i P (t_pre t) \<and> interferes i P (t_mid t) \<and> interferes i P (t_park t)"

definition others_only :: "nat \<Rightarrow> (nat \<Rightarrow> pc) set \<Rightarrow> bool" where
  "others_only i P \<longleftrightarrow> (\<forall>pcs \<in> P. \<forall>p. pcs(i := p) \<in> P)"

text \<open>A path of the whole system that ends with producer \<open>i\<close> at \<open>p\<close>.\<close>

definition leads :: "nat \<Rightarrow> (nat \<Rightarrow> pc) set \<Rightarrow> config \<Rightarrow> multi_state \<Rightarrow> pc \<Rightarrow> bool" where
  "leads i P cfg hs p \<longleftrightarrow> (\<exists>pcs' \<in> P. pcs' i = p \<and> step\<^sup>*\<^sup>* cfg (hs, pcs'))"

lemma leads_refl: "pcs \<in> P \<Longrightarrow> leads i P (hs, pcs) hs (pcs i)"
  by (auto simp: leads_def)

lemma leads_trans:
  assumes "leads i P cfg hs p" "reachable cfg"
    and "\<And>pcs. pcs \<in> P \<Longrightarrow> pcs i = p \<Longrightarrow> reachable (hs, pcs) \<Longrightarrow> leads i P (hs, pcs) hs' p'"
  shows "leads i P cfg hs' p'"
  using assms reachable_path unfolding leads_def by (meson rtranclp_trans)

lemma leads_interference:
  assumes "interferes i P f" "leads i P cfg hs p" "reachable cfg"
  shows "leads i P cfg (f hs) p"
proof (rule leads_trans [OF assms(2,3)])
  fix pcs
  assume "pcs \<in> P" "pcs i = p" "reachable (hs, pcs)"
  with assms(1) show "leads i P (hs, pcs) (f hs) p" unfolding interferes_def leads_def by metis
qed

lemma leads_own:
  assumes "others_only i P" "leads i P cfg (h, s) p" "reachable cfg"
    and "\<And>pcs. pcs \<in> P \<Longrightarrow> pcs i = p \<Longrightarrow> reachable ((h, s), pcs) \<Longrightarrow> step\<^sup>*\<^sup>* ((h, s), pcs) ((h', s'), pcs(i := p'))"
  shows "leads i P cfg (h', s') p'"
proof (rule leads_trans [OF assms(2,3)])
  fix pcs
  assume p: "pcs \<in> P" "pcs i = p" "reachable ((h, s), pcs)"
  have "pcs(i := p') \<in> P" using assms(1) p(1) by (simp add: others_only_def)
  with assms(4) [OF p] show "leads i P ((h, s), pcs) (h', s') p'"
    unfolding leads_def by (intro bexI [of _ "pcs(i := p')"]) simp_all
qed

section \<open>Claims\<close>

lemma admitted_path:
  assumes "pcs i = CheckSealed b n" "\<not> sealed s"
  shows "step\<^sup>*\<^sup>* ((h, s), pcs) ((h, s), pcs(i := LoadCache b n (Sequence_Load (cursor s) h)))"
proof -
  have "step ((h, s), pcs) ((h, s), pcs(i := LoadCursor b n))" using assms by (rule step.admitted)
  moreover have "step ((h, s), pcs(i := LoadCursor b n)) ((h, s), pcs(i := LoadCache b n (Sequence_Load (cursor s) h)))"
    using step.load_cursor [of "pcs(i := LoadCursor b n)" i b n h s] by simp
  ultimately show ?thesis by (meson path_step path_one)
qed

lemma gates_path:
  assumes r: "reachable ((h, s), pcs)" and pc: "pcs i = LoadGates b n c"
  shows "step\<^sup>*\<^sup>* ((h, s), pcs) ((h, s), pcs(i := Decide b n c (base_minimumGate c h s)))"
proof -
  have "gating s \<noteq> []" using reachable_inv [OF r] by (simp add: protocol_inv_def window_inv_def)
  then obtain g gs where g: "gating s = g # gs" by (cases "gating s") auto
  have "step ((h, s), pcs) ((h, s), pcs(i := Scan b n c (Sequence_Load g h) gs))"
    using pc g by (rule step.load_gates)
  from path_step [OF this scan_path [of "pcs(i := Scan b n c (Sequence_Load g h) gs)" i b n c "Sequence_Load g h" gs]]
  show ?thesis using g by (simp add: base_minimumGate_def)
qed

text \<open>The compare-and-swap of an iteration, with the preparation of the slots when it succeeds.\<close>

lemma swap_path:
  assumes P: "others_only i P" and env: "interferes i P (t_park t)" and r: "reachable cfg"
    and at: "leads i P cfg hs (Swap False n c)" and n: "1 \<le> n"
    and res: "multi_cas t c (i64 (c + n)) hs = (won, hs')" and lim: "won \<Longrightarrow> c + n < 2 ^ 62"
  shows "leads i P cfg hs' (if won then Claimed (i64 (c + 1)) (i64 (c + n)) else CheckSealed False n)"
proof -
  obtain h s where hs: "t_park t hs = (h, s)" by fastforce
  have at1: "leads i P cfg (h, s) (Swap False n c)" using leads_interference [OF env at r] hs by simp
  show ?thesis
  proof (cases "Sequence_compareAndSwap (cursor s) c (i64 (c + n)) h")
    case (Pair ok h1)
    show ?thesis
    proof (cases ok)
      case False
      with res hs Pair have w: "\<not> won" "hs' = (h1, s)" by (auto simp: multi_cas_def)
      have "leads i P cfg (h1, s) (CheckSealed False n)"
      proof (rule leads_own [OF P at1 r])
        fix pcs assume "pcs i = Swap False n c"
        from path_one [OF step.swap_lost [of pcs i False n c, OF this]] Pair False
        show "step\<^sup>*\<^sup>* ((h, s), pcs) ((h1, s), pcs(i := CheckSealed False n))" by simp
      qed
      with w show ?thesis by simp
    next
      case True
      let ?l = "i64 (c + 1)" and ?u = "i64 (c + n)"
      have w: won "hs' = (h1, multi_prepare ?l ?u s)" using res hs Pair True by (auto simp: multi_cas_def)
      have "leads i P cfg (h1, multi_prepare ?l ?u s) (Claimed ?l ?u)"
      proof (rule leads_own [OF P at1 r])
        fix pcs assume pc: "pcs i = Swap False n c" and rr: "reachable ((h, s), pcs)"
        let ?pcs = "pcs(i := Preparing ?l ?u ?l)"
        have st: "step ((h, s), pcs) ((h1, s), ?pcs)"
          using step.swap_won [of pcs i False n c, OF pc lim [OF w(1)]] Pair True by simp
        from reachable.more [OF rr this] have "pc_inv (h1, s) (Preparing ?l ?u ?l)"
          using inv_pc [OF reachable_inv, of h1 s ?pcs i] by simp
        then have le: "?l \<le> ?u" by simp
        from path_step [OF st prepare_path [of ?pcs i ?l ?u ?l h1 s]] le
        show "step\<^sup>*\<^sup>* ((h, s), pcs) ((h1, multi_prepare ?l ?u s), pcs(i := Claimed ?l ?u))"
          by (simp add: multi_prepare_def)
      qed
      with w show ?thesis by simp
    qed
  qed
qed

text \<open>No step changes the size of the ring.\<close>

lemma step_bufferSize: "step cfg cfg' \<Longrightarrow> bufferSize (snd (fst cfg')) = bufferSize (snd (fst cfg))"
  by (induction rule: step.induct)
    (simp_all add: multi_prepare_one_def multi_resolve_one_def Let_def Close_base)

lemma leads_bufferSize:
  assumes "leads i P cfg hs p" shows "bufferSize (snd hs) = bufferSize (snd (fst cfg))"
proof -
  have "bufferSize (snd (fst cfg')) = bufferSize (snd (fst cfg))" if "step\<^sup>*\<^sup>* cfg cfg'" for cfg'
    using that by (induction rule: rtranclp_induct) (simp_all add: step_bufferSize)
  with assms show ?thesis unfolding leads_def by fastforce
qed

lemma leads_pc_inv:
  assumes "leads i P cfg (h, s) p" "reachable cfg" shows "pc_inv (h, s) p \<and> window_inv (h, s)"
proof -
  from assms(1) obtain pcs where "pcs i = p" "step\<^sup>*\<^sup>* cfg ((h, s), pcs)" by (auto simp: leads_def)
  with reachable_inv [OF reachable_path [OF _ assms(2)]] show ?thesis
    using inv_pc by (fastforce simp: protocol_inv_def)
qed

text \<open>One iteration up to the compare-and-swap: refused for lack of room, or about to swap.\<close>

lemma try_iteration:
  assumes P: "others_only i P" and env: "interferes i P (t_mid t)" and r: "reachable cfg"
    and at: "leads i P cfg (h, s) (CheckSealed False n)" and open_: "\<not> sealed s"
    and c: "c = Sequence_Load (cursor s) h" and mid: "t_mid t (h, s) = (h1, s1)"
    and w: "wrap = i64 (i64 (c + n) - bufferSize s)" and m: "minimum = base_minimumGate c h1 s1"
  shows "\<not> (wrap > gateCache s \<or> gateCache s > c) \<Longrightarrow> leads i P cfg (h1, s1) (Swap False n c)"
    "wrap > gateCache s \<or> gateCache s > c \<Longrightarrow> wrap > minimum \<Longrightarrow> leads i P cfg (h1, s1\<lparr>gateCache := minimum\<rparr>) Idle"
    "wrap > gateCache s \<or> gateCache s > c \<Longrightarrow> \<not> wrap > minimum \<Longrightarrow>
       leads i P cfg (h1, s1\<lparr>gateCache := minimum\<rparr>) (Swap False n c)"
proof -
  have lc: "leads i P cfg (h, s) (LoadCache False n c)"
    by (rule leads_own [OF P at r]) (use admitted_path open_ c in auto)
  show "leads i P cfg (h1, s1) (Swap False n c)" if "\<not> (wrap > gateCache s \<or> gateCache s > c)"
  proof -
    have "leads i P cfg (h, s) (Swap False n c)"
      by (rule leads_own [OF P lc r], rule path_one, rule step.cache_hit) (use that w in auto)
    from leads_interference [OF env this r] mid show ?thesis by simp
  qed
  have dec: "leads i P cfg (h1, s1) (Decide False n c minimum)" if "wrap > gateCache s \<or> gateCache s > c"
  proof -
    have "leads i P cfg (h, s) (LoadGates False n c)"
      by (rule leads_own [OF P lc r], rule path_one, rule step.cache_miss) (use that w in auto)
    from leads_interference [OF env this r] mid have lg: "leads i P cfg (h1, s1) (LoadGates False n c)" by simp
    show ?thesis unfolding m by (rule leads_own [OF P lg r]) (rule gates_path)
  qed
  have size: "bufferSize s1 = bufferSize s" if "wrap > gateCache s \<or> gateCache s > c"
    using leads_bufferSize [OF dec [OF that]] leads_bufferSize [OF at] by simp
  show "leads i P cfg (h1, s1\<lparr>gateCache := minimum\<rparr>) Idle"
    if miss: "wrap > gateCache s \<or> gateCache s > c" and "wrap > minimum"
    by (rule leads_own [OF P dec [OF miss] r], rule path_one, rule step.full_try) (use that size [OF miss] w in auto)
  show "leads i P cfg (h1, s1\<lparr>gateCache := minimum\<rparr>) (Swap False n c)"
    if miss: "wrap > gateCache s \<or> gateCache s > c" and "\<not> wrap > minimum"
    by (rule leads_own [OF P dec [OF miss] r], rule path_one, rule step.room) (use that size [OF miss] w in auto)
qed

fun claim_pc :: "int64 \<Rightarrow> error + int64 \<Rightarrow> pc" where
  "claim_pc n (Inl err) = Idle"
| "claim_pc n (Inr next) = Claimed (next - n + 1) next"

lemma TryNext_loop_path:
  assumes P: "others_only i P" and r: "reachable cfg"
  shows "leads i P cfg hs (CheckSealed False n) \<Longrightarrow> \<forall>t \<in> set ts. turn_interferes i P t \<Longrightarrow>
    multi_TryNext_loop ts n hs = Some (res, ts', hs') \<Longrightarrow> (\<And>next. res = Inr next \<Longrightarrow> next < 2 ^ 62) \<Longrightarrow>
    leads i P cfg hs' (claim_pc n res)"
proof (induction ts arbitrary: hs)
  case (Cons t ts)
  have env: "interferes i P (t_pre t)" "interferes i P (t_mid t)" "interferes i P (t_park t)"
    using Cons.prems(2) by (simp_all add: turn_interferes_def)
  obtain h s where hs: "t_pre t hs = (h, s)" by fastforce
  have at: "leads i P cfg (h, s) (CheckSealed False n)"
    using leads_interference [OF env(1) Cons.prems(1) r] hs by simp
  show ?case
  proof (cases "sealed s")
    case True
    have "leads i P cfg (h, s) Idle"
      by (rule leads_own [OF P at r], rule path_one, rule step.rejected) (use True in auto)
    with Cons.prems(3) True hs show ?thesis by auto
  next
    case open_: False
    define c where "c = Sequence_Load (cursor s) h"
    define wrap where "wrap = i64 (i64 (c + n) - bufferSize s)"
    obtain h1 s1 where mid: "t_mid t (h, s) = (h1, s1)" by fastforce
    define m where "m = base_minimumGate c h1 s1"
    note it = try_iteration [OF P env(2) r at open_ c_def mid wrap_def m_def]
    have n: "1 \<le> n" "n \<le> bufferSize s" "window_inv (h, s)" using leads_pc_inv [OF at r] by simp_all
    then have cb: "-1 \<le> c" "c < 2 ^ 62" by (simp_all add: c_def window_inv_def)
    note i64s = claim_i64 [OF n(3,1,2) cb]
    have swap: "leads i P cfg hs' (claim_pc n res)"
      if sw: "leads i P cfg hs2 (Swap False n c)" and cas: "multi_cas t c (i64 (c + n)) hs2 = (won, hs3)"
        and rest: "(if won then Some (Inr (i64 (c + n)), ts, hs3) else multi_TryNext_loop ts n hs3) = Some (res, ts', hs')"
      for hs2 won hs3
    proof (cases won)
      case True
      with rest have "res = Inr (c + n)" "hs3 = hs'" using i64s by auto
      with swap_path [OF P env(3) r sw n(1) cas] Cons.prems(4) True i64s show ?thesis by simp
    next
      case False
      with swap_path [OF P env(3) r sw n(1) cas] have "leads i P cfg hs3 (CheckSealed False n)" by simp
      from Cons.IH [OF this _ _ Cons.prems(4)] Cons.prems(2) rest False show ?thesis by simp
    qed
    show ?thesis
    proof (cases "wrap > gateCache s \<or> gateCache s > c")
      case False
      obtain won h3 s3 where cas: "multi_cas t c (i64 (c + n)) (h1, s1) = (won, h3, s3)" by (metis surj_pair)
      show ?thesis
        by (rule swap [OF it(1) [OF False] cas])
          (use Cons.prems(3) hs open_ mid cas False in \<open>simp add: c_def wrap_def Let_def split: bool.splits\<close>)
    next
      case miss: True
      show ?thesis
      proof (cases "wrap > m")
        case True
        then have "res = Inl ErrInsufficientCapacity" "hs' = (h1, s1\<lparr>gateCache := m\<rparr>)"
          using Cons.prems(3) hs open_ mid miss by (simp_all add: c_def wrap_def m_def Let_def)
        with it(2) [OF miss True] show ?thesis by simp
      next
        case False
        obtain won h3 s3 where cas: "multi_cas t c (i64 (c + n)) (h1, s1\<lparr>gateCache := m\<rparr>) = (won, h3, s3)"
          by (metis surj_pair)
        show ?thesis
          by (rule swap [OF it(3) [OF miss False] cas])
            (use Cons.prems(3) hs open_ mid cas miss False in \<open>simp add: c_def wrap_def m_def Let_def split: bool.splits\<close>)
      qed
    qed
  qed
qed simp

section \<open>Properties\<close>

text \<open>
  C5. \<open>TryNext\<close> is a path of the concurrent protocol: however other goroutines interfere between its
  reads, its compare-and-swap and its retries, the call leads from an idle producer by atomic steps to a
  producer that owns exactly the sequences the call returns, or to an idle producer when it fails.
\<close>

theorem TryNext_follows_protocol:
  assumes "reachable (hs, pcs)" "pcs i = Idle" "pcs \<in> P" "others_only i P"
    and "\<forall>t \<in> set ts. turn_interferes i P t" "multi_TryNext ts n hs = Some (res, ts', hs')"
    and "case res of Inr next \<Rightarrow> next < 2 ^ 62 | Inl err \<Rightarrow> True"
  shows "\<exists>pcs' \<in> P. step\<^sup>*\<^sup>* (hs, pcs) (hs', pcs') \<and>
    pcs' i = (case res of Inr next \<Rightarrow> Claimed (next - n + 1) next | Inl err \<Rightarrow> Idle)"
proof -
  have end_pc: "claim_pc n res = (case res of Inr next \<Rightarrow> Claimed (next - n + 1) next | Inl err \<Rightarrow> Idle)"
    by (cases res) simp_all
  have "leads i P (hs, pcs) hs' (claim_pc n res)"
  proof (cases "n < 1 \<or> n > bufferSize (snd hs)")
    case True
    with assms(6) leads_refl [OF assms(3), of i hs] assms(2) show ?thesis by (auto simp: multi_TryNext_def)
  next
    case False
    obtain h s where hs: "hs = (h, s)" by (cases hs)
    have "leads i P (hs, pcs) (h, s) (CheckSealed False n)"
    proof (rule leads_own [OF assms(4) _ assms(1)])
      show "leads i P (hs, pcs) (h, s) Idle" using leads_refl [OF assms(3), of i hs] assms(2) hs by simp
      show "step\<^sup>*\<^sup>* ((h, s), pcs') ((h, s), pcs'(i := CheckSealed False n))" if "pcs' i = Idle" for pcs'
        using path_one [OF step.call [of pcs' i n s h False, OF that]] False hs by simp
    qed
    moreover have "next < 2 ^ 62" if "res = Inr next" for "next" using assms(7) that by simp
    moreover have "multi_TryNext_loop ts n (h, s) = Some (res, ts', hs')"
      using assms(6) False hs by (auto simp: multi_TryNext_def)
    ultimately show ?thesis using TryNext_loop_path [OF assms(4,1) _ assms(5)] by blast
  qed
  then show ?thesis unfolding leads_def end_pc by blast
qed

text \<open>Somebody closes the ring between the sealed check and the compare-and-swap of a claim.\<close>

lemma close_interferes: "interferes i UNIV base_Close"
  unfolding interferes_def
proof (intro allI impI)
  fix hs pcs
  show "\<exists>pcs' \<in> UNIV. pcs' i = pcs i \<and> step\<^sup>*\<^sup>* (hs, pcs) (base_Close hs, pcs')"
    using path_one [OF step.close [of "fst hs" "snd hs" pcs]] by auto
qed

lemma id_interferes: "interferes i P id"
  by (auto simp: interferes_def)

definition closing_turn :: "multi_state turn" where
  "closing_turn = quiet\<lparr>t_mid := base_Close\<rparr>"

theorem TryNext_follows_protocol_witness:
  "\<exists>hs' pcs'. multi_TryNext [closing_turn] 2 (demo_heap, demo_ring) = Some (Inr 1, [], hs') \<and>
     step\<^sup>*\<^sup>* ((demo_heap, demo_ring), \<lambda>_. Idle) (hs', pcs') \<and> pcs' 0 = Claimed 0 1 \<and> sealed (snd hs')"
proof -
  have "map_option (\<lambda>(res, ts, hs'). (res, length ts, sealed (snd hs'))) (multi_TryNext [closing_turn] 2 (demo_heap, demo_ring)) =
      Some (Inr 1, 0, True)" by code_simp
  then obtain hs' where run: "multi_TryNext [closing_turn] 2 (demo_heap, demo_ring) = Some (Inr 1, [], hs')"
    and sl: "sealed (snd hs')" by auto
  have env: "\<forall>t \<in> set [closing_turn]. turn_interferes 0 UNIV t"
    using close_interferes id_interferes by (simp add: turn_interferes_def closing_turn_def quiet_def)
  have "others_only 0 UNIV" by (simp add: others_only_def)
  from TryNext_follows_protocol [OF demo_start refl UNIV_I this env run] run sl show ?thesis by auto
qed

text \<open>
  \<open>Publish\<close> and \<open>Discard\<close> of a whole claim are paths of the protocol too, from the producer that owns
  the claim to an idle one.
\<close>

theorem resolution_follows_protocol:
  assumes "reachable (hs, pcs)" "pcs i = Claimed low high"
  shows "step\<^sup>*\<^sup>* (hs, pcs) (multi_Publish low high hs, pcs(i := Idle)) \<and>
    step\<^sup>*\<^sup>* (hs, pcs) (multi_Discard low high hs, pcs(i := Idle))"
proof -
  obtain h s where hs: "hs = (h, s)" by (cases hs)
  have le: "low \<le> high" using inv_pc [OF reachable_inv [OF assms(1) [unfolded hs]] assms(2)] by simp
  have shape: "multi_shape s" using reachable_inv [OF assms(1)] by (simp add: hs protocol_inv_def window_inv_def)
  have "step\<^sup>*\<^sup>* ((h, s), pcs) ((WaitStrategy_signalAll (wait_with s) h, multi_resolve low high r s), pcs(i := Idle))"
    if "r = publicationPublished \<or> r = publicationDiscarded" for r
  proof -
    have "step ((h, s), pcs) ((h, s), pcs(i := Resolving r high low))" using assms(2) that by (rule step.resolve)
    from path_step [OF this resolve_path [of "pcs(i := Resolving r high low)" i r high low h s]] le
    show ?thesis by (simp add: multi_resolve_def)
  qed
  moreover have "wait_with (multi_resolve low high r s) = wait_with s" for r
    using multi_resolve_fields [OF shape] by simp
  ultimately show ?thesis by (simp add: hs multi_Publish_def multi_Discard_def Let_def)
qed

theorem resolution_follows_protocol_witness:
  "step\<^sup>*\<^sup>* ((Sequence_store 1 0 demo_heap, multi_prepare_one 0 demo_ring), (\<lambda>_. Idle)(0 := Claimed 0 0))
     (multi_Publish 0 0 (Sequence_store 1 0 demo_heap, multi_prepare_one 0 demo_ring), \<lambda>_. Idle)"
proof -
  let ?hs = "(Sequence_store 1 0 demo_heap, multi_prepare_one 0 demo_ring)"
  have "reachable (?hs, ((\<lambda>_. Idle)(0 := Preparing 0 0 0))(0 := Claimed 0 0))"
    using reachable.more [OF demo_claimed step.prepare [of _ 0 0 0 0]] by simp
  then have "reachable (?hs, (\<lambda>_. Idle)(0 := Claimed 0 0))" by simp
  from resolution_follows_protocol [OF this, of 0 0 0]
  have "step\<^sup>*\<^sup>* (?hs, (\<lambda>_. Idle)(0 := Claimed 0 0)) (multi_Publish 0 0 ?hs, ((\<lambda>_. Idle)(0 := Claimed 0 0))(0 := Idle))" by simp
  moreover have "((\<lambda>_ :: nat. Idle)(0 := Claimed 0 0))(0 := Idle) = (\<lambda>_. Idle)" by auto
  ultimately show ?thesis by (simp only:)
qed

end
