(* ===== verification/Ring_Typing.thy ===== *)
theory Ring_Typing
  imports Ring_Buffer
begin

text \<open>
  What holds of a ring whatever its callers do. The model writes an \<open>int64\<close> as an \<open>int\<close>, so a typing
  predicate says that every number the ring keeps is one, and that every table has the length its mask
  is made for; then no index is out of range and \<open>Get\<close>, \<open>Publish\<close>, \<open>Discard\<close> and the readers never panic, for
  sequences that were never claimed as well. The locale \<open>typed_sequencer\<close> is what a method table has to
  keep for this; both sequencers are interpretations.
\<close>

unbundle bit_operations_syntax

section \<open>Turns that keep a predicate\<close>

definition keeps :: "('s \<Rightarrow> bool) \<Rightarrow> 's turn list \<Rightarrow> bool" where
  "keeps P ts \<longleftrightarrow> (\<forall>t \<in> set ts. \<forall>x. P x \<longrightarrow> P (t_pre t x) \<and> P (t_mid t x) \<and> P (t_park t x))"

lemma keeps_Nil [simp]: "keeps P []"
  by (simp add: keeps_def)

lemma keepsD:
  assumes "keeps P (t # ts)"
  shows "keeps P ts" "P x \<Longrightarrow> P (t_pre t x)" "P x \<Longrightarrow> P (t_mid t x)" "P x \<Longrightarrow> P (t_park t x)"
  using assms by (auto simp: keeps_def)

definition heap_typed :: "heap \<Rightarrow> bool" where
  "heap_typed h \<longleftrightarrow> (\<forall>s. in_i64 (Sequence_Load s h))"

definition typed_claim :: "error + int64 \<Rightarrow> bool" where
  "typed_claim res \<longleftrightarrow> (case res of Inl err \<Rightarrow> True | Inr v \<Rightarrow> in_i64 v)"

lemma typed_claim_simps [simp]: "typed_claim (Inl err)" "typed_claim (Inr v) \<longleftrightarrow> in_i64 v"
  by (simp_all add: typed_claim_def)

text \<open>A predicate that reads the store only through its sequences, and finds only \<open>int64\<close>s there.\<close>

definition reads_sequences :: "(heap \<times> 'b \<Rightarrow> bool) \<Rightarrow> bool" where
  "reads_sequences P \<longleftrightarrow>
     (\<forall>h h' b. P (h, b) \<longrightarrow> heap_typed h \<and> ((\<forall>s. Sequence_Load s h' = Sequence_Load s h) \<longrightarrow> P (h', b)))"

lemma reads_sequencesD:
  assumes "reads_sequences P" "P (h, b)"
  shows "heap_typed h" "(\<And>s. Sequence_Load s h' = Sequence_Load s h) \<Longrightarrow> P (h', b)"
  using assms unfolding reads_sequences_def by blast+

lemma wait_keeps:
  assumes P: "reads_sequences P" "P (h, b)" "\<And>x. P x \<Longrightarrow> P (t_park t x)"
    and w: "producerWaiter_wait w t prepared ch (h, b) = Some (r, h', b')"
  shows "P (h', b')"
proof -
  have c: "P (producerWaiter_count v i j g, d)" if "P (g, d)" for v i j g d
    using reads_sequencesD(2) [OF P(1) that] by (simp add: heap_simps)
  have a: "P (t_park t (producerWaiter_count w 1 1 h, b))" "P (t_park t (h, b))"
    using P(2,3) c by blast+
  show ?thesis
    using w P(2) a by (auto simp: producerWaiter_wait_def Let_def c split: if_splits prod.splits option.splits)
qed

lemma minimumGate_typed: "heap_typed h \<Longrightarrow> in_i64 fb \<Longrightarrow> in_i64 (base_minimumGate fb h b)"
  using minimumSequence_mem [of "gating b" fb h]
  by (cases "gating b = []") (auto simp: base_minimumGate_def heap_typed_def)

lemma waitForCapacity_keeps:
  assumes P: "reads_sequences P" and fb: "in_i64 fb"
  shows "P hb \<Longrightarrow> keeps P ts \<Longrightarrow> base_waitForCapacity ts wp fb hb = Some (res, ts', hb') \<Longrightarrow>
    P hb' \<and> typed_claim res"
proof (induction ts arbitrary: hb)
  case (Cons t ts)
  obtain h b where pre: "t_pre t hb = (h, b)" by fastforce
  obtain h1 b1 where mid: "t_mid t (h, b) = (h1, b1)" by fastforce
  note k = keepsD [OF Cons.prems(2)]
  have "P (h, b)" using k(2) [OF Cons.prems(1)] pre by simp
  from k(3) [OF this] mid have p1: "P (h1, b1)" by simp
  have m: "in_i64 (base_minimumGate fb h1 b1)" using minimumGate_typed [OF reads_sequencesD(1) [OF P p1] fb] .
  have w: "P (h', b')" if "producerWaiter_wait (producerWait b1) t p c (h1, b1) = Some (r, h', b')" for p c r h' b'
    using wait_keeps [OF P p1 k(4) that] .
  show ?case
    using Cons.prems(3) \<open>P (h, b)\<close> p1 m Cons.IH [OF _ k(1)]
    by (auto simp: pre mid Let_def split: if_splits option.splits dest!: w)
qed simp

lemma drain_keeps:
  "P hb \<Longrightarrow> keeps P ts \<Longrightarrow> drain_loop ts gates boundary hb = Some (res, ts', hb') \<Longrightarrow> P hb'"
proof (induction ts arbitrary: hb)
  case (Cons t ts)
  obtain h b where pre: "t_pre t hb = (h, b)" by fastforce
  obtain h1 b1 where mid: "t_mid t (h, b) = (h1, b1)" by fastforce
  note k = keepsD [OF Cons.prems(2)]
  have p: "P (h, b)" using k(2) [OF Cons.prems(1)] pre by simp
  from k(3) [OF this] mid have p1: "P (h1, b1)" by simp
  from k(4) [OF this] show ?case
    using Cons.prems(3) p p1 Cons.IH [OF _ k(1)] by (auto simp: pre mid Let_def split: if_splits option.splits prod.splits)
qed simp

section \<open>Calls\<close>

text \<open>The operations of a ring that change it, with their arguments, and running a list of them.\<close>

datatype ('t, 'b, 's) ring_call =
    CallNextN "'b turns" int64
  | CallTryNextN "'b turns" int64
  | CallPublishSequence int64
  | CallPublishRange int64 int64
  | CallDiscardSequence int64
  | CallDiscardRange int64 int64
  | CallPublish "'b turns" "('t, 's) EventTranslator option"
  | CallTryPublish "'b turns" "('t, 's) EventTranslator option"
  | CallPublishN "'b turns" int64 "('t, 's) EventTranslator option"
  | CallTryPublishN "'b turns" int64 "('t, 's) EventTranslator option"
  | CallNewBarrier "addr list"
  | CallAddGatingSequences "addr option list"
  | CallRemoveGatingSequence addr
  | CallClose
  | CallShutdown "'b turns"

fun ring_step :: "('t, 'b, 's) ring_call \<Rightarrow> ('t, 'b) ring_state \<times> 's \<Rightarrow> (('t, 'b) ring_state \<times> 's) option" where
  "ring_step (CallNextN ts n) (hr, app) = map_option (\<lambda>(_, _, hr'). (hr', app)) (NextN ts n hr)"
| "ring_step (CallTryNextN ts n) (hr, app) = map_option (\<lambda>(_, _, hr'). (hr', app)) (TryNextN ts n hr)"
| "ring_step (CallPublishSequence q) (hr, app) = Some (PublishSequence q hr, app)"
| "ring_step (CallPublishRange low high) (hr, app) = Some (PublishRange low high hr, app)"
| "ring_step (CallDiscardSequence q) (hr, app) = Some (DiscardSequence q hr, app)"
| "ring_step (CallDiscardRange low high) (hr, app) = Some (DiscardRange low high hr, app)"
| "ring_step (CallPublish ts tr) (hr, app) = map_option (\<lambda>(_, _, w). w) (Publish ts tr hr app)"
| "ring_step (CallTryPublish ts tr) (hr, app) = map_option (\<lambda>(_, _, w). w) (TryPublish ts tr hr app)"
| "ring_step (CallPublishN ts n tr) (hr, app) = map_option (\<lambda>(_, _, w). w) (PublishN ts n tr hr app)"
| "ring_step (CallTryPublishN ts n tr) (hr, app) = map_option (\<lambda>(_, _, w). w) (TryPublishN ts n tr hr app)"
| "ring_step (CallNewBarrier deps) (hr, app) = Some (snd (RingBuffer_NewBarrier deps hr), app)"
| "ring_step (CallAddGatingSequences ss) (hr, app) = Some (RingBuffer_AddGatingSequences ss hr, app)"
| "ring_step (CallRemoveGatingSequence s) (hr, app) = Some (snd (RingBuffer_RemoveGatingSequence s hr), app)"
| "ring_step CallClose (hr, app) = Some (RingBuffer_Close hr, app)"
| "ring_step (CallShutdown ts) (hr, app) = map_option (\<lambda>(_, _, hr'). (hr', app)) (RingBuffer_Shutdown ts hr)"

fun ring_run ::
  "('t, 'b, 's) ring_call list \<Rightarrow> ('t, 'b) ring_state \<times> 's \<Rightarrow> (('t, 'b) ring_state \<times> 's) option"
where
  "ring_run [] w = Some w"
| "ring_run (c # cs) w = Option.bind (ring_step c w) (ring_run cs)"

text \<open>A call is typed when its numbers are \<open>int64\<close>s and what others do meanwhile keeps the typing.\<close>

fun typed_call :: "(heap \<times> 'b \<Rightarrow> bool) \<Rightarrow> ('t, 'b, 's) ring_call \<Rightarrow> bool" where
  "typed_call P (CallNextN ts n) \<longleftrightarrow> keeps P ts \<and> in_i64 n"
| "typed_call P (CallTryNextN ts n) \<longleftrightarrow> keeps P ts \<and> in_i64 n"
| "typed_call P (CallPublishSequence q) \<longleftrightarrow> in_i64 q"
| "typed_call P (CallPublishRange low high) \<longleftrightarrow> in_i64 low \<and> in_i64 high"
| "typed_call P (CallDiscardSequence q) \<longleftrightarrow> in_i64 q"
| "typed_call P (CallDiscardRange low high) \<longleftrightarrow> in_i64 low \<and> in_i64 high"
| "typed_call P (CallPublish ts tr) \<longleftrightarrow> keeps P ts"
| "typed_call P (CallTryPublish ts tr) \<longleftrightarrow> keeps P ts"
| "typed_call P (CallPublishN ts n tr) \<longleftrightarrow> keeps P ts \<and> in_i64 n"
| "typed_call P (CallTryPublishN ts n tr) \<longleftrightarrow> keeps P ts \<and> in_i64 n"
| "typed_call P (CallShutdown ts) \<longleftrightarrow> keeps P ts"
| "typed_call P (CallNewBarrier deps) \<longleftrightarrow> True"
| "typed_call P (CallAddGatingSequences ss) \<longleftrightarrow> True"
| "typed_call P (CallRemoveGatingSequence s) \<longleftrightarrow> True"
| "typed_call P CallClose \<longleftrightarrow> True"

text \<open>A typed ring on given entries.\<close>

definition ring_typed ::
  "'b Sequencer \<Rightarrow> (int64 \<Rightarrow> heap \<times> 'b \<Rightarrow> bool) \<Rightarrow> int64 \<Rightarrow> 't list \<Rightarrow> ('t, 'b) ring_state \<Rightarrow> bool"
where
  "ring_typed M typed n es hr \<longleftrightarrow>
     ring_wf n (snd hr) \<and> entries (snd hr) = es \<and> methods (snd hr) = M \<and> typed n (fst hr, sequencer (snd hr))"

lemma ring_typed_simps [simp]:
  "ring_typed M typed n es (h, r\<lparr>sequencer := s, rb_discarded := d\<rparr>) \<longleftrightarrow>
     ring_wf n r \<and> entries r = es \<and> methods r = M \<and> typed n (h, s)"
  "ring_typed M typed n es (h, r\<lparr>rb_discarded := d, sequencer := s\<rparr>) \<longleftrightarrow>
     ring_wf n r \<and> entries r = es \<and> methods r = M \<and> typed n (h, s)"
  "ring_typed M typed n es (h, r\<lparr>rb_discarded := d\<rparr>) \<longleftrightarrow> ring_typed M typed n es (h, r)"
  "ring_typed M typed n es (h, r\<lparr>sequencer := s\<rparr>) \<longleftrightarrow>
     ring_wf n r \<and> entries r = es \<and> methods r = M \<and> typed n (h, s)"
  by (auto simp: ring_typed_def ring_wf_def)

lemma on_sequencer_typed:
  assumes "ring_typed M typed n es hr" "\<And>hs. typed n hs \<Longrightarrow> typed n (f hs)"
  shows "ring_typed M typed n es (on_sequencer f hr)"
proof -
  obtain h r where hr: "hr = (h, r)" by fastforce
  obtain h1 s1 where f: "f (h, sequencer r) = (h1, s1)" by fastforce
  have "typed n (h, sequencer r)" using assms(1) by (simp add: hr ring_typed_def)
  from assms(2) [OF this] f have "typed n (h1, s1)" by simp
  then show ?thesis using assms(1) by (simp add: hr f on_sequencer_def) (simp add: ring_typed_def)
qed

section \<open>The contract of a method table\<close>

locale typed_sequencer =
  fixes M :: "'b Sequencer" and typed :: "int64 \<Rightarrow> heap \<times> 'b \<Rightarrow> bool"
  assumes next_typed: "typed n hs \<Longrightarrow> keeps (typed n) ts \<Longrightarrow> in_i64 c \<Longrightarrow> seq_Next M ts c hs = Some (res, ts', hs') \<Longrightarrow>
      typed n hs' \<and> typed_claim res"
    and try_typed: "typed n hs \<Longrightarrow> keeps (typed n) ts \<Longrightarrow> in_i64 c \<Longrightarrow> seq_TryNext M ts c hs = Some (res, ts', hs') \<Longrightarrow>
      typed n hs' \<and> typed_claim res"
    and publish_typed: "typed n hs \<Longrightarrow> in_i64 low \<Longrightarrow> in_i64 high \<Longrightarrow> typed n (seq_Publish M low high hs)"
    and discard_typed: "typed n hs \<Longrightarrow> in_i64 low \<Longrightarrow> in_i64 high \<Longrightarrow> typed n (seq_Discard M low high hs)"
    and barrier_typed: "typed n hs \<Longrightarrow> typed n (snd (seq_NewBarrier M deps hs))"
    and add_typed: "typed n hs \<Longrightarrow> typed n (seq_AddGatingSequences M ss hs)"
    and remove_typed: "typed n hs \<Longrightarrow> typed n (snd (seq_RemoveGatingSequence M s hs))"
    and close_typed: "typed n hs \<Longrightarrow> typed n (seq_Close M hs)"
    and shutdown_typed: "typed n hs \<Longrightarrow> keeps (typed n) ts \<Longrightarrow> seq_Shutdown M ts hs = Some (err, ts', hs') \<Longrightarrow> typed n hs'"
begin

lemma claim_typed:
  assumes "ring_typed M typed n es hr" "keeps (typed n) ts" "in_i64 c"
    and "NextN ts c hr = Some (res, ts', hr') \<or> TryNextN ts c hr = Some (res, ts', hr')"
  shows "ring_typed M typed n es hr' \<and> typed_claim res"
proof -
  obtain h r where hr: "hr = (h, r)" by fastforce
  have r: "ring_wf n r" "entries r = es" "methods r = M" "typed n (h, sequencer r)"
    using assms(1) by (simp_all add: hr ring_typed_def)
  from assms(4) obtain h1 s1 where s: "seq_Next M ts c (h, sequencer r) = Some (res, ts', h1, s1) \<or>
      seq_TryNext M ts c (h, sequencer r) = Some (res, ts', h1, s1)" "hr' = (h1, r\<lparr>sequencer := s1\<rparr>)"
    using r(3) by (auto simp: hr NextN_def TryNextN_def split: option.splits)
  from s(1) next_typed [OF r(4) assms(2,3)] try_typed [OF r(4) assms(2,3)]
  have "typed n (h1, s1) \<and> typed_claim res" by blast
  with r s(2) show ?thesis by simp
qed

lemma publish_range_typed:
  assumes "ring_typed M typed n es hr" "in_i64 low" "in_i64 high"
  shows "ring_typed M typed n es (PublishRange low high hr)" "ring_typed M typed n es (PublishSequence low hr)"
    "ring_typed M typed n es (DiscardRange low high hr)" "ring_typed M typed n es (DiscardSequence low hr)"
proof -
  obtain h r where hr: "hr = (h, r)" by fastforce
  have m: "methods r = M" and d: "ring_typed M typed n es (h, r\<lparr>rb_discarded := True\<rparr>)"
    using assms(1) by (simp_all add: hr) (simp add: ring_typed_def)
  show "ring_typed M typed n es (PublishRange low high hr)" "ring_typed M typed n es (PublishSequence low hr)"
    using assms publish_typed m by (auto simp: hr PublishRange_def PublishSequence_def intro!: on_sequencer_typed)
  show "ring_typed M typed n es (DiscardRange low high hr)" "ring_typed M typed n es (DiscardSequence low hr)"
    using assms d discard_typed m by (auto simp: hr DiscardRange_def DiscardSequence_def intro!: on_sequencer_typed)
qed

lemma publish_claim_typed:
  assumes "publish_claimed k tr claim app = Some (out, ts1, hr1, app1) \<or> publish_one tr claim app = Some (out, ts1, hr1, app1)"
    and "\<And>res ts' hr'. claim = Some (res, ts', hr') \<Longrightarrow> ring_typed M typed n es hr' \<and> typed_claim res"
  shows "ring_typed M typed n es hr1"
proof (cases claim)
  case None
  with assms(1) show ?thesis by (simp add: publish_claimed_def publish_one_def)
next
  case (Some a)
  then obtain res ts' hr' where cl: "claim = Some (res, ts', hr')" by (metis surj_pair)
  from assms(2) [OF this] have ty: "ring_typed M typed n es hr'" "typed_claim res" by simp_all
  show ?thesis
  proof (cases res)
    case (Inl err)
    with assms(1) ty show ?thesis by (auto simp: cl publish_claimed_def publish_one_def)
  next
    case (Inr high)
    then have "hr1 = PublishRange (i64 (i64 (high - k) + 1)) high hr' \<or> hr1 = PublishSequence high hr'"
      using assms(1) by (auto simp: cl publish_claimed_def publish_one_def split_def Let_def)
    moreover have "in_i64 high" using ty(2) Inr by simp
    ultimately show ?thesis
      using publish_range_typed(1) [OF ty(1) i64_range] publish_range_typed(2) [OF ty(1), of high high] by auto
  qed
qed

text \<open>The four publishing operations translate and publish what one of the two claims returns.\<close>

lemma publishing_cases:
  assumes "Publish ts tr hr app = Some w \<or> TryPublish ts tr hr app = Some w \<or>
    PublishN ts k tr hr app = Some w \<or> TryPublishN ts k tr hr app = Some w"
  obtains out where "w = (out, ts, hr, app)"
  | f claim j where "publish_claimed j f claim app = Some w \<or> publish_one f claim app = Some w"
      "claim \<in> {NextN ts 1 hr, TryNextN ts 1 hr, NextN ts k hr, TryNextN ts k hr}"
proof (cases tr)
  case None
  with assms that(1) show ?thesis by (auto simp: Publish_def TryPublish_def PublishN_def TryPublishN_def)
next
  case (Some f)
  show ?thesis
    using assms that(2)
    by (simp add: Some Publish_def TryPublish_def PublishN_def TryPublishN_def Next_def TryNext_def) blast
qed

lemma publishing_typed:
  assumes r: "ring_typed M typed n es hr" and ts: "keeps (typed n) ts" and k: "in_i64 k"
    and p: "Publish ts tr hr app = Some (out, ts1, hr1, app1) \<or> TryPublish ts tr hr app = Some (out, ts1, hr1, app1) \<or>
      PublishN ts k tr hr app = Some (out, ts1, hr1, app1) \<or> TryPublishN ts k tr hr app = Some (out, ts1, hr1, app1)"
  shows "ring_typed M typed n es hr1"
  using p
proof (cases rule: publishing_cases)
  case 1
  with r show ?thesis by simp
next
  case (2 f claim j)
  have one: "in_i64 1" by (simp add: in_i64_def)
  have "ring_typed M typed n es hr' \<and> typed_claim res" if "claim = Some (res, ts', hr')" for res ts' hr'
  proof -
    from 2(2) that consider "NextN ts 1 hr = Some (res, ts', hr') \<or> TryNextN ts 1 hr = Some (res, ts', hr')"
      | "NextN ts k hr = Some (res, ts', hr') \<or> TryNextN ts k hr = Some (res, ts', hr')" by fastforce
    then show ?thesis by cases (use claim_typed [OF r ts one] claim_typed [OF r ts k] in blast)+
  qed
  with 2(1) show ?thesis by (rule publish_claim_typed)
qed

lemma manage_typed:
  assumes r: "ring_typed M typed n es (h, r)"
  shows "ring_typed M typed n es (snd (RingBuffer_NewBarrier deps (h, r)))"
    "ring_typed M typed n es (RingBuffer_AddGatingSequences ss (h, r))"
    "ring_typed M typed n es (snd (RingBuffer_RemoveGatingSequence s (h, r)))"
    "ring_typed M typed n es (RingBuffer_Close (h, r))"
    "keeps (typed n) ts \<Longrightarrow> RingBuffer_Shutdown ts (h, r) = Some (err, ts', hr') \<Longrightarrow> ring_typed M typed n es hr'"
proof -
  have m: "methods r = M" and ty: "typed n (h, sequencer r)" and wf: "ring_wf n r" "entries r = es"
    using r by (simp_all add: ring_typed_def)
  show "ring_typed M typed n es (snd (RingBuffer_NewBarrier deps (h, r)))"
    using barrier_typed [OF ty, of deps] m wf by (simp add: RingBuffer_NewBarrier_def split_def Let_def)
  show "ring_typed M typed n es (RingBuffer_AddGatingSequences ss (h, r))" "ring_typed M typed n es (RingBuffer_Close (h, r))"
    unfolding RingBuffer_AddGatingSequences_def RingBuffer_Close_def
    by (auto simp: m intro!: on_sequencer_typed add_typed close_typed r)
  show "ring_typed M typed n es (snd (RingBuffer_RemoveGatingSequence s (h, r)))"
    using remove_typed [OF ty, of s] m wf by (simp add: RingBuffer_RemoveGatingSequence_def split_def Let_def)
  show "ring_typed M typed n es hr'" if "keeps (typed n) ts" "RingBuffer_Shutdown ts (h, r) = Some (err, ts', hr')"
    using that shutdown_typed [OF ty that(1)] m wf by (auto simp: RingBuffer_Shutdown_def split: option.splits)
qed

lemma ring_step_typed:
  assumes "ring_typed M typed n es (fst w)" "typed_call (typed n) c" "ring_step c w = Some w'"
  shows "ring_typed M typed n es (fst w')"
proof -
  obtain h r app where w: "w = ((h, r), app)" by (metis surj_pair)
  have r: "ring_typed M typed n es (h, r)" using assms(1) by (simp add: w)
  have one: "in_i64 1" by (simp add: in_i64_def)
  note claims = claim_typed [OF r] and pub = publishing_typed [OF r]
  show ?thesis
    using assms(2,3) publish_range_typed [OF r] manage_typed [OF r]
    by (cases c) (auto simp: w dest: claims pub pub [OF _ one])
qed

lemma ring_run_typed:
  "ring_typed M typed n es (fst w) \<Longrightarrow> list_all (typed_call (typed n)) cs \<Longrightarrow> ring_run cs w = Some w' \<Longrightarrow>
   ring_typed M typed n es (fst w')"
proof (induction cs arbitrary: w)
  case (Cons c cs)
  from Cons.prems(3) obtain w1 where w1: "ring_step c w = Some w1" "ring_run cs w1 = Some w'"
    by (auto simp: bind_eq_Some_conv)
  from ring_step_typed [OF Cons.prems(1) _ w1(1)] Cons.prems(2) have "ring_typed M typed n es (fst w1)" by simp
  from Cons.IH [OF this _ w1(2)] Cons.prems(2) show ?case by simp
qed simp

end

section \<open>What the base does to a typed state\<close>

lemma heap_typed_simps [simp]:
  "heap_typed (WaitStrategy_signalAll ws h) = heap_typed h"
  "heap_typed (producerWaiter_signalAll w h) = heap_typed h"
  "heap_typed (fst (base_Close (h, b))) = heap_typed h"
  by (simp_all add: heap_typed_def heap_simps)

lemma heap_typed_store: "heap_typed h \<Longrightarrow> in_i64 v \<Longrightarrow> heap_typed (Sequence_store s v h)"
  by (simp add: heap_typed_def heap_simps)

lemma add_gates_typed:
  "heap_typed h \<Longrightarrow> heap_typed (fst (base_AddGatingSequences ss (h, b))) \<and>
     (\<exists>g. snd (base_AddGatingSequences ss (h, b)) = b\<lparr>gating := g\<rparr>)"
  by (cases "flags h (closed_flag b)")
    (auto simp: AddGatingSequences_open heap_typed_def add_gates_Load,
     auto simp: base_AddGatingSequences_def intro: exI [of _ "gating b"])

lemma remove_gate_typed:
  "heap_typed h \<Longrightarrow> heap_typed (fst (snd (base_RemoveGatingSequence s (h, b)))) \<and>
     (\<exists>g. snd (snd (base_RemoveGatingSequence s (h, b))) = b\<lparr>gating := g\<rparr>)"
  by (auto simp: base_RemoveGatingSequence_def Let_def heap_typed_def heap_simps
      split: option.splits intro: exI [of _ "gating b"])

lemma new_barrier_typed: "heap_typed h \<Longrightarrow> heap_typed (snd (base_NewBarrier deps (h, b)))"
  by (simp add: base_NewBarrier_def new_flag_def Let_def heap_typed_def Sequence_Load_def)

text \<open>A predicate that no base operation can break.\<close>

definition base_keeps :: "(heap \<times> 'a sequencerBase_scheme \<Rightarrow> bool) \<Rightarrow> bool" where
  "base_keeps P \<longleftrightarrow> (\<forall>h b h' g c d. P (h, b) \<and> heap_typed h' \<longrightarrow>
     P (h', b) \<and> P (h', b\<lparr>gating := g\<rparr>) \<and> P (h', b\<lparr>sealed := c\<rparr>) \<and> P (h', b\<lparr>sealed := c, closeOnce := d\<rparr>))"

lemma base_keeps_ops:
  assumes k: "base_keeps P" and r: "reads_sequences P" and p: "P (h, b)"
  shows "P (base_AddGatingSequences ss (h, b))" "P (snd (base_RemoveGatingSequence s (h, b)))"
    "P (base_Close (h, b))" "P (snd (base_beginShutdown (h, b)))" "P (snd (base_NewBarrier deps (h, b)), b)"
    "P (WaitStrategy_signalAll ws h, b)"
proof -
  note t = reads_sequencesD(1) [OF r p]
  have u: "P (h', b) \<and> P (h', b\<lparr>gating := g\<rparr>) \<and> P (h', b\<lparr>sealed := c\<rparr>) \<and> P (h', b\<lparr>sealed := c, closeOnce := d\<rparr>)"
    if "heap_typed h'" for h' g c d using k p that unfolding base_keeps_def by blast
  show "P (base_AddGatingSequences ss (h, b))"
    using add_gates_typed [OF t, of ss b] u by (metis prod.collapse)
  show "P (snd (base_RemoveGatingSequence s (h, b)))"
    using remove_gate_typed [OF t, of s b] u by (metis prod.collapse)
  show "P (base_Close (h, b))"
    using u [of "fst (base_Close (h, b))"] t Close_base [of h b] by (metis heap_typed_simps(3) prod.collapse)
  show "P (snd (base_beginShutdown (h, b)))" using u t p by (simp add: base_beginShutdown_def)
  show "P (snd (base_NewBarrier deps (h, b)), b)" by (rule u [THEN conjunct1]) (rule new_barrier_typed [OF t])
  show "P (WaitStrategy_signalAll ws h, b)" by (rule u [THEN conjunct1]) (simp add: t)
qed

lemma shutdown_keeps:
  assumes "base_keeps P" "reads_sequences P" "P hb" "keeps P ts" "base_awaitShutdown ts boundary hb = Some (err, ts', hb')"
  shows "P hb'"
proof -
  from assms(5) obtain r h1 b1 where d: "drain_loop ts (gating (snd hb)) boundary hb = Some (r, ts', h1, b1)"
    "hb' = base_Close (h1, b1)" by (auto simp: base_awaitShutdown_def split: option.splits)
  from drain_keeps [OF assms(3,4) d(1)] show ?thesis
    unfolding d(2) by (rule base_keeps_ops(3) [OF assms(1,2)])
qed

section \<open>The two sequencers\<close>

definition single_typed :: "int64 \<Rightarrow> single_state \<Rightarrow> bool" where
  "single_typed n hs \<longleftrightarrow>
     heap_typed (fst hs) \<and> ring_size n \<and> bufferSize (snd hs) = n \<and> length (discarded (snd hs)) = nat n \<and>
     in_i64 (nextValue (snd hs)) \<and> in_i64 (cachedGate (snd hs)) \<and> list_all in_i64 (discarded (snd hs))"

definition multi_typed :: "int64 \<Rightarrow> multi_state \<Rightarrow> bool" where
  "multi_typed n hs \<longleftrightarrow>
     heap_typed (fst hs) \<and> multi_shape (snd hs) \<and> bufferSize (snd hs) = n \<and>
     in_i64 (gateCache (snd hs)) \<and> list_all in_i64 (available (snd hs))"

lemma typed_stable:
  "reads_sequences (single_typed n)" "base_keeps (single_typed n)"
  "reads_sequences (multi_typed n)" "base_keeps (multi_typed n)"
  by (auto simp: reads_sequences_def base_keeps_def single_typed_def multi_typed_def multi_shape_def heap_typed_def)

lemma list_all_update: "list_all P xs \<Longrightarrow> P v \<Longrightarrow> list_all P (xs[i := v])"
  using set_update_subset_insert [of xs i v] by (auto simp: list_all_iff)

lemma single_claims_typed:
  assumes ty: "single_typed n hs"
  shows "keeps (single_typed n) ts \<Longrightarrow> single_Next ts c hs = Some (res, ts', hs') \<Longrightarrow> single_typed n hs' \<and> typed_claim res"
    "single_TryNext c hs = (res, hs') \<Longrightarrow> single_typed n hs' \<and> typed_claim res"
proof -
  obtain h s where hs: "hs = (h, s)" by fastforce
  have upd: "single_typed n (h', s'\<lparr>nextValue := v\<rparr>)" "single_typed n (h', s'\<lparr>cachedGate := v\<rparr>)"
    if "single_typed n (h', s')" "in_i64 v" for h' s' v
    using that by (simp_all add: single_typed_def)
  have fb: "in_i64 (nextValue s)" "heap_typed h" using ty by (simp_all add: hs single_typed_def)
  note wait = waitForCapacity_keeps [OF typed_stable(1) fb(1)]
  show "single_typed n hs' \<and> typed_claim res" if "keeps (single_typed n) ts" "single_Next ts c hs = Some (res, ts', hs')"
    using that ty
    by (auto simp: hs single_Next_def Let_def i64_range upd split: if_splits option.splits sum.splits
        dest!: wait [OF ty [unfolded hs]])
  show "single_typed n hs' \<and> typed_claim res" if "single_TryNext c hs = (res, hs')"
    using that ty minimumGate_typed [OF fb(2,1), of s]
    by (auto simp: hs single_TryNext_def Let_def i64_range upd split: if_splits)
qed

lemma single_resolve_typed:
  assumes ty: "single_typed n hs" and q: "in_i64 low" "in_i64 high"
  shows "single_typed n (single_Publish low high hs)" "single_typed n (single_Discard low high hs)"
proof -
  obtain h s where hs: "hs = (h, s)" by fastforce
  have st: "single_typed n (Sequence_store (cursor s') v h', s'\<lparr>discarded := d\<rparr>)"
    if "single_typed n (h', s')" "in_i64 v" "length d = nat n" "list_all in_i64 d" for h' s' v d
    using that by (simp add: single_typed_def heap_typed_store)
  have one: "single_typed n (single_discard_one p w)" if "single_typed n w" "in_i64 p" for p w
    using that st by (cases w) (auto simp: single_discard_one_def single_typed_def list_all_update heap_typed_store)
  have "single_typed n (fold single_discard_one qs w)" if "single_typed n w" "list_all in_i64 qs" for qs w
    using that by (induction qs arbitrary: w) (auto simp: one)
  moreover have "list_all in_i64 [low..high]" using q by (auto simp: list_all_iff in_i64_def)
  ultimately have "single_typed n (fold single_discard_one [low..high] hs)" using ty by blast
  then show "single_typed n (single_Discard low high hs)"
    using ty base_keeps_ops(6) [OF typed_stable(2,1)] by (auto simp: single_Discard_def split: prod.splits)
  show "single_typed n (single_Publish low high hs)"
    using ty q(2) by (simp add: hs single_Publish_def single_typed_def heap_typed_store)
qed

interpretation single_typing: typed_sequencer singleSequencer single_typed
proof unfold_locales
  fix n hs ts c res ts' hs'
  assume ty: "single_typed n hs" "keeps (single_typed n) ts"
  show "single_typed n hs' \<and> typed_claim res" if "seq_Next singleSequencer ts c hs = Some (res, ts', hs')"
    using single_claims_typed(1) [OF ty] that by simp
  show "single_typed n hs' \<and> typed_claim res" if "seq_TryNext singleSequencer ts c hs = Some (res, ts', hs')"
    using single_claims_typed(2) [OF ty(1), of c "fst (single_TryNext c hs)" "snd (single_TryNext c hs)"] that by simp
next
  fix n hs ts err ts' hs'
  assume ty: "single_typed n hs" and k: "keeps (single_typed n) ts"
    and s: "seq_Shutdown singleSequencer ts hs = Some (err, ts', hs')"
  have b: "single_typed n (snd (base_beginShutdown hs))"
    using ty base_keeps_ops(4) [OF typed_stable(2,1)] by (cases hs) auto
  show "single_typed n hs'"
    using s b shutdown_keeps [OF typed_stable(2,1) _ k]
    by (auto simp: singleSequencer_def single_Shutdown_def split: prod.splits option.splits)
qed (use single_resolve_typed base_keeps_ops [OF typed_stable(2,1)]
    in \<open>auto simp: singleSequencer_def single_NewBarrier_def split_def Let_def\<close>)

lemma word_range: "in_i64 (publicationValue f st)"
  using sint_greater_eq [of "push_bit 2 (u64 f) OR ucast st"] sint_less [of "push_bit 2 (u64 f) OR ucast st"]
  by (simp add: publicationValue_def s64_def in_i64_def)

lemma multi_tables_typed:
  assumes "multi_typed n (h, s)"
  shows "multi_typed n (h, multi_prepare low high s)" "multi_typed n (h, multi_resolve low high st s)"
proof -
  have upd: "multi_typed n (h, s'\<lparr>available := (available s')[i := publicationValue f st]\<rparr>)"
    if "multi_typed n (h, s')" for s' i f st
    using that by (simp add: multi_typed_def list_all_update word_range)
  have "multi_typed n (h, fold multi_prepare_one qs s)" "multi_typed n (h, fold (multi_resolve_one st) qs s)" for qs
    using assms by (induction qs arbitrary: s) (auto simp: multi_prepare_one_def multi_resolve_one_def Let_def upd)
  then show "multi_typed n (h, multi_prepare low high s)" "multi_typed n (h, multi_resolve low high st s)"
    using assms by (simp_all add: multi_prepare_def multi_resolve_def)
qed

lemma multi_cas_typed:
  assumes "multi_typed n hs" "\<And>x. multi_typed n x \<Longrightarrow> multi_typed n (t_park t x)" "in_i64 v" "multi_cas t c v hs = (b, hs')"
  shows "multi_typed n hs'"
proof -
  obtain h s where p: "t_park t hs = (h, s)" by fastforce
  have ty: "multi_typed n (h, s)" using assms(2) [OF assms(1)] p by simp
  then have "multi_typed n (Sequence_store (cursor s) v h, s)" using assms(3) by (simp add: multi_typed_def heap_typed_store)
  with assms(4) ty show ?thesis
    by (auto simp: multi_cas_def p Sequence_compareAndSwap_def multi_tables_typed split: if_splits)
qed

lemma multi_turn_typed:
  assumes k: "keeps (multi_typed n) (t # ts)" and ty: "multi_typed n hs" and pre: "t_pre t hs = (h, s)" and mid: "t_mid t (h, s) = (h1, s1)"
  shows "multi_typed n (h, s)" "multi_typed n (h1, s1)"
    "multi_typed n (h1, s1\<lparr>gateCache := base_minimumGate (Sequence_Load (cursor s) h) h1 s1\<rparr>)"
proof -
  show p: "multi_typed n (h, s)" using keepsD(2) [OF k ty] pre by simp
  from keepsD(3) [OF k this] mid show p1: "multi_typed n (h1, s1)" by simp
  have "in_i64 (base_minimumGate (Sequence_Load (cursor s) h) h1 s1)"
    by (rule minimumGate_typed) (use p p1 in \<open>simp_all add: multi_typed_def heap_typed_def\<close>)
  with p1 show "multi_typed n (h1, s1\<lparr>gateCache := base_minimumGate (Sequence_Load (cursor s) h) h1 s1\<rparr>)"
    by (simp add: multi_typed_def)
qed

lemma multi_Next_loop_typed:
  assumes "in_i64 c"
  shows "multi_typed n hs \<Longrightarrow> keeps (multi_typed n) ts \<Longrightarrow> multi_Next_loop ts c hs = Some (res, ts', hs') \<Longrightarrow>
    multi_typed n hs' \<and> typed_claim res"
proof (induction ts arbitrary: hs)
  case (Cons t ts)
  note k = keepsD [OF Cons.prems(2)]
  obtain h s where pre: "t_pre t hs = (h, s)" by fastforce
  obtain h1 s1 where mid: "t_mid t (h, s) = (h1, s1)" by fastforce
  note p = multi_turn_typed [OF Cons.prems(2,1) pre mid]
  have cas: "multi_typed n hs' \<and> typed_claim res"
    if ty: "multi_typed n w"
      and c: "(case multi_cas t current (i64 v) w of (True, h2, s2) \<Rightarrow> Some (Inr (i64 v), ts, h2, s2)
        | (False, h2, s2) \<Rightarrow> multi_Next_loop ts c (h2, s2)) = Some (res, ts', hs')" for w current v
  proof -
    obtain b h2 s2 where m: "multi_cas t current (i64 v) w = (b, h2, s2)" by (metis surj_pair)
    from multi_cas_typed [OF ty k(4) i64_range m] c Cons.IH [OF _ k(1)] show ?thesis
      by (cases b) (auto simp: m i64_range)
  qed
  have wait: "multi_typed n hs' \<and> typed_claim res"
    if "(case producerWaiter_wait w t prepared ch (h1, s1) of None \<Rightarrow> None | Some (Some err, h2, s2) \<Rightarrow> Some (Inl err, ts, h2, s2)
        | Some (None, h2, s2) \<Rightarrow> multi_Next_loop ts c (h2, s2)) = Some (res, ts', hs')" for w prepared ch
    using that wait_keeps [OF typed_stable(3) p(2) k(4)] Cons.IH [OF _ k(1)] by (auto split: option.splits) blast+
  show ?case
    using Cons.prems(3) p wait cas [OF p(2)] cas [OF p(3)] by (auto simp: pre mid Let_def split: if_splits)
qed simp

lemma multi_TryNext_loop_typed:
  assumes "in_i64 c"
  shows "multi_typed n hs \<Longrightarrow> keeps (multi_typed n) ts \<Longrightarrow> multi_TryNext_loop ts c hs = Some (res, ts', hs') \<Longrightarrow>
    multi_typed n hs' \<and> typed_claim res"
proof (induction ts arbitrary: hs)
  case (Cons t ts)
  note k = keepsD [OF Cons.prems(2)]
  obtain h s where pre: "t_pre t hs = (h, s)" by fastforce
  obtain h1 s1 where mid: "t_mid t (h, s) = (h1, s1)" by fastforce
  note p = multi_turn_typed [OF Cons.prems(2,1) pre mid]
  have cas: "multi_typed n hs' \<and> typed_claim res"
    if ty: "multi_typed n w"
      and c: "(case multi_cas t current (i64 v) w of (True, h2, s2) \<Rightarrow> Some (Inr (i64 v), ts, h2, s2)
        | (False, h2, s2) \<Rightarrow> multi_TryNext_loop ts c (h2, s2)) = Some (res, ts', hs')" for w current v
  proof -
    obtain b h2 s2 where m: "multi_cas t current (i64 v) w = (b, h2, s2)" by (metis surj_pair)
    from multi_cas_typed [OF ty k(4) i64_range m] c Cons.IH [OF _ k(1)] show ?thesis
      by (cases b) (auto simp: m i64_range)
  qed
  show ?case
    using Cons.prems(3) p cas [OF p(2)] cas [OF p(3)] by (auto simp: pre mid Let_def split: if_splits)
qed simp

interpretation multi_typing: typed_sequencer multiSequencer multi_typed
proof unfold_locales
  fix n hs ts c res ts' hs'
  assume ty: "multi_typed n hs" "keeps (multi_typed n) ts" "in_i64 c"
  show "multi_typed n hs' \<and> typed_claim res" if "seq_Next multiSequencer ts c hs = Some (res, ts', hs')"
    using multi_Next_loop_typed [OF ty(3,1,2)] that ty(1) by (auto simp: multi_Next_def split: if_splits)
  show "multi_typed n hs' \<and> typed_claim res" if "seq_TryNext multiSequencer ts c hs = Some (res, ts', hs')"
    using multi_TryNext_loop_typed [OF ty(3,1,2)] that ty(1) by (auto simp: multi_TryNext_def split: if_splits)
next
  fix n hs low high
  assume "multi_typed n hs"
  then show "multi_typed n (seq_Publish multiSequencer low high hs)" "multi_typed n (seq_Discard multiSequencer low high hs)"
    using base_keeps_ops(6) [OF typed_stable(4,3) multi_tables_typed(2)]
    by (cases hs; simp add: multi_Publish_def multi_Discard_def Let_def)+
next
  fix n hs ts err ts' hs'
  assume ty: "multi_typed n hs" and k: "keeps (multi_typed n) ts"
    and s: "seq_Shutdown multiSequencer ts hs = Some (err, ts', hs')"
  have b: "multi_typed n (snd (base_beginShutdown hs))"
    using ty base_keeps_ops(4) [OF typed_stable(4,3)] by (cases hs) auto
  show "multi_typed n hs'"
    using s b shutdown_keeps [OF typed_stable(4,3) _ k]
    by (auto simp: multiSequencer_def multi_Shutdown_def split: prod.splits option.splits)
qed (use base_keeps_ops [OF typed_stable(4,3)] in \<open>auto simp: multiSequencer_def multi_NewBarrier_def split_def Let_def\<close>)

section \<open>A fresh ring is typed\<close>

lemma new_base_typed:
  assumes "heap_typed h" "newSequencerBase n wait mode h = (b, h')"
  shows "heap_typed h'" "bufferSize b = n"
  using assms
  by (auto simp: newSequencerBase_def NewSequence_def newProducerWaiter_def make_chan_def new_flag_def BlockingWait_def
      InitialSequence_def heap_typed_def Sequence_Load_def in_i64_def Let_def split: option.splits if_splits)

lemma new_sequencers_typed:
  assumes "heap_typed h" "ring_size n"
  shows "newSingleProducerSequencer n wait mode h = (s, h') \<Longrightarrow> single_typed n (h', s)"
    "newMultiProducerSequencer n wait mode h = (s', h') \<Longrightarrow> multi_typed n (h', s')"
  using assms new_base_typed [OF assms(1)]
  by (auto simp: newSingleProducerSequencer_def newMultiProducerSequencer_def single_typed_def multi_typed_def multi_shape_def
      discardMarker_def InitialSequence_def in_i64_def list_all_iff sequencerBase.defs split: prod.splits)

lemma New_typed:
  assumes "in_i64 bsize" "heap_typed h" "New bsize pt (Some f) wait opts h app = (Returned (Inr ring), h', app')"
  shows "case ring of SingleRing r \<Rightarrow> ring_typed singleSequencer single_typed bsize (entries r) (h', r)
    | MultiRing r \<Rightarrow> ring_typed multiSequencer multi_typed bsize (entries r) (h', r)"
proof -
  have "ring_size bsize" using New_ring [OF assms(1,3)] by (auto simp: ring_wf_def)
  from new_sequencers_typed [OF assms(2) this]
  have "case ring of SingleRing r \<Rightarrow> single_typed bsize (h', sequencer r) | MultiRing r \<Rightarrow> multi_typed bsize (h', sequencer r)"
    using assms(3) by (auto simp: New_def split: if_splits sum.splits prod.splits outcome.splits)
  with New_ring [OF assms(1,3)] show ?thesis by (auto simp: ring_typed_def)
qed

text \<open>In a typed ring every index the code computes is inside its table.\<close>

lemma ring_wf_index: "ring_wf n r \<Longrightarrow> unat (u64 q AND rb_indexMask r) < length (entries r)"
  by (simp add: ring_wf_def mask_slot slot_less ring_size_pos)

lemma typed_index:
  "single_typed n hs \<Longrightarrow> single_index (snd hs) q < length (discarded (snd hs))"
  "multi_typed n hs' \<Longrightarrow> multi_index (snd hs') q < length (available (snd hs'))"
  by (auto simp: single_typed_def multi_typed_def single_index_slot multi_index_slot multi_shape_def slot_less ring_size_pos)

section \<open>Properties\<close>

text \<open>
  C31. Whatever is called on a ring made by \<open>New\<close>, in any order and with any arguments (sequences that
  were never claimed, ranges that are empty or reversed, translators that fail), it stays typed: every
  number it keeps is an \<open>int64\<close>, the preallocated entries are never replaced, and every slot index of
  \<open>Get\<close> and of the resolution tables is in range for every sequence, so none of these accesses panics.
\<close>

theorem ring_stays_typed:
  assumes "in_i64 bsize" "heap_typed h" "New bsize pt (Some f) wait opts h app = (Returned (Inr ring), h', app')"
  shows "case ring of
      SingleRing r \<Rightarrow> \<forall>calls a h2 r2 a2.
        list_all (typed_call (single_typed bsize)) calls \<and> ring_run calls ((h', r), a) = Some ((h2, r2), a2) \<longrightarrow>
        single_typed bsize (h2, sequencer r2) \<and> entries r2 = entries r \<and>
        (\<forall>q. unat (u64 q AND rb_indexMask r2) < length (entries r2) \<and>
             single_index (sequencer r2) q < length (discarded (sequencer r2)))
    | MultiRing r \<Rightarrow> \<forall>calls a h2 r2 a2.
        list_all (typed_call (multi_typed bsize)) calls \<and> ring_run calls ((h', r), a) = Some ((h2, r2), a2) \<longrightarrow>
        multi_typed bsize (h2, sequencer r2) \<and> entries r2 = entries r \<and>
        (\<forall>q. unat (u64 q AND rb_indexMask r2) < length (entries r2) \<and>
             multi_index (sequencer r2) q < length (available (sequencer r2)))"
proof (cases ring)
  case (SingleRing r)
  have "ring_typed singleSequencer single_typed bsize (entries r) (h', r)" using New_typed [OF assms] SingleRing by simp
  then show ?thesis
    using single_typing.ring_run_typed [of bsize "entries r" "((h', r), _)"] typed_index(1) [of bsize] ring_wf_index
    unfolding SingleRing ring_typed_def by fastforce
next
  case (MultiRing r)
  have "ring_typed multiSequencer multi_typed bsize (entries r) (h', r)" using New_typed [OF assms] MultiRing by simp
  then show ?thesis
    using multi_typing.ring_run_typed [of bsize "entries r" "((h', r), _)"] typed_index(2) [of bsize] ring_wf_index
    unfolding MultiRing ring_typed_def by fastforce
qed

definition wild_calls :: "(int, singleProducerSequencer, int list) ring_call list" where
  "wild_calls = [CallDiscardRange 9 2, CallPublishSequence 700, CallTryPublishN [] 3 (Some failing_translator),
     CallDiscardRange (-5) 6, CallAddGatingSequences [None, Some 77], CallClose]"

theorem ring_stays_typed_witness:
  "\<exists>h2 r2 a2. ring_run wild_calls (single_ring4, []) = Some ((h2, r2), a2) \<and>
     single_typed 4 (h2, sequencer r2) \<and> entries r2 = [0, 1, 2, 3] \<and>
     (\<forall>q. unat (u64 q AND rb_indexMask r2) < length (entries r2))"
proof -
  have runs: "case ring_run wild_calls (single_ring4, []) of None \<Rightarrow> False | Some _ \<Rightarrow> True" by code_simp
  then obtain h2 r2 a2 where r: "ring_run wild_calls ((fst single_ring4, snd single_ring4), []) = Some ((h2, r2), a2)"
    by (auto split: option.splits)
  have e: "heap_typed empty_heap" by (simp add: heap_typed_def empty_heap_def Sequence_Load_def in_i64_def)
  have c: "list_all (typed_call (single_typed 4)) wild_calls" by (simp add: wild_calls_def in_i64_def)
  have es: "entries (snd single_ring4) = [0, 1, 2, 3]" by code_simp
  have "in_i64 4" by (simp add: in_i64_def)
  from ring_stays_typed [OF this e New_single_ring4] c r es show ?thesis by fastforce
qed

end
