(* ===== verification/Loadtest.thy ===== *)
theory Loadtest
  imports Delivery
begin

text \<open>
  The load test command \<open>cmd/loadtest\<close>: its configuration, how it wires processors to a ring, how the
  producers share the events of a phase, and how it waits for and stops the processors. Events are
  references into an application store. The report is in \<open>Load_Report\<close>; clocks, memory statistics and the
  parsing of flags are left out; messages of \<open>fmt.Errorf\<close> are strings.
\<close>

unbundle bit_operations_syntax

section \<open>Configuration\<close>

record config =
  lt_mode :: string
  lt_topology :: string
  lt_events :: int64
  lt_warmupEvents :: int64
  lt_repetitions :: int64
  lt_producers :: int64
  lt_consumers :: int64
  lt_ringSize :: int64
  lt_batchSize :: int64
  lt_producerWait :: string
  lt_consumerWait :: string
  lt_payloadSize :: int64
  lt_sampleEvery :: int64
  lt_handlerDelay :: int64
  lt_timeout :: int64
  lt_environment :: string

text \<open>The values \<open>parseFlags\<close> registers as defaults; durations are in nanoseconds.\<close>

definition parseFlags :: config where
  "parseFlags =
     \<lparr>lt_mode = ''throughput'', lt_topology = ''broadcast'', lt_events = 1000000, lt_warmupEvents = 100000,
      lt_repetitions = 1, lt_producers = 1, lt_consumers = 1, lt_ringSize = 65536, lt_batchSize = 256,
      lt_producerWait = ''yielding'', lt_consumerWait = ''yielding'', lt_payloadSize = 0, lt_sampleEvery = 100,
      lt_handlerDelay = 0, lt_timeout = 30000000000, lt_environment = ''''\<rparr>"

definition parseProducerWait :: "string \<Rightarrow> error + ProducerWaitMode" where
  "parseProducerWait s =
     (if s = ''yielding'' then Inr ProducerWaitYielding
      else if s = ''blocking'' then Inr ProducerWaitBlocking
      else if s = ''busy-spin'' then Inr ProducerWaitBusySpin
      else Inl (AppError ''producer-wait must be yielding, blocking, or busy-spin''))"

definition parseConsumerWait :: "string \<Rightarrow> heap \<Rightarrow> (error + WaitStrategy) \<times> heap" where
  "parseConsumerWait s h =
     (if s = ''blocking'' then (let (w, h1) = BlockingWait h in (Inr w, h1))
      else if s = ''sleeping'' then (Inr SleepingWait, h)
      else if s = ''yielding'' then (Inr YieldingWait, h)
      else if s = ''busy-spin'' then (Inr BusySpinWait, h)
      else (Inl (AppError ''consumer-wait must be blocking, sleeping, yielding, or busy-spin''), h))"

text \<open>The strategy that a check of the consumer wait creates is dropped, so the check needs no store.\<close>

definition validateConfig :: "config \<Rightarrow> error option" where
  "validateConfig cfg =
     (if lt_mode cfg \<noteq> ''throughput'' \<and> lt_mode cfg \<noteq> ''latency''
      then Some (AppError ''mode must be throughput or latency'')
      else if lt_topology cfg \<noteq> ''broadcast'' \<and> lt_topology cfg \<noteq> ''pipeline''
      then Some (AppError ''topology must be broadcast or pipeline'')
      else if lt_events cfg < 1 \<or> lt_warmupEvents cfg < 0 \<or> lt_repetitions cfg < 1 \<or> lt_producers cfg < 1 \<or>
              lt_consumers cfg < 1 \<or> lt_batchSize cfg < 1
      then Some (AppError ''events, repetitions, producers, consumers, and batch-size must be positive; warmup-events must be non-negative'')
      else if lt_topology cfg = ''pipeline'' \<and> lt_consumers cfg < 2
      then Some (AppError ''pipeline topology requires at least two consumer stages'')
      else if lt_payloadSize cfg < 0 then Some (AppError ''payload-size must be non-negative'')
      else if lt_mode cfg = ''latency'' \<and> lt_sampleEvery cfg < 1
      then Some (AppError ''sample-every must be positive in latency mode'')
      else if lt_handlerDelay cfg < 0 \<or> lt_timeout cfg \<le> 0
      then Some (AppError ''handler-delay must be non-negative and timeout must be positive'')
      else case parseProducerWait (lt_producerWait cfg) of
        Inl err \<Rightarrow> Some err
      | Inr _ \<Rightarrow>
          (case fst (parseConsumerWait (lt_consumerWait cfg) empty_heap) of
             Inl err \<Rightarrow> Some err | Inr _ \<Rightarrow> None))"

section \<open>Events and the ring\<close>

record loadEvent =
  ev_Value :: int64
  ev_PublishedAt :: int64
  ev_Sampled :: bool
  ev_Payload :: "uint8 list"

text \<open>
  What the goroutines of a repetition share besides the ring: the events behind the references in the
  ring, the checksums and latencies of the processors, and the clock.
\<close>

record loadState =
  ls_events :: "nat \<Rightarrow> loadEvent"
  ls_next :: nat
  ls_checksums :: "uint64 list"
  ls_latencies :: "int64 list list"
  ls_clock :: int64

definition load_factory :: "config \<Rightarrow> (nat, loadState) EventFactory" where
  "load_factory cfg ls =
     (Returned (ls_next ls),
      ls\<lparr>ls_events := (ls_events ls)(ls_next ls :=
            \<lparr>ev_Value = 0, ev_PublishedAt = 0, ev_Sampled = False,
             ev_Payload = replicate (nat (lt_payloadSize cfg)) 0\<rparr>),
         ls_next := Suc (ls_next ls)\<rparr>)"

text \<open>The ring of a repetition, as \<open>runOnce\<close> creates it.\<close>

definition run_ring :: "config \<Rightarrow> heap \<Rightarrow> loadState \<Rightarrow> (error + nat ring) outcome \<times> heap \<times> loadState" where
  "run_ring cfg h ls =
     (let producerType = (if lt_producers cfg > 1 then MultiProducer else SingleProducer) in
      case parseProducerWait (lt_producerWait cfg) of
        Inl err \<Rightarrow> (Returned (Inl err), h, ls)
      | Inr producerWaitMode \<Rightarrow>
          (case parseConsumerWait (lt_consumerWait cfg) h of
             (Inl err, h1) \<Rightarrow> (Returned (Inl err), h1, ls)
           | (Inr consumerWait, h1) \<Rightarrow>
               New (lt_ringSize cfg) producerType (Some (load_factory cfg)) (Some consumerWait)
                 [WithProducerWait producerWaitMode] h1 ls))"

section \<open>Processors\<close>

definition load_handler :: "nat \<Rightarrow> bool \<Rightarrow> (nat, loadState) EventHandler" where
  "load_handler index recordLatency event sequence endOfBatch ls =
     (let ev = ls_events ls event;
          ls1 = ls\<lparr>ls_checksums := (ls_checksums ls)
                    [index := fold (\<lambda>v sum. sum + (ucast v :: uint64)) (ev_Payload ev) (ls_checksums ls ! index)]\<rparr>
      in (Returned None,
          if recordLatency \<and> ev_Sampled ev
          then ls1\<lparr>ls_latencies := (ls_latencies ls1)
                    [index := ls_latencies ls1 ! index @ [i64 (ls_clock ls1 - ev_PublishedAt ev)]]\<rparr>
          else ls1))"

text \<open>The loop of \<open>startProcessors\<close> over the indices of the processors; \<open>dependency\<close> is \<open>nil\<close> at first.\<close>

fun start_loop ::
  "config \<Rightarrow> bool \<Rightarrow> nat list \<Rightarrow> addr option \<Rightarrow> (nat, 'b) ring_state \<Rightarrow>
   (error + (nat, loadState) BatchProcessor list) \<times> (nat, 'b) ring_state"
where
  "start_loop cfg pipeline [] dependency hr = (Inr [], hr)"
| "start_loop cfg pipeline (index # rest) dependency hr =
     (let (barrier0, hr0) = RingBuffer_NewBarrier [] hr;
          (barrier, h1, r1) =
            (case dependency of
               Some s \<Rightarrow> if pipeline then RingBuffer_NewBarrier [s] hr0 else (barrier0, hr0)
             | None \<Rightarrow> (barrier0, hr0));
          recordLatency = (lt_mode cfg = ''latency'' \<and> (\<not> pipeline \<or> int index = i64 (lt_consumers cfg - 1)))
      in case NewBatchProcessor barrier (Some (load_handler index recordLatency))
                [WithMaxBatchSize (lt_batchSize cfg)] h1 of
           (Inl err, h2) \<Rightarrow> (Inl err, h2, r1)
         | (Inr processor, h2) \<Rightarrow>
             (case start_loop cfg pipeline rest (Some (bp_sequence processor)) (h2, r1) of
                (Inl err, hr3) \<Rightarrow> (Inl err, hr3)
              | (Inr processors, hr3) \<Rightarrow> (Inr (processor # processors), hr3)))"

text \<open>The processors with the sequences that gate the ring; the goroutines that run them are not started here.\<close>

definition startProcessors ::
  "config \<Rightarrow> (nat, 'b) ring_state \<Rightarrow>
   (error + (nat, loadState) BatchProcessor list \<times> addr list) \<times> (nat, 'b) ring_state"
where
  "startProcessors cfg hr =
     (let pipeline = (lt_topology cfg = ''pipeline'') in
      case start_loop cfg pipeline [0..<nat (lt_consumers cfg)] None hr of
        (Inl err, hr1) \<Rightarrow> (Inl err, hr1)
      | (Inr processors, hr1) \<Rightarrow>
          (let terminal = (if pipeline then [bp_sequence (last processors)] else map bp_sequence processors)
           in (Inr (processors, terminal), RingBuffer_AddGatingSequences (map Some terminal) hr1)))"

section \<open>Publishing a phase\<close>

text \<open>
  The indices one producer goroutine goes through. The index stays below \<open>events + producers\<close>, so it
  does not wrap for event counts below \<open>2^62\<close>.
\<close>

function worker_indices :: "int64 \<Rightarrow> int64 \<Rightarrow> int64 \<Rightarrow> int64 list" where
  "worker_indices count producers index =
     (if index < count \<and> 0 < producers then index # worker_indices count producers (index + producers) else [])"
  by pat_completeness auto
termination
  by (relation "measure (\<lambda>(count, producers, index). nat (count - index))") auto

declare worker_indices.simps [simp del]

text \<open>What a producer writes into the event of a claimed sequence.\<close>

definition write_event :: "config \<Rightarrow> int64 \<Rightarrow> bool \<Rightarrow> int64 \<Rightarrow> int64 \<Rightarrow> nat \<Rightarrow> loadState \<Rightarrow> loadState" where
  "write_event cfg base sample index sequence event ls =
     (let old = ls_events ls event;
          sampled = (sample \<and> index mod lt_sampleEvery cfg = 0);
          new = old\<lparr>ev_Value := i64 (base + index), ev_Sampled := sampled,
                    ev_PublishedAt := (if sampled then ls_clock ls else ev_PublishedAt old),
                    ev_Payload := map (\<lambda>k. word_of_int (i64 (sequence + int k))) [0..<length (ev_Payload old)]\<rparr>
      in ls\<lparr>ls_events := (ls_events ls)(event := new)\<rparr>)"

text \<open>One producer goroutine; the turns say what the others and the processors do meanwhile.\<close>

fun publish_worker ::
  "config \<Rightarrow> int64 \<Rightarrow> bool \<Rightarrow> int64 list \<Rightarrow> 'b turns \<Rightarrow> (nat, 'b) ring_state \<Rightarrow> loadState \<Rightarrow>
   (error option \<times> 'b turns \<times> (nat, 'b) ring_state \<times> loadState) option"
where
  "publish_worker cfg base sample [] ts hr ls = Some (None, ts, hr, ls)"
| "publish_worker cfg base sample (index # rest) ts hr ls =
     (case Next ts hr of
        None \<Rightarrow> None
      | Some (Inl err, ts1, hr1) \<Rightarrow> Some (Some err, ts1, hr1, ls)
      | Some (Inr sequence, ts1, hr1) \<Rightarrow>
          publish_worker cfg base sample rest ts1 (PublishSequence sequence hr1)
            (write_event cfg base sample index sequence (Get (snd hr1) sequence) ls))"

text \<open>A phase fails with the first error that reached the channel; \<open>results\<close> are in that order.\<close>

fun first_error :: "error option list \<Rightarrow> error option" where
  "first_error [] = None"
| "first_error (None # results) = first_error results"
| "first_error (Some err # results) = Some err"

section \<open>Waiting and stopping\<close>

fun wait_sequence ::
  "'b turns \<Rightarrow> addr \<Rightarrow> int64 \<Rightarrow> heap \<times> 'b \<Rightarrow> (error option \<times> 'b turns \<times> heap \<times> 'b) option"
where
  "wait_sequence [] s target hb = None"
| "wait_sequence (t # ts) s target hb =
     (let (h, b) = t_pre t hb in
      if \<not> Sequence_Load s h < target then Some (None, ts, h, b)
      else case t_ctx t of
        Some err \<Rightarrow> Some (Some err, ts, h, b)
      | None \<Rightarrow> wait_sequence ts s target (t_park t (h, b)))"

fun waitForSequences ::
  "'b turns \<Rightarrow> addr list \<Rightarrow> int64 \<Rightarrow> heap \<times> 'b \<Rightarrow> (error option \<times> 'b turns \<times> heap \<times> 'b) option"
where
  "waitForSequences ts [] target hb = Some (None, ts, hb)"
| "waitForSequences ts (s # rest) target hb =
     (case wait_sequence ts s target hb of
        None \<Rightarrow> None
      | Some (Some err, ts1, hb1) \<Rightarrow> Some (Some err, ts1, hb1)
      | Some (None, ts1, hb1) \<Rightarrow> waitForSequences ts1 rest target hb1)"

text \<open>
  \<open>stopProcessors\<close> halts every processor and then collects what their runs returned, in order.
  Every processor has its own state.
\<close>

fun halt_all ::
  "((nat, 's) BatchProcessor \<times> processorState) list \<Rightarrow> (nat, 'b, 's) world \<Rightarrow>
   ((nat, 's) BatchProcessor \<times> processorState) list \<times> (nat, 'b, 's) world"
where
  "halt_all [] w = ([], w)"
| "halt_all ((p, st) # rest) w =
     (let w1 = Halt p (set_state st w); (ps, w2) = halt_all rest w1
      in ((p, sys_state (snd w1)) # ps, w2))"

fun first_result :: "nat \<Rightarrow> error option list \<Rightarrow> error option" where
  "first_result i [] = None"
| "first_result i (None # results) = first_result (Suc i) results"
| "first_result i (Some err # results) = Some (WrappedError (''processor '' @ decimal i) err)"

definition stopProcessors ::
  "((nat, 's) BatchProcessor \<times> processorState) list \<Rightarrow> error option list \<Rightarrow> (nat, 'b, 's) world \<Rightarrow>
   error option \<times> ((nat, 's) BatchProcessor \<times> processorState) list \<times> (nat, 'b, 's) world"
where
  "stopProcessors ps results w = (let (ps1, w1) = halt_all ps w in (first_result 0 results, ps1, w1))"

text \<open>What \<open>runOnce\<close> makes of it: the cancellation it caused itself is no failure.\<close>

definition stop_failure :: "error option \<Rightarrow> error option" where
  "stop_failure res = (case res of Some err \<Rightarrow> if \<not> errors_Is err Canceled then Some err else None | None \<Rightarrow> None)"

section \<open>Aggregation\<close>

definition combineLatencies :: "int64 list list \<Rightarrow> int64 list" where
  "combineLatencies groups = fold (\<lambda>vs combined. combined @ vs) groups []"

definition sumChecksums :: "uint64 list \<Rightarrow> uint64" where
  "sumChecksums vs = fold (\<lambda>v sum. sum + v) vs 0"

section \<open>Sharing the events of a phase\<close>

lemma set_worker_indices:
  "0 < producers \<Longrightarrow> set (worker_indices count producers index) =
     {i. index \<le> i \<and> i < count \<and> i mod producers = index mod producers}"
proof (induction count producers index rule: worker_indices.induct)
  case (1 count producers index)
  show ?case
  proof (cases "index < count")
    case True
    have next_congruent: "index + producers \<le> i" if "index \<le> i" "i \<noteq> index" "i mod producers = index mod producers" for i
    proof -
      have "producers dvd i - index" using that(3) by (simp add: mod_eq_dvd_iff)
      moreover have "0 < i - index" using that by simp
      ultimately show ?thesis using zdvd_imp_le by fastforce
    qed
    have "set (worker_indices count producers index) =
      insert index {i. index + producers \<le> i \<and> i < count \<and> i mod producers = index mod producers}"
      using True 1 by (simp add: worker_indices.simps [of count producers index])
    also have "\<dots> = {i. index \<le> i \<and> i < count \<and> i mod producers = index mod producers}"
      using True 1(2) next_congruent by force
    finally show ?thesis .
  next
    case False
    then show ?thesis by (auto simp: worker_indices.simps [of count producers index])
  qed
qed

lemma sorted_worker_indices: "0 < producers \<Longrightarrow> sorted_wrt (<) (worker_indices count producers index)"
proof (induction count producers index rule: worker_indices.induct)
  case (1 count producers index)
  show ?case
  proof (cases "index < count")
    case True
    have "\<forall>i \<in> set (worker_indices count producers (index + producers)). index < i"
      using 1(2) by (auto simp: set_worker_indices)
    with True 1 show ?thesis by (simp add: worker_indices.simps [of count producers index])
  next
    case False
    then show ?thesis by (simp add: worker_indices.simps [of count producers index])
  qed
qed

lemma worker_of_index:
  assumes "0 < producers" "0 \<le> p" "p < producers"
  shows "i \<in> set (worker_indices count producers p) \<longleftrightarrow> 0 \<le> i \<and> i < count \<and> p = i mod producers"
proof -
  have "p \<le> i" if "0 \<le> i" "p = i mod producers" using that assms(1) zmod_le_nonneg_dividend by blast
  moreover have "p mod producers = p" using assms by simp
  ultimately show ?thesis using assms by (auto simp: set_worker_indices)
qed

section \<open>Waiting for sequences\<close>

text \<open>The other goroutines of a turn never move one of the sequences back.\<close>

definition forward_turn :: "addr set \<Rightarrow> (heap \<times> 'b) turn \<Rightarrow> bool" where
  "forward_turn S t \<longleftrightarrow>
     (\<forall>hb. \<forall>s \<in> S. \<forall>f \<in> {t_pre t, t_park t}. Sequence_Load s (fst hb) \<le> Sequence_Load s (fst (f hb)))"

lemma wait_sequence_forward:
  assumes "wait_sequence ts s target hb = Some (res, ts', hb')" "\<forall>t \<in> set ts. forward_turn S t"
  shows "set ts' \<subseteq> set ts \<and> (\<forall>s' \<in> S. Sequence_Load s' (fst hb) \<le> Sequence_Load s' (fst hb')) \<and>
    (res = None \<longrightarrow> target \<le> Sequence_Load s (fst hb'))"
  using assms
proof (induction ts arbitrary: hb)
  case (Cons t ts)
  obtain h b where pre: "t_pre t hb = (h, b)" by fastforce
  have f1: "Sequence_Load s' (fst hb) \<le> Sequence_Load s' h" if "s' \<in> S" for s'
    using Cons.prems(2) that pre by (metis (no_types, lifting) forward_turn_def fst_conv insertI1 list.set_intros(1))
  have f2: "Sequence_Load s' h \<le> Sequence_Load s' (fst (t_park t (h, b)))" if "s' \<in> S" for s'
    using Cons.prems(2) that by (fastforce simp: forward_turn_def)
  consider (reached) "\<not> Sequence_Load s h < target" | (ctx) err where "Sequence_Load s h < target" "t_ctx t = Some err"
    | (again) "Sequence_Load s h < target" "t_ctx t = None" by (cases "t_ctx t") auto
  then show ?case
  proof cases
    case reached
    with Cons.prems(1) pre have "res = None" "ts' = ts" "hb' = (h, b)" by simp_all
    with reached f1 show ?thesis by auto
  next
    case ctx
    with Cons.prems(1) pre have "res = Some err" "ts' = ts" "hb' = (h, b)" by simp_all
    with f1 show ?thesis by auto
  next
    case again
    with Cons.prems(1) pre have "wait_sequence ts s target (t_park t (h, b)) = Some (res, ts', hb')" by simp
    note ih = Cons.IH [OF this]
    have "Sequence_Load s' (fst hb) \<le> Sequence_Load s' (fst hb')" if "s' \<in> S" for s'
      using ih Cons.prems(2) f1 [OF that] f2 [OF that] that by fastforce
    with ih Cons.prems(2) show ?thesis by auto
  qed
qed simp

lemma waitForSequences_reached:
  assumes "waitForSequences ts ss target hb = Some (res, ts', hb')" "\<forall>t \<in> set ts. forward_turn S t" "set ss \<subseteq> S"
  shows "(\<forall>s \<in> S. Sequence_Load s (fst hb) \<le> Sequence_Load s (fst hb')) \<and>
    (res = None \<longrightarrow> (\<forall>s \<in> set ss. target \<le> Sequence_Load s (fst hb')))"
  using assms
proof (induction ss arbitrary: ts hb)
  case (Cons s ss)
  from Cons.prems(1) obtain r1 ts1 hb1 where w: "wait_sequence ts s target hb = Some (r1, ts1, hb1)"
    by (auto split: option.splits)
  note fw = wait_sequence_forward [OF w Cons.prems(2)]
  show ?case
  proof (cases r1)
    case None
    with Cons.prems(1) w have rest: "waitForSequences ts1 ss target hb1 = Some (res, ts', hb')" by simp
    have "\<forall>t \<in> set ts1. forward_turn S t" "set ss \<subseteq> S" using fw Cons.prems(2,3) by auto
    note ih = Cons.IH [OF rest this]
    then have "Sequence_Load s' (fst hb) \<le> Sequence_Load s' (fst hb')" if "s' \<in> S" for s'
      using fw that by (meson order_trans)
    moreover have "target \<le> Sequence_Load s (fst hb')" using fw ih None Cons.prems(3) by (meson list.set_intros(1) order_trans subset_iff)
    ultimately show ?thesis using ih by auto
  next
    case (Some err)
    with Cons.prems(1) w fw show ?thesis by auto
  qed
qed simp

section \<open>Wiring the processors\<close>

text \<open>Both sequencers create barriers and register gates as the base does.\<close>

definition base_methods :: "'a sequencerBase_scheme Sequencer \<Rightarrow> bool" where
  "base_methods m \<longleftrightarrow>
     seq_NewBarrier m = (\<lambda>deps hs. let (b, h1) = base_NewBarrier deps hs in (b, h1, snd hs)) \<and>
     seq_AddGatingSequences m = base_AddGatingSequences"

lemma base_methods_single: "base_methods singleSequencer"
  by (simp add: base_methods_def singleSequencer_def single_NewBarrier_def fun_eq_iff)

lemma base_methods_multi: "base_methods multiSequencer"
  by (simp add: base_methods_def multiSequencer_def multi_NewBarrier_def fun_eq_iff)

text \<open>A list of processors wired in a row: who depends on what, from which addresses on.\<close>

definition wired ::
  "bool \<Rightarrow> addr \<Rightarrow> addr option \<Rightarrow> int64 \<Rightarrow> (nat, 's) BatchProcessor list \<Rightarrow> bool"
where
  "wired pipeline cur dependency bsize ps \<longleftrightarrow>
     (\<forall>i < length ps.
        sb_cursor (bp_barrier (ps ! i)) = cur \<and> bp_maxBatchSize (ps ! i) = bsize \<and>
        sb_dependent (bp_barrier (ps ! i)) =
          (if pipeline
           then case (if i = 0 then dependency else Some (bp_sequence (ps ! (i - 1)))) of
                  Some s \<Rightarrow> GroupReader [s] | None \<Rightarrow> SequenceReader cur
           else SequenceReader cur))"

lemma wired_Cons:
  assumes "wired pipeline cur (Some (bp_sequence p)) bsize ps"
    and "sb_cursor (bp_barrier p) = cur" "bp_maxBatchSize p = bsize"
    and "sb_dependent (bp_barrier p) =
      (if pipeline then case dependency of Some s \<Rightarrow> GroupReader [s] | None \<Rightarrow> SequenceReader cur
       else SequenceReader cur)"
  shows "wired pipeline cur dependency bsize (p # ps)"
  unfolding wired_def
proof (intro allI impI)
  fix i
  assume i: "i < length (p # ps)"
  show "sb_cursor (bp_barrier ((p # ps) ! i)) = cur \<and> bp_maxBatchSize ((p # ps) ! i) = bsize \<and>
    sb_dependent (bp_barrier ((p # ps) ! i)) =
      (if pipeline
       then case (if i = 0 then dependency else Some (bp_sequence ((p # ps) ! (i - 1)))) of
              Some s \<Rightarrow> GroupReader [s] | None \<Rightarrow> SequenceReader cur
       else SequenceReader cur)"
  proof (cases i)
    case (Suc j)
    with assms(1) i show ?thesis by (cases j) (auto simp: wired_def)
  qed (use assms in simp)
qed

text \<open>What starting allocates lies above what was there, which stays as it was.\<close>

definition grown :: "heap \<Rightarrow> heap \<Rightarrow> bool" where
  "grown h h' \<longleftrightarrow>
     next_addr h \<le> next_addr h' \<and>
     (\<forall>a < next_addr h. Sequence_Load a h' = Sequence_Load a h \<and> flags h' a = flags h a)"

lemma grown_trans: "grown h1 h2 \<Longrightarrow> grown h2 h3 \<Longrightarrow> grown h1 h3"
  by (auto simp: grown_def)

lemma grown_barrier: "grown h (snd (base_NewBarrier deps (h, b)))"
  by (auto simp: grown_def base_NewBarrier_def new_flag_def Let_def Sequence_Load_def)

lemma start_loop_wires:
  assumes "base_methods (methods r)" "1 \<le> lt_batchSize cfg"
  shows "\<exists>ps h'. start_loop cfg pipeline is dependency (h, r) = (Inr ps, h', r) \<and>
    length ps = length is \<and> wired pipeline (cursor (sequencer r)) dependency (lt_batchSize cfg) ps \<and>
    sorted_wrt (<) (map bp_sequence ps) \<and> grown h h' \<and>
    (\<forall>p \<in> set ps. next_addr h \<le> bp_sequence p \<and> bp_sequence p < next_addr h' \<and>
       Sequence_Load (bp_sequence p) h' = InitialSequence)"
proof (induction "is" arbitrary: dependency h)
  case Nil
  show ?case by (simp add: wired_def grown_def)
next
  case (Cons i "is")
  let ?nb = "\<lambda>deps h. base_NewBarrier deps (h, sequencer r)"
  have nb: "RingBuffer_NewBarrier deps (h', r) = (fst (?nb deps h'), snd (?nb deps h'), r)" for deps h'
    using assms(1) by (simp add: RingBuffer_NewBarrier_def base_methods_def split_def Let_def)
  define chained where "chained = (pipeline \<and> dependency \<noteq> None)"
  define h1 where "h1 = (if chained then snd (?nb [the dependency] (snd (?nb [] h))) else snd (?nb [] h))"
  define b where "b = (if chained then fst (?nb [the dependency] (snd (?nb [] h))) else fst (?nb [] h))"
  have bar: "(case dependency of
       Some s \<Rightarrow> if pipeline then RingBuffer_NewBarrier [s] (snd (?nb [] h), r) else (fst (?nb [] h), snd (?nb [] h), r)
     | None \<Rightarrow> (fst (?nb [] h), snd (?nb [] h), r)) = (b, h1, r)"
    by (cases dependency) (simp_all add: nb b_def h1_def chained_def)
  have g1: "grown h h1" unfolding h1_def by (simp add: grown_barrier grown_trans [OF grown_barrier grown_barrier])
  have bd: "sb_cursor b = cursor (sequencer r)" "sb_dependent b =
      (if pipeline then case dependency of Some s \<Rightarrow> GroupReader [s] | None \<Rightarrow> SequenceReader (cursor (sequencer r))
       else SequenceReader (cursor (sequencer r)))"
    by (auto simp: b_def chained_def base_NewBarrier_def Let_def split_def split: option.splits)
  let ?rl = "lt_mode cfg = ''latency'' \<and> (\<not> pipeline \<or> int i = i64 (lt_consumers cfg - 1))"
  define p where "p = \<lparr>bp_barrier = b, bp_handler = load_handler i ?rl, bp_sequence = next_addr h1,
    bp_maxBatchSize = lt_batchSize cfg\<rparr>"
  define h2 where "h2 = snd (NewSequence InitialSequence h1)"
  have np: "NewBatchProcessor b (Some (load_handler i ?rl)) [WithMaxBatchSize (lt_batchSize cfg)] h1 = (Inr p, h2)"
    using assms(2) by (simp add: NewBatchProcessor_def WithMaxBatchSize_def NewSequence_def p_def h2_def)
  have g2: "grown h1 h2" "next_addr h2 = Suc (next_addr h1)" "Sequence_Load (next_addr h1) h2 = InitialSequence"
    by (auto simp: h2_def grown_def NewSequence_def Sequence_Load_def)
  from Cons.IH [of "Some (bp_sequence p)" h2] obtain ps h' where
    rec: "start_loop cfg pipeline is (Some (bp_sequence p)) (h2, r) = (Inr ps, h', r)" "length ps = length is"
      "wired pipeline (cursor (sequencer r)) (Some (bp_sequence p)) (lt_batchSize cfg) ps"
      "sorted_wrt (<) (map bp_sequence ps)" "grown h2 h'"
      "\<forall>p \<in> set ps. next_addr h2 \<le> bp_sequence p \<and> bp_sequence p < next_addr h' \<and>
         Sequence_Load (bp_sequence p) h' = InitialSequence" by blast
  have "start_loop cfg pipeline (i # is) dependency (h, r) = (Inr (p # ps), h', r)"
    using rec(1) np bar by (simp add: nb Let_def)
  moreover have "wired pipeline (cursor (sequencer r)) dependency (lt_batchSize cfg) (p # ps)"
    using rec(3) bd by (intro wired_Cons) (simp_all add: p_def)
  moreover have "sorted_wrt (<) (map bp_sequence (p # ps))" using rec(4,6) g2(2) by (auto simp: p_def)
  moreover have "grown h h'" using g1 g2(1) rec(5) grown_trans by blast
  moreover have "next_addr h \<le> bp_sequence p \<and> bp_sequence p < next_addr h' \<and>
      Sequence_Load (bp_sequence p) h' = InitialSequence"
    using g1 g2 rec(5) by (auto simp: grown_def p_def)
  moreover have "\<forall>q \<in> set ps. next_addr h \<le> bp_sequence q" using g1 g2 rec(6) by (auto simp: grown_def)
  ultimately show ?case using rec(2,6) by auto
qed

lemma map_filter_Some: "List.map_filter (\<lambda>s. s) (map Some xs) = xs"
  by (induction xs) (simp_all add: List.map_filter_simps)

lemma validateConfig_accepts:
  assumes "validateConfig cfg = None"
  shows "1 \<le> lt_batchSize cfg" "1 \<le> lt_consumers cfg" "1 \<le> lt_producers cfg" "1 \<le> lt_events cfg"
    "0 \<le> lt_payloadSize cfg" "lt_mode cfg = ''latency'' \<Longrightarrow> 1 \<le> lt_sampleEvery cfg"
    "\<exists>m. parseProducerWait (lt_producerWait cfg) = Inr m"
  using assms by (auto simp: validateConfig_def split: if_splits sum.splits)

text \<open>What \<open>startProcessors\<close> returns, and the gates it registers on the grown store.\<close>

definition terminal_of :: "config \<Rightarrow> (nat, 's) BatchProcessor list \<Rightarrow> addr list" where
  "terminal_of cfg ps =
     (if lt_topology cfg = ''pipeline'' then [bp_sequence (last ps)] else map bp_sequence ps)"

lemma wired_stages:
  "wired pipeline cur None bsize ps \<longleftrightarrow>
     (\<forall>i < length ps. sb_cursor (bp_barrier (ps ! i)) = cur \<and> bp_maxBatchSize (ps ! i) = bsize \<and>
        sb_dependent (bp_barrier (ps ! i)) =
          (if pipeline \<and> 0 < i then GroupReader [bp_sequence (ps ! (i - 1))] else SequenceReader cur))"
  by (auto simp: wired_def)

lemma startProcessors_result:
  assumes "validateConfig cfg = None" "base_methods (methods r)"
    and "\<not> flags h (closed_flag (sequencer r))" "gating (sequencer r) = []"
    and "cursor (sequencer r) < next_addr h" "closed_flag (sequencer r) < next_addr h"
  shows "\<exists>ps h1 h' s'. startProcessors cfg (h, r) = (Inr (ps, terminal_of cfg ps), h', r\<lparr>sequencer := s'\<rparr>) \<and>
    length ps = nat (lt_consumers cfg) \<and> sorted_wrt (<) (map bp_sequence ps) \<and> grown h h1 \<and>
    wired (lt_topology cfg = ''pipeline'') (cursor (sequencer r)) None (lt_batchSize cfg) ps \<and>
    base_AddGatingSequences (map Some (terminal_of cfg ps)) (h1, sequencer r) = (h', s') \<and>
    gating s' = terminal_of cfg ps \<and> cursor s' = cursor (sequencer r) \<and>
    (\<forall>a. Sequence_Load a h' =
       (if a \<in> set (terminal_of cfg ps) then Sequence_Load (cursor (sequencer r)) h else Sequence_Load a h1)) \<and>
    (\<forall>p \<in> set ps. next_addr h \<le> bp_sequence p \<and> Sequence_Load (bp_sequence p) h1 = InitialSequence)"
proof -
  let ?pl = "lt_topology cfg = ''pipeline''" let ?s = "sequencer r"
  note acc = validateConfig_accepts [OF assms(1)]
  from start_loop_wires [OF assms(2) acc(1), of ?pl "[0..<nat (lt_consumers cfg)]" None h]
  obtain ps h1 where sl: "start_loop cfg ?pl [0..<nat (lt_consumers cfg)] None (h, r) = (Inr ps, h1, r)"
    and f: "length ps = nat (lt_consumers cfg)" "wired ?pl (cursor ?s) None (lt_batchSize cfg) ps"
      "sorted_wrt (<) (map bp_sequence ps)" "grown h h1"
      "\<forall>p \<in> set ps. next_addr h \<le> bp_sequence p \<and> Sequence_Load (bp_sequence p) h1 = InitialSequence" by auto
  define T where "T = terminal_of cfg ps"
  have op: "\<not> flags h1 (closed_flag ?s)" and cur: "Sequence_Load (cursor ?s) h1 = Sequence_Load (cursor ?s) h"
    using f(4) assms(3,5,6) by (simp_all add: grown_def)
  obtain h' s' where ag: "base_AddGatingSequences (map Some T) (h1, ?s) = (h', s')" by fastforce
  have s': "gating s' = T" "cursor s' = cursor ?s"
    and h': "Sequence_Load a h' = (if a \<in> set T then Sequence_Load (cursor ?s) h else Sequence_Load a h1)" for a
    using ag AddGatingSequences_open [OF op, of "map Some T"] assms(4) cur
    by (auto simp: map_filter_Some add_gates_Load)
  have "startProcessors cfg (h, r) = (Inr (ps, T), h', r\<lparr>sequencer := s'\<rparr>)"
    using sl ag assms(2)
    by (simp add: T_def terminal_of_def startProcessors_def RingBuffer_AddGatingSequences_def on_sequencer_def base_methods_def)
  with f s' h' ag show ?thesis unfolding T_def by blast
qed

section \<open>From the wiring to the contract of a run\<close>

text \<open>
  What the load test needs of a ring on top of \<open>gated_log\<close>: gates can be registered on a fresh one.
\<close>

locale fresh_log = gated_log +
  assumes shared_methods: "base_methods (rl_methods L)"
    and nothing_live: "rl_claimed L hs = -1 \<Longrightarrow> \<not> rl_live L q hs"
    and fresh_gates: "rl_ok L (h, s) \<Longrightarrow> rl_claimed L (h, s) = -1 \<Longrightarrow> Sequence_Load (cursor s) h = -1 \<Longrightarrow>
      \<not> flags h (closed_flag s) \<Longrightarrow> cursor s \<notin> set gs \<Longrightarrow>
      base_AddGatingSequences (map Some gs) (h, s) = (h', s') \<Longrightarrow> rl_ok L (h', s') \<and> rl_claimed L (h', s') = -1"

definition fresh_ring :: "'a sequencerBase_scheme ring_log \<Rightarrow> ('t, 'a sequencerBase_scheme) ring_state \<Rightarrow> bool" where
  "fresh_ring L hr \<longleftrightarrow>
     (let (h, r) = hr; s = sequencer r in
      methods r = rl_methods L \<and> rl_ok L (h, s) \<and> rl_claimed L (h, s) = -1 \<and> Sequence_Load (cursor s) h = -1 \<and>
      gating s = [] \<and> \<not> flags h (closed_flag s) \<and> cursor s < next_addr h \<and> closed_flag s < next_addr h)"

definition start_world :: "('t, 'b) ring_state \<Rightarrow> 's \<Rightarrow> ('t, 'b, 's) world" where
  "start_world hr app = (fst hr, \<lparr>sys_ring = snd hr, sys_state = processorIdle, sys_app = app\<rparr>)"

context fresh_log
begin

lemma processor_ready:
  assumes fresh: "fresh_ring L (h, r)" and acc: "validateConfig cfg = None"
  shows "\<exists>ps terminal hr'. startProcessors cfg (h, r) = (Inr (ps, terminal), hr') \<and>
    length ps = nat (lt_consumers cfg) \<and>
    (\<forall>p \<in> set ps. 1 \<le> bp_maxBatchSize p \<and> log_world L p skip (start_world hr' app))"
proof -
  let ?s = "sequencer r" let ?c = "cursor ?s"
  have fr: "methods r = rl_methods L" "rl_ok L (h, ?s)" "rl_claimed L (h, ?s) = -1" "Sequence_Load ?c h = -1"
    "gating ?s = []" "\<not> flags h (closed_flag ?s)" "?c < next_addr h" "closed_flag ?s < next_addr h"
    using fresh by (simp_all add: fresh_ring_def Let_def)
  have m: "base_methods (methods r)" using fr(1) shared_methods by simp
  from startProcessors_result [OF acc m fr(6,5,7,8)] obtain ps h1 h' s' where
    st: "startProcessors cfg (h, r) = (Inr (ps, terminal_of cfg ps), h', r\<lparr>sequencer := s'\<rparr>)"
    and f: "length ps = nat (lt_consumers cfg)" "sorted_wrt (<) (map bp_sequence ps)" "grown h h1"
      "wired (lt_topology cfg = ''pipeline'') ?c None (lt_batchSize cfg) ps"
      "base_AddGatingSequences (map Some (terminal_of cfg ps)) (h1, ?s) = (h', s')"
      "gating s' = terminal_of cfg ps" "cursor s' = ?c"
    and ld: "\<forall>a. Sequence_Load a h' = (if a \<in> set (terminal_of cfg ps) then Sequence_Load ?c h else Sequence_Load a h1)"
    and own: "\<forall>p \<in> set ps. next_addr h \<le> bp_sequence p \<and> Sequence_Load (bp_sequence p) h1 = InitialSequence"
    by blast
  have ne: "ps \<noteq> []" using f(1) validateConfig_accepts(2) [OF acc] by auto
  have T: "set (terminal_of cfg ps) \<subseteq> bp_sequence ` set ps" "terminal_of cfg ps \<noteq> []"
    using ne by (auto simp: terminal_of_def)
  have cT: "?c \<notin> set (terminal_of cfg ps)" using T(1) own fr(7) by fastforce
  have h1: "Sequence_Load ?c h1 = -1" "\<not> flags h1 (closed_flag ?s)" using f(3) fr(4,6-8) by (simp_all add: grown_def)
  have "same_log L (h, ?s) (h1, ?s)" by (rule frame [OF fr(2)]) (use f(3) fr(5,7) in \<open>auto simp: grown_def\<close>)
  then have ok1: "rl_ok L (h1, ?s)" "rl_claimed L (h1, ?s) = -1" using fr(3) by (simp_all add: same_log_def)
  note ok' = fresh_gates [OF ok1 h1 cT f(5)]
  have load: "Sequence_Load (bp_sequence p) h' = -1" if "p \<in> set ps" for p
    using ld own that fr(4) by (simp add: InitialSequence_def)
  have cur: "Sequence_Load ?c h' = -1" using ld cT h1(1) by simp
  have "log_world L (ps ! i) skip (start_world (h', r\<lparr>sequencer := s'\<rparr>) app)" if i: "i < length ps" for i
  proof -
    let ?p = "ps ! i" let ?d = "sb_dependent (bp_barrier ?p)"
    have p: "?p \<in> set ps" using i by simp
    have dep: "?d = (if lt_topology cfg = ''pipeline'' \<and> 0 < i then GroupReader [bp_sequence (ps ! (i - 1))] else SequenceReader ?c)"
      using f(4) i by (simp add: wired_stages)
    have prev: "ps ! (i - 1) \<in> set ps" "0 < i \<Longrightarrow> bp_sequence (ps ! (i - 1)) < bp_sequence ?p"
      using i f(2) by (auto simp: sorted_wrt_iff_nth_less)
    have ge: "next_addr h \<le> bp_sequence ?p" using own p by blast
    then have "bp_sequence ?p \<noteq> ?c" using fr(7) by simp
    moreover from this have "bp_sequence ?p \<notin> set (reader_addrs ?d)" using dep prev(2) by auto
    moreover have "sequenceReader_Load ?d h' = -1" using dep load [OF prev(1)] cur by auto
    moreover have "covered (bp_sequence ?p) (h', s')"
      using T load [OF p] ld fr(4) f(6) unfolding covered_def
      by (intro bexI [of _ "hd (terminal_of cfg ps)"]) simp_all
    moreover have "log_ring L skip (h', r\<lparr>sequencer := s'\<rparr>)"
      using fr(1) ok' nothing_live by (simp add: log_ring_def)
    ultimately show ?thesis using load [OF p] cur f(7) by (simp add: log_world_def start_world_def run_limit_def)
  qed
  moreover have "\<forall>p \<in> set ps. bp_maxBatchSize p = lt_batchSize cfg"
    using f(4) by (auto simp: wired_stages in_set_conv_nth)
  ultimately show ?thesis using st f(1) validateConfig_accepts(1) [OF acc] by (auto simp: in_set_conv_nth)
qed

end

interpretation multi_fresh: fresh_log multiLog
proof (unfold_locales, goal_cases)
  case 1
  show ?case by (simp add: multiLog_def base_methods_multi)
next
  case (2 hs q)
  then show ?case by (cases hs) (simp add: multiLog_def multi_claimed_def multi_live_def)
next
  case (3 h s gs h' s')
  have c: "Some (cursor s) \<notin> set (map Some gs)" using 3(5) by auto
  have "Sequence_Load (cursor s) h' = -1" "cursor s' = cursor s"
    using 3 by (auto simp: AddGatingSequences_open add_gates_Load)
  with multi_ok_add_gates [OF _ 3(4) c] 3 show ?case by (simp add: multiLog_def multi_claimed_def)
qed

interpretation single_fresh: fresh_log singleLog
proof (unfold_locales, goal_cases)
  case 1
  show ?case by (simp add: singleLog_def base_methods_single)
next
  case (2 hs q)
  then show ?case by (cases hs) (simp add: singleLog_def single_live_def)
next
  case (3 h s gs h' s')
  have lok: "single_log_ok (h, s)" and nv: "nextValue s = -1" using 3(1,2) by (simp_all add: singleLog_def)
  then have ok: "single_ok (h, s)" by (simp add: single_log_ok_def)
  have c: "Some (cursor s) \<notin> set (map Some gs)" using 3(5) by auto
  have s': "Sequence_Load (cursor s) h' = -1" "cursor s' = cursor s" "nextValue s' = -1" "bufferSize s' = bufferSize s"
    "discarded s' = discarded s"
    using 3 nv by (auto simp: AddGatingSequences_open add_gates_Load)
  have "0 < bufferSize s" using ok by (simp add: single_ok_def ring_size_pos)
  then have "cachedGate s \<le> -1" "nextValue s - bufferSize s \<le> -1" using ok nv by (auto simp: single_ok_def)
  then have "single_ok (h', s')" using single_ok_add_gates [OF ok 3(4) c] 3(3,6) by simp
  then have "single_log_ok (h', s')" by (rule single_log_ok_cong [OF lok]) (use s' 3(3) in simp_all)
  with s' show ?case by (simp add: singleLog_def)
qed

lemma new_base_fresh:
  assumes "newSequencerBase bsize wait mode h = (b, h')"
  shows "cursor b < next_addr h'" "closed_flag b < next_addr h'" "\<not> flags h' (closed_flag b)" "gating b = []"
    "Sequence_Load (cursor b) h' = -1"
  using assms
  by (auto simp: newSequencerBase_def NewSequence_def newProducerWaiter_def make_chan_def new_flag_def
      Sequence_Load_def InitialSequence_def Let_def split: option.splits prod.splits if_splits)

lemma new_sequencer_fresh:
  "newSingleProducerSequencer bsize wait mode h = (s1, h1) \<Longrightarrow> cursor s1 < next_addr h1 \<and>
     closed_flag s1 < next_addr h1 \<and> \<not> flags h1 (closed_flag s1) \<and> gating s1 = [] \<and> Sequence_Load (cursor s1) h1 = -1"
  "newMultiProducerSequencer bsize wait mode h = (s2, h2) \<Longrightarrow> cursor s2 < next_addr h2 \<and>
     closed_flag s2 < next_addr h2 \<and> \<not> flags h2 (closed_flag s2) \<and> gating s2 = [] \<and> Sequence_Load (cursor s2) h2 = -1"
  using new_base_fresh [of bsize wait mode h]
  by (auto simp: newSingleProducerSequencer_def newMultiProducerSequencer_def sequencerBase.defs Let_def
      split: prod.splits)

lemma New_fresh:
  assumes "in_i64 bsize" "New bsize pt (Some f) wait opts h app = (Returned (Inr ring), h', app')"
  shows "case ring of SingleRing r \<Rightarrow> pt = SingleProducer \<and> fresh_ring singleLog (h', r)
    | MultiRing r \<Rightarrow> pt = MultiProducer \<and> fresh_ring multiLog (h', r)"
proof (cases ring)
  case (SingleRing r)
  with assms(2) obtain mode where "newSingleProducerSequencer bsize wait mode h = (sequencer r, h')"
    by (auto simp: New_def split: if_splits option.splits sum.splits outcome.splits prod.splits)
  from new_sequencer_fresh(1) [OF this] New_ring [OF assms] SingleRing show ?thesis
    by (auto simp: fresh_ring_def singleLog_def)
next
  case (MultiRing r)
  with assms(2) obtain mode where "newMultiProducerSequencer bsize wait mode h = (sequencer r, h')"
    by (auto simp: New_def split: if_splits option.splits sum.splits outcome.splits prod.splits)
  from new_sequencer_fresh(2) [OF this] New_ring [OF assms] MultiRing show ?thesis
    by (auto simp: fresh_ring_def multiLog_def)
qed

lemma run_ring_fresh:
  assumes "in_i64 (lt_ringSize cfg)" "run_ring cfg h ls = (Returned (Inr ring), h', ls')"
  shows "case ring of SingleRing r \<Rightarrow> \<not> 1 < lt_producers cfg \<and> fresh_ring singleLog (h', r)
    | MultiRing r \<Rightarrow> 1 < lt_producers cfg \<and> fresh_ring multiLog (h', r)"
proof -
  from assms(2) obtain m w h1 where
    "New (lt_ringSize cfg) (if lt_producers cfg > 1 then MultiProducer else SingleProducer) (Some (load_factory cfg))
       (Some w) [WithProducerWait m] h1 ls = (Returned (Inr ring), h', ls')"
    by (auto simp: run_ring_def Let_def split: sum.splits prod.splits)
  from New_fresh [OF assms(1) this] show ?thesis
    by (auto simp: MultiProducer_def SingleProducer_def split: ring.splits if_splits)
qed

section \<open>Stopping and aggregation\<close>

lemma halt_all_states:
  "map snd (fst (halt_all ps w)) =
     map (\<lambda>(p, st). if st = processorIdle then processorIdle else processorHalted) ps"
  by (induction ps w rule: halt_all.induct)
    (simp_all add: Let_def split_def Halt_state set_state_def)

text \<open>Only the first failure is looked at, so a later one is lost behind a cancelled run.\<close>

lemma stop_failure_first:
  "stop_failure (first_result i (replicate k None @ Some err # results)) =
     (if errors_Is err Canceled then None else Some (WrappedError (''processor '' @ decimal (i + k)) err))"
  by (induction k arbitrary: i)
    (simp_all add: stop_failure_def errors_Is.simps [of "WrappedError _ _"])

lemma combineLatencies_concat: "combineLatencies groups = concat groups"
proof -
  have "fold (\<lambda>vs combined. combined @ vs) groups acc = acc @ concat groups" for acc
    by (induction groups arbitrary: acc) simp_all
  then show ?thesis by (simp add: combineLatencies_def)
qed

lemma sumChecksums_sum: "sumChecksums vs = sum_list vs"
proof -
  have "fold (\<lambda>v sum. sum + v) vs acc = acc + sum_list vs" for acc
    by (induction vs arbitrary: acc) (simp_all add: ac_simps)
  then show ?thesis by (simp add: sumChecksums_def)
qed

section \<open>Properties\<close>

text \<open>
  The producers of a phase share its events without overlap: each goes through its indices in
  increasing order, and every index below the event count belongs to exactly one producer.
\<close>

theorem producers_share_events:
  assumes "0 < n"
  shows "(\<forall>p. sorted_wrt (<) (worker_indices count n p)) \<and>
    (\<forall>i. 0 \<le> i \<and> i < count \<longrightarrow> (\<exists>!p. 0 \<le> p \<and> p < n \<and> i \<in> set (worker_indices count n p))) \<and>
    (\<forall>p i. 0 \<le> p \<and> p < n \<and> i \<in> set (worker_indices count n p) \<longrightarrow> 0 \<le> i \<and> i < count)"
proof (intro conjI allI impI)
  show "sorted_wrt (<) (worker_indices count n p)" for p by (rule sorted_worker_indices [OF assms])
  show "\<exists>!p. 0 \<le> p \<and> p < n \<and> i \<in> set (worker_indices count n p)" if "0 \<le> i \<and> i < count" for i
    by (rule ex1I [of _ "i mod n"]) (use assms that worker_of_index [OF assms] in auto)
  show "0 \<le> i" "i < count" if "0 \<le> p \<and> p < n \<and> i \<in> set (worker_indices count n p)" for p i
    using that worker_of_index [OF assms, of p i count] by auto
qed

theorem producers_share_events_witness:
  "\<exists>!p. 0 \<le> p \<and> p < 3 \<and> 7 \<in> set (worker_indices 10 3 p)"
  using producers_share_events [of 3 10] by auto

text \<open>
  With an accepted configuration the processors of a repetition are wired as the topology says:
  every stage of a pipeline but the first waits for the stage before it and the last stage gates the
  producers; in a broadcast all processors wait for the cursor and all of them gate. Every processor has
  a sequence of its own, and the gates start at the cursor.
\<close>

theorem startProcessors_wires:
  assumes "validateConfig cfg = None" "base_methods (methods r)"
    and "\<not> flags h (closed_flag (sequencer r))" "gating (sequencer r) = []"
    and "cursor (sequencer r) < next_addr h" "closed_flag (sequencer r) < next_addr h"
  shows "\<exists>ps terminal h' r'. startProcessors cfg (h, r) = (Inr (ps, terminal), h', r') \<and>
    length ps = nat (lt_consumers cfg) \<and> distinct (map bp_sequence ps) \<and>
    (\<forall>i < length ps. sb_dependent (bp_barrier (ps ! i)) =
       (if lt_topology cfg = ''pipeline'' \<and> 0 < i then GroupReader [bp_sequence (ps ! (i - 1))]
        else SequenceReader (cursor (sequencer r)))) \<and>
    gating (sequencer r') =
      (if lt_topology cfg = ''pipeline'' then [bp_sequence (last ps)] else map bp_sequence ps) \<and>
    (\<forall>g \<in> set (gating (sequencer r')). Sequence_Load g h' = Sequence_Load (cursor (sequencer r)) h)"
proof -
  from startProcessors_result [OF assms] obtain ps h1 h' s' where
    st: "startProcessors cfg (h, r) = (Inr (ps, terminal_of cfg ps), h', r\<lparr>sequencer := s'\<rparr>)"
    and f: "length ps = nat (lt_consumers cfg)" "sorted_wrt (<) (map bp_sequence ps)"
      "wired (lt_topology cfg = ''pipeline'') (cursor (sequencer r)) None (lt_batchSize cfg) ps"
      "gating s' = terminal_of cfg ps"
      "\<forall>a. Sequence_Load a h' =
         (if a \<in> set (terminal_of cfg ps) then Sequence_Load (cursor (sequencer r)) h else Sequence_Load a h1)"
    by blast
  have "distinct (map bp_sequence ps)" using f(2) strict_sorted_iff by blast
  with st f(1,3-5) show ?thesis unfolding wired_stages by (auto simp: terminal_of_def)
qed

definition pipeline_config :: config where
  "pipeline_config = parseFlags\<lparr>lt_topology := ''pipeline'', lt_consumers := 3, lt_ringSize := 4\<rparr>"

definition load_ring :: "(nat, multiProducerSequencer) ring_state" where
  "load_ring =
     (fst fresh_multi,
      \<lparr>entries = [0, 1, 2, 3], rb_indexMask = 3, methods = multiSequencer, sequencer = snd fresh_multi,
       rb_discarded = False\<rparr>)"

theorem startProcessors_wires_witness:
  "\<exists>ps terminal h' r'. startProcessors pipeline_config load_ring = (Inr (ps, terminal), h', r') \<and>
     length ps = 3 \<and> gating (sequencer r') = [bp_sequence (last ps)]"
proof -
  let ?h = "fst load_ring" and ?r = "snd load_ring"
  have f: "validateConfig pipeline_config = None" "\<not> flags ?h (closed_flag (sequencer ?r))"
    "gating (sequencer ?r) = []" "cursor (sequencer ?r) < next_addr ?h"
    "closed_flag (sequencer ?r) < next_addr ?h" by code_simp+
  have m: "base_methods (methods ?r)" by (simp add: load_ring_def base_methods_multi)
  have c: "lt_topology pipeline_config = ''pipeline''" "nat (lt_consumers pipeline_config) = 3"
    by (simp_all add: pipeline_config_def)
  from startProcessors_wires [OF f(1) m f(2-5)] show ?thesis unfolding c prod.collapse by auto
qed


definition idle_state :: loadState where
  "idle_state =
     \<lparr>ls_events = (\<lambda>_. \<lparr>ev_Value = 0, ev_PublishedAt = 0, ev_Sampled = False, ev_Payload = []\<rparr>), ls_next = 0,
      ls_checksums = [], ls_latencies = [], ls_clock = 0\<rparr>"


text \<open>
  When \<open>waitForSequences\<close> returns without an error, every one of the sequences has reached the
  target, as long as nobody moves one of them back.
\<close>

theorem waitForSequences_complete:
  assumes "waitForSequences ts ss target hb = Some (None, ts', hb')" "\<forall>t \<in> set ts. forward_turn (set ss) t"
  shows "\<forall>s \<in> set ss. target \<le> Sequence_Load s (fst hb')"
  using waitForSequences_reached [OF assms] by simp

theorem waitForSequences_complete_witness:
  "waitForSequences [quiet, quiet] [7, 8] 0 (empty_heap, ()) = Some (None, [], (empty_heap, ())) \<and>
   0 \<le> Sequence_Load 7 empty_heap \<and> 0 \<le> Sequence_Load 8 empty_heap"
proof -
  have w: "waitForSequences [quiet, quiet] [7, 8] 0 (empty_heap, ()) = Some (None, [], (empty_heap, ()))"
    by (simp add: Sequence_Load_def empty_heap_def)
  from waitForSequences_complete [OF w] w show ?thesis by (simp add: forward_turn_def)
qed

end
