(* ===== verification/Float64.thy ===== *)
theory Float64
  imports Complex_Main "HOL-Library.Log_Nat"
begin

text \<open>
  The \<open>float64\<close> arithmetic of the load test report. A finite \<open>float64\<close> is the rational number it stands
  for, and every operation rounds its exact result with \<open>fl\<close>, to 53 significant bits and to even in a tie.
  The values of the report are quotients of counts and durations of at least a nanosecond, far inside the
  exponent range, so overflow and subnormal numbers do not occur.
\<close>

section \<open>Rounding\<close>

definition round_even :: "rat \<Rightarrow> int" where
  "round_even x =
     (let f = \<lfloor>x\<rfloor>; d = x - of_int f in
      if d < 1 / 2 then f else if 1 / 2 < d then f + 1 else if even f then f else f + 1)"

text \<open>The exponent of the leading bit.\<close>

definition binexp :: "rat \<Rightarrow> int" where
  "binexp x =
     (let (p, q) = quotient_of x; k = int (floorlog 2 (nat p)) - int (floorlog 2 (nat q))
      in if 2 powi k \<le> x then k else k - 1)"

definition fl :: "rat \<Rightarrow> rat" where
  "fl x =
     (if x = 0 then 0
      else let e = binexp \<bar>x\<bar> - 52 in sgn x * (of_int (round_even (\<bar>x\<bar> / 2 powi e)) * 2 powi e))"

section \<open>How far rounding moves a value\<close>

lemma round_even_near: "\<bar>of_int (round_even x) - x\<bar> \<le> 1 / 2"
proof -
  have "of_int \<lfloor>x\<rfloor> \<le> x" "x < of_int \<lfloor>x\<rfloor> + 1" by linarith+
  then show ?thesis by (auto simp: round_even_def Let_def abs_le_iff)
qed

lemma round_even_le: "x \<le> of_int k \<Longrightarrow> round_even x \<le> k"
proof -
  assume x: "x \<le> of_int k"
  show ?thesis
  proof (cases "\<lfloor>x\<rfloor> < k")
    case True
    then show ?thesis by (auto simp: round_even_def Let_def)
  next
    case False
    then have "\<lfloor>x\<rfloor> = k" "x = of_int k" using x by linarith+
    then show ?thesis by (simp add: round_even_def)
  qed
qed

lemma round_even_ge: "of_int k \<le> x \<Longrightarrow> k \<le> round_even x"
proof -
  assume "of_int k \<le> x"
  then have "k \<le> \<lfloor>x\<rfloor>" by linarith
  then show ?thesis by (auto simp: round_even_def Let_def)
qed

lemma binexp_bounds:
  assumes "0 < x"
  shows "2 powi binexp x \<le> x" "x < 2 powi (binexp x + 1)"
proof -
  obtain p q where pq: "quotient_of x = (p, q)" by fastforce
  have q: "0 < q" using quotient_of_denom_pos [OF pq] .
  have x: "x = of_int p / of_int q" using quotient_of_div [OF pq] .
  with assms q have p: "0 < p" by (simp add: zero_less_divide_iff)
  define a b where "a = floorlog 2 (nat p)" "b = floorlog 2 (nat q)"
  have ab: "0 < a" "0 < b" using p q by (simp_all add: a_b_def floorlog_def)
  have "2 ^ (a - 1) \<le> nat p \<and> nat p < 2 ^ a" "2 ^ (b - 1) \<le> nat q \<and> nat q < 2 ^ b"
    using floorlog_bounds [of "nat p" 2] floorlog_bounds [of "nat q" 2] p q by (simp_all add: a_b_def)
  then have i: "2 ^ (a - 1) \<le> p" "p < 2 ^ a" "2 ^ (b - 1) \<le> q" "q < 2 ^ b"
    using p q by (auto simp: le_nat_iff nat_less_iff)
  have P: "(2 :: rat) powi (int a - 1) \<le> of_int p" "of_int p < (2 :: rat) powi int a"
    "(2 :: rat) powi (int b - 1) \<le> of_int q" "of_int q < (2 :: rat) powi int b"
    using i ab by (simp_all add: power_int_def nat_diff_distrib' flip: of_int_le_iff of_int_less_iff)
  define k where "k = int a - int b"
  have Q: "0 < (of_int q :: rat)" "0 < (of_int p :: rat)" using p q by simp_all
  have "(2 :: rat) powi (k - 1) * 2 powi int b = 2 powi (k - 1 + int b)"
    "(2 :: rat) powi (k + 1) * 2 powi (int b - 1) = 2 powi (k + 1 + (int b - 1))" by (rule power_int_add [symmetric], simp)+
  moreover have "k - 1 + int b = int a - 1" "k + 1 + (int b - 1) = int a" by (simp_all add: k_def)
  ultimately have e: "(2 :: rat) powi (k - 1) * 2 powi int b = 2 powi (int a - 1)"
    "(2 :: rat) powi (k + 1) * 2 powi (int b - 1) = 2 powi int a" by (simp_all only:)
  have "2 powi (k - 1) * of_int q < (2 :: rat) powi (k - 1) * 2 powi int b" using P(4) by (intro mult_strict_left_mono) simp_all
  moreover have "(2 :: rat) powi (k + 1) * 2 powi (int b - 1) \<le> 2 powi (k + 1) * of_int q" using P(3) by (intro mult_left_mono) simp_all
  ultimately have lo: "2 powi (k - 1) < x" and hi: "x < 2 powi (k + 1)"
    using P(1,2) Q e by (auto simp only: x pos_less_divide_eq pos_divide_less_eq)
  have be: "binexp x = (if 2 powi k \<le> x then k else k - 1)" by (simp add: binexp_def pq a_b_def k_def Let_def)
  show "2 powi binexp x \<le> x" "x < 2 powi (binexp x + 1)" using be lo hi by (auto simp: not_le)
qed

lemma fl_pos:
  "0 < x \<Longrightarrow> fl x = of_int (round_even (x / 2 powi (binexp x - 52))) * 2 powi (binexp x - 52)"
  by (simp add: fl_def Let_def)

text \<open>The relative error is at most half a unit in the last place.\<close>

lemma fl_error:
  assumes "0 < x" shows "\<bar>fl x - x\<bar> \<le> x / 2 ^ 53"
proof -
  let ?u = "(2 :: rat) powi (binexp x - 52)" and ?r = "of_int (round_even (x / 2 powi (binexp x - 52))) :: rat"
  have u: "0 < ?u" by simp
  have "fl x - x = (?r - x / ?u) * ?u" using u by (simp add: fl_pos [OF assms] left_diff_distrib)
  then have "\<bar>fl x - x\<bar> = \<bar>?r - x / ?u\<bar> * ?u" using u by (simp add: abs_mult)
  also have "\<dots> \<le> 1 / 2 * ?u" using round_even_near u by (intro mult_right_mono) auto
  also have "\<dots> = 2 powi binexp x / 2 ^ 53" by (simp add: power_int_diff)
  also have "\<dots> \<le> x / 2 ^ 53" using binexp_bounds(1) [OF assms] by (simp add: divide_right_mono)
  finally show ?thesis .
qed

text \<open>Rounding does not cross an integer below \<open>2^53\<close>.\<close>

lemma fl_scaled_int:
  assumes "0 < x" "x < 2 ^ 53"
  shows "\<exists>m. (of_int k :: rat) / 2 powi (binexp x - 52) = of_int (k * m) \<and>
    (of_int m :: rat) * 2 powi (binexp x - 52) = 1"
proof -
  have "(2 :: rat) powi binexp x < 2 powi 53" using binexp_bounds(1) [OF assms(1)] assms(2) by simp
  then have "binexp x \<le> 52" using power_int_increasing [of 53 "binexp x" "2 :: rat"] by (cases "binexp x \<le> 52") auto
  then have u: "(2 :: rat) powi (binexp x - 52) = 1 / of_int (2 ^ nat (52 - binexp x))"
    by (simp add: power_int_def power_one_over nat_diff_distrib')
  show ?thesis by (rule exI [of _ "2 ^ nat (52 - binexp x)"]) (simp add: u)
qed

lemma fl_le_int:
  assumes "0 < x" "x < 2 ^ 53" "x \<le> of_int k" shows "fl x \<le> of_int k"
proof -
  let ?u = "(2 :: rat) powi (binexp x - 52)"
  have u: "0 < ?u" by simp
  obtain m where m: "(of_int k :: rat) / ?u = of_int (k * m)" "(of_int m :: rat) * ?u = 1"
    using fl_scaled_int [OF assms(1,2)] by blast
  have "x / ?u \<le> of_int (k * m)" using divide_right_mono [OF assms(3), of ?u] u m(1) by simp
  then have "of_int (round_even (x / ?u)) \<le> (of_int (k * m) :: rat)" using round_even_le by (simp only: of_int_le_iff)
  then have "of_int (round_even (x / ?u)) * ?u \<le> of_int k * (of_int m * ?u)"
    using mult_right_mono [of _ _ ?u] u by (fastforce simp: mult.assoc)
  then show ?thesis using m(2) by (simp add: fl_pos [OF assms(1)])
qed

lemma fl_ge_int:
  assumes "0 < x" "x < 2 ^ 53" "of_int k \<le> x" shows "of_int k \<le> fl x"
proof -
  let ?u = "(2 :: rat) powi (binexp x - 52)"
  have u: "0 < ?u" by simp
  obtain m where m: "(of_int k :: rat) / ?u = of_int (k * m)" "(of_int m :: rat) * ?u = 1"
    using fl_scaled_int [OF assms(1,2)] by blast
  have "of_int (k * m) \<le> x / ?u" using divide_right_mono [OF assms(3), of ?u] u m(1) by simp
  then have "(of_int (k * m) :: rat) \<le> of_int (round_even (x / ?u))" using round_even_ge by (simp only: of_int_le_iff)
  then have "of_int k * (of_int m * ?u) \<le> of_int (round_even (x / ?u)) * ?u"
    using mult_right_mono [of _ _ ?u] u by (fastforce simp: mult.assoc)
  then show ?thesis using m(2) by (simp add: fl_pos [OF assms(1)])
qed

lemma fl_int: "0 \<le> k \<Longrightarrow> k < 2 ^ 53 \<Longrightarrow> fl (of_int k) = of_int k"
proof (cases "k = 0")
  case False
  assume "0 \<le> k" "k < 2 ^ 53"
  with False have "0 < (of_int k :: rat)" "(of_int k :: rat) < 2 ^ 53" by (simp_all flip: of_int_less_iff)
  then show ?thesis by (intro antisym fl_le_int fl_ge_int) simp_all
qed (simp add: fl_def)

lemma fl_0 [simp]: "fl 0 = 0"
  by (simp add: fl_def)

lemma fl_sign:
  assumes "0 < x" shows "0 < fl x"
proof -
  have "x / 2 ^ 53 < x" using assms by simp
  with fl_error [OF assms] show ?thesis by linarith
qed

end
