(* ===== verification/Load_Report.thy ===== *)
theory Load_Report
  imports Loadtest Float64 "HOL-Library.Signed_Division"
begin

text \<open>
  What the load test reports: percentiles, rates and the record that \<open>runOnce\<close> fills in from the
  measured times, memory statistics and build information, which are arguments. The percentiles are shown
  to be the nearest-rank percentiles of the samples in spite of the rounding of \<open>float64\<close>.
\<close>

section \<open>Statistics\<close>

definition percentile :: "int64 list \<Rightarrow> rat \<Rightarrow> int64" where
  "percentile vs quantile =
     (if vs = [] then 0
      else let index = \<lceil>fl (quantile * fl (of_int (int (length vs))))\<rceil> - 1;
               index1 = (if index < 0 then 0 else index);
               index2 = (if index1 \<ge> int (length vs) then int (length vs) - 1 else index1)
           in vs ! nat index2)"

text \<open>\<open>time.Duration.Seconds\<close>, and \<open>time.Time.Sub\<close>, which saturates; durations are in nanoseconds.\<close>

definition Seconds :: "int64 \<Rightarrow> rat" where
  "Seconds d = fl (fl (of_int (d sdiv 1000000000)) + fl (fl (of_int (d smod 1000000000)) / 1000000000))"

definition time_Sub :: "int64 \<Rightarrow> int64 \<Rightarrow> int64" where
  "time_Sub t u = max (- (2 ^ 63)) (min (2 ^ 63 - 1) (t - u))"

definition perSecond :: "int64 \<Rightarrow> int64 \<Rightarrow> rat" where
  "perSecond count duration = (if duration \<le> 0 then 0 else fl (fl (of_int count) / Seconds duration))"

section \<open>The build\<close>

fun revision_settings :: "(string \<times> string) list \<Rightarrow> string \<times> bool \<Rightarrow> string \<times> bool" where
  "revision_settings [] (revision, dirty) = (revision, dirty)"
| "revision_settings ((key, val) # rest) (revision, dirty) =
     revision_settings rest
       (if key = ''vcs.revision'' then (val, dirty)
        else if key = ''vcs.modified'' then (revision, val = ''true'') else (revision, dirty))"

text \<open>
  \<open>info\<close> is what \<open>debug.ReadBuildInfo\<close> returns; \<open>head\<close> and \<open>status\<close> are what the two \<open>git\<close> commands print,
  \<open>None\<close> when they fail.
\<close>

definition buildRevision :: "(string \<times> string) list option \<Rightarrow> string option \<Rightarrow> string option \<Rightarrow> string \<times> bool" where
  "buildRevision info head status =
     (let (revision, dirty) = (case info of Some settings \<Rightarrow> revision_settings settings ('''', False) | None \<Rightarrow> ('''', False))
      in if revision = ''''
         then (case head of Some out \<Rightarrow> TrimSpace out | None \<Rightarrow> revision,
               case status of Some out \<Rightarrow> length out > 0 | None \<Rightarrow> dirty)
         else (revision, dirty))"

section \<open>The report of a repetition\<close>

record runReport =
  SchemaVersion :: int64
  Run_ :: int64
  StartedAt :: string
  Commit :: string
  Dirty :: bool
  GoVersion :: string
  GOOS :: string
  GOARCH :: string
  LogicalCPUs :: int64
  GOMAXPROCS :: int64
  Environment :: string
  Mode :: string
  Topology :: string
  Events :: int64
  WarmupEvents :: int64
  Producers :: int64
  Consumers :: int64
  RingSize :: int64
  BatchSize :: int64
  ProducerWait :: string
  ConsumerWait :: string
  PayloadSizeBytes :: int64
  PayloadWorkingSetBytes :: int64
  SampleEvery :: int64
  HandlerDelayNS :: int64
  PublishSeconds :: rat
  DrainSeconds :: rat
  EndToEndSeconds :: rat
  PublishedPerSecond :: rat
  EndToEndPerSecond :: rat
  DeliveriesPerSecond :: rat
  PayloadMiBPerSecond :: rat
  AllocationBytes :: uint64
  Allocations :: uint64
  GCCount :: uint32
  LatencySamples :: int64
  LatencyP50NS :: int64
  LatencyP95NS :: int64
  LatencyP99NS :: int64
  LatencyP999NS :: int64
  LatencyMaxNS :: int64
  Checksum :: uint64

record memStats =
  TotalAlloc :: uint64
  Mallocs :: uint64
  NumGC :: uint32

text \<open>What a repetition measures: times, memory before and after, the machine and the build.\<close>

record measured =
  startedAt :: int64
  publishedAt :: int64
  completedAt :: int64
  startedText :: string
  memoryBefore :: memStats
  memoryAfter :: memStats
  goVersion :: string
  goOS :: string
  goArch :: string
  numCPU :: int64
  maxProcs :: int64
  revision :: "string \<times> bool"

definition reportSchemaVersion :: int64 where "reportSchemaVersion = 1"

definition run_report :: "config \<Rightarrow> int64 \<Rightarrow> measured \<Rightarrow> int64 list list \<Rightarrow> uint64 list \<Rightarrow> runReport" where
  "run_report cfg run m groups checksums =
     (let latencies = sort (combineLatencies groups);
          publishDuration = time_Sub (publishedAt m) (startedAt m);
          drainDuration = time_Sub (completedAt m) (publishedAt m);
          endToEndDuration = time_Sub (completedAt m) (startedAt m);
          deliveries = i64 (lt_events cfg * lt_consumers cfg)
      in \<lparr>SchemaVersion = reportSchemaVersion, Run_ = run, StartedAt = startedText m,
          Commit = fst (revision m), Dirty = snd (revision m), GoVersion = goVersion m, GOOS = goOS m,
          GOARCH = goArch m, LogicalCPUs = numCPU m, GOMAXPROCS = maxProcs m, Environment = lt_environment cfg,
          Mode = lt_mode cfg, Topology = lt_topology cfg, Events = lt_events cfg, WarmupEvents = lt_warmupEvents cfg,
          Producers = lt_producers cfg, Consumers = lt_consumers cfg, RingSize = lt_ringSize cfg,
          BatchSize = lt_batchSize cfg, ProducerWait = lt_producerWait cfg, ConsumerWait = lt_consumerWait cfg,
          PayloadSizeBytes = lt_payloadSize cfg,
          PayloadWorkingSetBytes = i64 (lt_ringSize cfg * lt_payloadSize cfg),
          SampleEvery = (if lt_mode cfg = ''latency'' then lt_sampleEvery cfg else 0),
          HandlerDelayNS = lt_handlerDelay cfg,
          PublishSeconds = Seconds publishDuration, DrainSeconds = Seconds drainDuration,
          EndToEndSeconds = Seconds endToEndDuration,
          PublishedPerSecond = perSecond (lt_events cfg) publishDuration,
          EndToEndPerSecond = perSecond (lt_events cfg) endToEndDuration,
          DeliveriesPerSecond = perSecond deliveries endToEndDuration,
          PayloadMiBPerSecond =
            (if lt_payloadSize cfg > 0
             then fl (perSecond (i64 (lt_events cfg * lt_payloadSize cfg)) endToEndDuration / (1024 * 1024)) else 0),
          AllocationBytes = TotalAlloc (memoryAfter m) - TotalAlloc (memoryBefore m),
          Allocations = Mallocs (memoryAfter m) - Mallocs (memoryBefore m),
          GCCount = NumGC (memoryAfter m) - NumGC (memoryBefore m),
          LatencySamples = int (length latencies),
          LatencyP50NS = (if latencies \<noteq> [] then percentile latencies (fl (50 / 100)) else 0),
          LatencyP95NS = (if latencies \<noteq> [] then percentile latencies (fl (95 / 100)) else 0),
          LatencyP99NS = (if latencies \<noteq> [] then percentile latencies (fl (99 / 100)) else 0),
          LatencyP999NS = (if latencies \<noteq> [] then percentile latencies (fl (999 / 1000)) else 0),
          LatencyMaxNS = (if latencies \<noteq> [] then last latencies else 0),
          Checksum = sumChecksums checksums\<rparr>)"

text \<open>The repetitions of \<open>runMain\<close>: the first failure ends the command; \<open>once\<close> is \<open>runOnce\<close>.\<close>

fun run_all :: "(int64 \<Rightarrow> error + runReport) \<Rightarrow> int64 list \<Rightarrow> error + runReport list" where
  "run_all once [] = Inr []"
| "run_all once (run # rest) =
     (case once run of
        Inl err \<Rightarrow> Inl (WrappedError (''run '' @ decimal (nat run)) err)
      | Inr report \<Rightarrow>
          (case run_all once rest of Inl err \<Rightarrow> Inl err | Inr reports \<Rightarrow> Inr (report # reports)))"

definition runMain :: "config \<Rightarrow> (int64 \<Rightarrow> error + runReport) \<Rightarrow> error + runReport list" where
  "runMain cfg once =
     (case validateConfig cfg of Some err \<Rightarrow> Inl err | None \<Rightarrow> run_all once [1..lt_repetitions cfg])"

section \<open>Nearest ranks\<close>

text \<open>
  The nearest-rank percentile: a sample with enough samples not above it, while anything smaller has too few.
\<close>

definition nearest_rank :: "rat \<Rightarrow> int64 list \<Rightarrow> int64 \<Rightarrow> bool" where
  "nearest_rank q vs v \<longleftrightarrow>
     v \<in> set vs \<and> q * of_nat (length vs) \<le> of_nat (length (filter (\<lambda>x. x \<le> v) vs)) \<and>
     (\<forall>w < v. of_nat (length (filter (\<lambda>x. x \<le> w) vs)) < q * of_nat (length vs))"

text \<open>Rounding the quantile and the product does not change the rank of up to \<open>2^40\<close> samples.\<close>

lemma float_rank:
  assumes q: "q = of_int a / 1000" "0 < a" "a \<le> 1000" "fl q \<le> q" and n: "0 < n" "n \<le> 2 ^ 40"
  shows "\<lceil>fl (fl q * fl (of_int n))\<rceil> = \<lceil>q * of_int n\<rceil>"
proof -
  let ?n = "of_int n :: rat"
  define y where "y = fl q * ?n"
  have n': "0 < ?n" "?n \<le> 2 ^ 40" using n by (simp_all flip: of_int_le_iff)
  have q': "0 < q" "q \<le> 1" using q(1-3) by simp_all
  have fq: "0 < fl q" "q - q / 2 ^ 53 \<le> fl q" using fl_sign [OF q'(1)] fl_error [OF q'(1)] by linarith+
  have y: "0 < y" "y \<le> q * ?n" using fq(1) n' q(4) by (simp_all add: y_def mult_right_mono)
  have qn: "q * ?n \<le> 2 ^ 40" using mult_mono [OF q'(2) n'(2)] n' q' by simp
  have "q / 2 ^ 53 * ?n \<le> 1 / 2 ^ 13" using qn by simp
  moreover have "(q - q / 2 ^ 53) * ?n \<le> y" unfolding y_def using fq(2) n'(1) by (intro mult_right_mono) simp_all
  ultimately have y_ge: "q * ?n - 1 / 2 ^ 13 \<le> y" by (simp add: left_diff_distrib)
  have "y / 2 ^ 53 \<le> 1 / 2 ^ 13" using y(2) qn by simp
  with fl_error [OF y(1)] have fy: "y - 1 / 2 ^ 13 \<le> fl y" by linarith
  have le: "fl y \<le> of_int \<lceil>q * ?n\<rceil>"
    by (rule fl_le_int) (use y qn in \<open>auto intro: order_trans le_of_int_ceiling order_le_less_trans\<close>)
  have "of_int (1000 * (\<lceil>q * ?n\<rceil> - 1)) < (of_int (a * n) :: rat)"
    using ceiling_correct [of "q * ?n"] by (simp add: q(1) field_simps)
  then have "1000 * (\<lceil>q * ?n\<rceil> - 1) + 1 \<le> a * n" by (simp only: of_int_less_iff)
  then have "of_int (1000 * (\<lceil>q * ?n\<rceil> - 1) + 1) \<le> (of_int (a * n) :: rat)" by (simp only: of_int_le_iff)
  then have "of_int \<lceil>q * ?n\<rceil> - 1 + 1 / 1000 \<le> q * ?n" by (simp add: q(1) field_simps)
  with y_ge fy have "of_int \<lceil>q * ?n\<rceil> - 1 < fl y" by simp
  with le have "\<lceil>fl y\<rceil> = \<lceil>q * ?n\<rceil>" by (intro ceiling_unique) simp_all
  moreover have "fl ?n = ?n" using n by (intro fl_int) simp_all
  ultimately show ?thesis by (simp add: y_def)
qed

lemma sorted_nearest_rank:
  assumes "sorted xs" "r < length xs" "of_nat r < q * of_nat (length xs)" "q * of_nat (length xs) \<le> of_nat (Suc r)"
  shows "nearest_rank q xs (xs ! r)"
proof -
  have "{..r} \<subseteq> {i. i < length xs \<and> xs ! i \<le> xs ! r}" using assms(1,2) by (auto intro: sorted_nth_mono)
  from card_mono [OF _ this] have up: "Suc r \<le> length (filter (\<lambda>x. x \<le> xs ! r) xs)"
    by (simp add: length_filter_conv_card)
  have "length (filter (\<lambda>x. x \<le> w) xs) \<le> r" if "w < xs ! r" for w
  proof -
    have "i < r" if "i < length xs" "xs ! i \<le> w" for i
      using sorted_nth_mono [OF assms(1), of r i] that \<open>w < xs ! r\<close> by (cases "i < r") auto
    then have "{i. i < length xs \<and> xs ! i \<le> w} \<subseteq> {..<r}" by auto
    from card_mono [OF _ this] show ?thesis by (simp add: length_filter_conv_card)
  qed
  then have "of_nat (length (filter (\<lambda>x. x \<le> w) xs)) < q * of_nat (length xs)" if "w < xs ! r" for w
    using that assms(3) by (meson of_nat_le_iff order_le_less_trans)
  moreover have "q * of_nat (length xs) \<le> of_nat (length (filter (\<lambda>x. x \<le> xs ! r) xs))"
    using up assms(4) by (meson of_nat_le_iff order_trans)
  ultimately show ?thesis using assms(2) by (simp add: nearest_rank_def)
qed

lemma percentile_nearest_rank:
  assumes q: "q = of_int a / 1000" "0 < a" "a \<le> 1000" "fl q \<le> q"
    and xs: "sorted xs" "xs \<noteq> []" "int (length xs) \<le> 2 ^ 40"
  shows "nearest_rank q xs (percentile xs (fl q))"
proof -
  let ?n = "int (length xs)" and ?x = "q * of_int (int (length xs))"
  have n: "0 < ?n" "?n \<le> 2 ^ 40" using xs(2,3) by auto
  have q': "0 < q" "q \<le> 1" using q(1-3) by simp_all
  have "0 < ?x" "?x \<le> of_int ?n" using n(1) q' by (simp_all add: mult_left_le_one_le)
  then have r: "0 < \<lceil>?x\<rceil>" "\<lceil>?x\<rceil> \<le> ?n" by (simp_all add: ceiling_le_iff)
  define k where "k = nat (\<lceil>?x\<rceil> - 1)"
  have k: "k < length xs" "int (Suc k) = \<lceil>?x\<rceil>" using r by (simp_all add: k_def nat_less_iff)
  have "percentile xs (fl q) = xs ! k"
    using xs(2) r float_rank [OF q n] by (simp add: percentile_def Let_def k_def)
  moreover have "of_int (int (Suc k)) - 1 < ?x" "?x \<le> of_int (int (Suc k))"
    unfolding k(2) using ceiling_correct [of ?x] by simp_all
  ultimately show ?thesis using sorted_nearest_rank [OF xs(1) k(1), of q] by simp
qed

lemma quantiles_below: "fl (50 / 100) \<le> 50 / 100" "fl (95 / 100) \<le> 95 / 100" "fl (99 / 100) \<le> 99 / 100" "fl (999 / 1000) \<le> 999 / 1000"
  by code_simp+

lemma sorted_le_last: "sorted xs \<Longrightarrow> (x :: int64) \<in> set xs \<Longrightarrow> x \<le> last xs"
  by (induction xs) (auto split: if_splits)

lemma nearest_rank_sort: "nearest_rank q (sort vs) v = nearest_rank q vs v"
  by (simp add: nearest_rank_def filter_sort)

text \<open>A rate is never a division by zero: a positive duration has a positive number of seconds.\<close>

lemma Seconds_pos:
  assumes "0 < d" shows "0 < Seconds d"
proof -
  have i: "d sdiv 1000000000 = d div 1000000000" "d smod 1000000000 = d mod 1000000000"
    using assms by (simp_all add: signed_divide_int_def signed_modulo_int_def)
  have "0 \<le> d div 1000000000" "0 \<le> d mod 1000000000" "d = d div 1000000000 * 1000000000 + d mod 1000000000"
    using assms by (simp_all add: pos_imp_zdiv_nonneg_iff)
  with assms consider "0 < d div 1000000000" "0 \<le> d mod 1000000000" | "d div 1000000000 = 0" "0 < d mod 1000000000"
    by fastforce
  then have "0 < fl (of_int (d div 1000000000)) + fl (fl (of_int (d mod 1000000000)) / 1000000000)"
  proof cases
    case 1
    then have "0 < fl (of_int (d div 1000000000))" by (simp add: fl_sign)
    moreover have "0 \<le> fl (fl (of_int (d mod 1000000000)) / 1000000000)"
      using 1(2) fl_sign by (cases "d mod 1000000000 = 0") (auto simp: less_imp_le)
    ultimately show ?thesis by simp
  next
    case 2
    then show ?thesis by (simp add: fl_sign)
  qed
  then show ?thesis unfolding Seconds_def i by (rule fl_sign)
qed

lemma perSecond_nonneg: "0 \<le> count \<Longrightarrow> 0 \<le> perSecond count d"
proof (cases "0 < count \<and> 0 < d")
  case True
  then have "0 < fl (of_int count) / Seconds d" by (simp add: fl_sign Seconds_pos)
  with True show ?thesis using fl_sign by (simp add: perSecond_def less_imp_le)
next
  case False
  assume "0 \<le> count"
  with False show ?thesis by (auto simp: perSecond_def)
qed

section \<open>Properties\<close>

text \<open>
  C39. The latencies of a report are what they are called: with up to \<open>2^40\<close> samples, the rounding of
  \<open>float64\<close> notwithstanding, each percentile is the nearest-rank percentile of all samples of all consumers,
  and the maximum is their maximum.
\<close>

theorem report_percentiles:
  assumes "concat groups \<noteq> []" "int (length (concat groups)) \<le> 2 ^ 40"
    and "report = run_report cfg run m groups checksums"
  shows "nearest_rank (50 / 100) (concat groups) (LatencyP50NS report) \<and>
    nearest_rank (95 / 100) (concat groups) (LatencyP95NS report) \<and>
    nearest_rank (99 / 100) (concat groups) (LatencyP99NS report) \<and>
    nearest_rank (999 / 1000) (concat groups) (LatencyP999NS report) \<and>
    LatencyMaxNS report = Max (set (concat groups)) \<and> LatencySamples report = int (length (concat groups))"
proof -
  let ?xs = "sort (concat groups)"
  have "length ?xs = length (concat groups)" by (rule length_sort)
  with assms(1,2) have xs: "sorted ?xs" "?xs \<noteq> []" "int (length ?xs) \<le> 2 ^ 40" by (auto simp only: sorted_sort length_0_conv [symmetric])
  have p: "nearest_rank q ?xs (percentile ?xs (fl q))" if "q = of_int a / 1000" "0 < a" "a \<le> 1000" "fl q \<le> q" for q a
    using percentile_nearest_rank [OF that xs] .
  have "nearest_rank (50 / 100) ?xs (percentile ?xs (fl (50 / 100)))"
    "nearest_rank (95 / 100) ?xs (percentile ?xs (fl (95 / 100)))"
    "nearest_rank (99 / 100) ?xs (percentile ?xs (fl (99 / 100)))"
    "nearest_rank (999 / 1000) ?xs (percentile ?xs (fl (999 / 1000)))"
    using p [of "50 / 100" 500] p [of "95 / 100" 950] p [of "99 / 100" 990] p [of "999 / 1000" 999] quantiles_below by auto
  moreover have "last ?xs = Max (set (concat groups))"
    using sorted_le_last [OF xs(1)] last_in_set [OF xs(2)] by (intro Max_eqI [symmetric]) auto
  ultimately show ?thesis
    using xs(2) by (simp add: assms(3) run_report_def Let_def combineLatencies_concat nearest_rank_sort)
qed

theorem report_percentiles_witness:
  "\<forall>m. nearest_rank (95 / 100) [7, 3, 9] (LatencyP95NS (run_report parseFlags 1 m [[7, 3], [9]] [])) \<and>
     LatencyMaxNS (run_report parseFlags 1 m [[7, 3], [9]] []) = 9"
proof
  fix m
  show "nearest_rank (95 / 100) [7, 3, 9] (LatencyP95NS (run_report parseFlags 1 m [[7, 3], [9]] [])) \<and>
     LatencyMaxNS (run_report parseFlags 1 m [[7, 3], [9]] []) = 9"
    using report_percentiles [of "[[7, 3], [9]]", OF _ _ refl, of parseFlags 1 m "[]"] by simp
qed

end
