(* ===== verification/Apicheck.thy ===== *)
theory Apicheck
  imports Errors "HOL-Library.Multiset" "HOL-Library.List_Lexorder" "HOL-Library.Char_ord"
begin

text \<open>
  The command \<open>cmd/apicheck\<close>, which renders the exported API of a package as sorted text. The syntax
  trees are the parts of \<open>go/ast\<close> the command looks at; the parser, the type checker and the printer of
  the Go standard library are arguments. Identifiers and text are ASCII.
\<close>

section \<open>Strings\<close>

definition HasPrefix :: "string \<Rightarrow> string \<Rightarrow> bool" where
  "HasPrefix s p \<longleftrightarrow> take (length p) s = p"

definition HasSuffix :: "string \<Rightarrow> string \<Rightarrow> bool" where
  "HasSuffix s p \<longleftrightarrow> HasPrefix (rev s) (rev p)"

definition TrimPrefix :: "string \<Rightarrow> string \<Rightarrow> string" where
  "TrimPrefix s p = (if HasPrefix s p then drop (length p) s else s)"

definition TrimSuffix :: "string \<Rightarrow> string \<Rightarrow> string" where
  "TrimSuffix s p = (if HasSuffix s p then take (length s - length p) s else s)"

fun Join :: "string list \<Rightarrow> string \<Rightarrow> string" where
  "Join [] sep = ''''"
| "Join [s] sep = s"
| "Join (s # ss) sep = s @ sep @ Join ss sep"

definition newline :: string where "newline = [CHR 0x0A]"
definition tab :: string where "tab = [CHR 0x09]"

definition IsExported :: "string \<Rightarrow> bool" where
  "IsExported name = (case name of [] \<Rightarrow> False | c # _ \<Rightarrow> CHR ''A'' \<le> c \<and> c \<le> CHR ''Z'')"

section \<open>Syntax trees\<close>

text \<open>
  An embedded field has no names. \<open>Tag\<close>, \<open>Doc\<close> and \<open>Comment\<close> of a field are texts that may be missing.
  \<open>OtherExpr\<close> stands for every other type expression.
\<close>

datatype Expr =
    Ident string
  | StarExpr Expr
  | IndexExpr Expr Expr
  | IndexListExpr Expr "Expr list"
  | SelectorExpr Expr string
  | StructType "Field list"
  | InterfaceType "Field list"
  | OtherExpr string
and Field = Field (Names: "string list") (Type: Expr) (Tag: "string option") (Doc: "string option")
    (Comment: "string option")

datatype Spec =
    TypeSpec string "Field list option" Expr
  | ValueSpec "string list"
  | ImportSpec string

datatype Decl =
    GenDecl string "Spec list"
  | FuncDecl string "Field list option" Expr

text \<open>What \<open>format.Node\<close> is called on, and what the type checker says about a name.\<close>

datatype Node = ExprNode Expr | FuncNode string "Field list option" Expr

record packageSource =
  ps_files :: "Decl list list"
  ps_defs :: "string \<Rightarrow> (string \<times> string option) option"

section \<open>Rendering\<close>

definition renderNode :: "(Node \<Rightarrow> string) \<Rightarrow> Node \<Rightarrow> string" where
  "renderNode fmt node = TrimSpace (fmt node)"

definition renderField :: "(Node \<Rightarrow> string) \<Rightarrow> Field \<Rightarrow> string" where
  "renderField fmt field =
     (let text = renderNode fmt (ExprNode (StructType [field]))
      in TrimSpace (TrimSuffix (TrimPrefix text ''struct {'') ''}''))"

text \<open>The copies the renderer makes have no comments.\<close>

definition bare_field :: "string list \<Rightarrow> Field \<Rightarrow> Field" where
  "bare_field names field = Field names (Type field) (Tag field) None None"

definition renderFieldList :: "(Node \<Rightarrow> string) \<Rightarrow> Field list \<Rightarrow> string" where
  "renderFieldList fmt fieldList = ''['' @ Join (map (\<lambda>field. renderField fmt (bare_field (Names field) field)) fieldList) '', '' @ '']''"

fun embeddedExported :: "Expr \<Rightarrow> bool" where
  "embeddedExported (Ident name) = IsExported name"
| "embeddedExported (StarExpr x) = embeddedExported x"
| "embeddedExported (IndexExpr x i) = embeddedExported x"
| "embeddedExported (IndexListExpr x is) = embeddedExported x"
| "embeddedExported (SelectorExpr x sel) = IsExported sel"
| "embeddedExported _ = False"

definition exportedReceiver :: "Field list \<Rightarrow> bool" where
  "exportedReceiver fieldList = (if length fieldList \<noteq> 1 then False else embeddedExported (Type (fieldList ! 0)))"

fun struct_loop :: "(Node \<Rightarrow> string) \<Rightarrow> Field list \<Rightarrow> string list \<Rightarrow> bool \<Rightarrow> string list \<times> bool" where
  "struct_loop fmt [] out hasUnexported = (out, hasUnexported)"
| "struct_loop fmt (field # rest) out hasUnexported =
     (let names0 = filter IsExported (Names field);
          hidden0 = (hasUnexported \<or> (\<exists>name \<in> set (Names field). \<not> IsExported name));
          (names, hidden) =
            (if length (Names field) = 0
             then (if embeddedExported (Type field) then (Names field, hidden0) else (names0, True))
             else (names0, hidden0))
      in if length names = 0 then struct_loop fmt rest out hidden
         else struct_loop fmt rest (out @ [tab @ renderField fmt (bare_field names field)]) hidden)"

definition renderPublicStruct :: "(Node \<Rightarrow> string) \<Rightarrow> Field list \<Rightarrow> string" where
  "renderPublicStruct fmt fieldList =
     (let (out, hasUnexported) = struct_loop fmt fieldList [] False;
          out1 = (if hasUnexported then out @ [tab @ ''// unexported fields''] else out)
      in ''struct {'' @ newline @ Join out1 newline @ newline @ ''}'')"

fun interface_loop :: "(Node \<Rightarrow> string) \<Rightarrow> Field list \<Rightarrow> string list \<Rightarrow> bool \<Rightarrow> string list \<times> bool" where
  "interface_loop fmt [] out hasUnexported = (out, hasUnexported)"
| "interface_loop fmt (field # rest) out hasUnexported =
     (if length (Names field) = 0 then
        (if embeddedExported (Type field)
         then interface_loop fmt rest (out @ [tab @ renderField fmt field]) hasUnexported
         else interface_loop fmt rest out True)
      else
        let names = filter IsExported (Names field);
            hidden = (hasUnexported \<or> (\<exists>name \<in> set (Names field). \<not> IsExported name))
        in if length names = 0 then interface_loop fmt rest out hidden
           else interface_loop fmt rest (out @ [tab @ renderField fmt (bare_field names field)]) hidden)"

definition renderPublicInterface :: "(Node \<Rightarrow> string) \<Rightarrow> Field list \<Rightarrow> string" where
  "renderPublicInterface fmt fieldList =
     (let (out, hasUnexported) = interface_loop fmt fieldList [] False;
          out1 = (if hasUnexported then out @ [tab @ ''// unexported methods''] else out)
      in ''interface {'' @ newline @ Join out1 newline @ newline @ ''}'')"

definition renderType :: "(Node \<Rightarrow> string) \<Rightarrow> string \<Rightarrow> Field list option \<Rightarrow> Expr \<Rightarrow> string" where
  "renderType fmt name params typ =
     (let prefix = ''type '' @ name @ (case params of Some fieldList \<Rightarrow> renderFieldList fmt fieldList | None \<Rightarrow> '''') in
      case typ of
        StructType fieldList \<Rightarrow> prefix @ '' '' @ renderPublicStruct fmt fieldList
      | InterfaceType methods \<Rightarrow> prefix @ '' '' @ renderPublicInterface fmt methods
      | _ \<Rightarrow> prefix @ '' '' @ renderNode fmt (ExprNode typ))"

definition renderFunc :: "(Node \<Rightarrow> string) \<Rightarrow> string \<Rightarrow> Field list option \<Rightarrow> Expr \<Rightarrow> string" where
  "renderFunc fmt name recv typ = renderNode fmt (FuncNode name recv typ)"

definition publicTypeString :: "string \<Rightarrow> string" where
  "publicTypeString text = TrimPrefix text ''.''"

definition value_entry :: "packageSource \<Rightarrow> string \<Rightarrow> string \<Rightarrow> string" where
  "value_entry source tok name =
     tok @ '' '' @ name @
     (case ps_defs source name of
        None \<Rightarrow> ''''
      | Some (typ, const) \<Rightarrow>
          '' '' @ publicTypeString typ @ (case const of Some v \<Rightarrow> '' = '' @ v | None \<Rightarrow> ''''))"

definition declarationEntries :: "(Node \<Rightarrow> string) \<Rightarrow> packageSource \<Rightarrow> string \<Rightarrow> Spec list \<Rightarrow> string list" where
  "declarationEntries fmt source tok specs =
     concat (map (\<lambda>spec. case spec of
         TypeSpec name params typ \<Rightarrow> (if IsExported name then [renderType fmt name params typ] else [])
       | ValueSpec names \<Rightarrow> map (value_entry source tok) (filter IsExported names)
       | ImportSpec path \<Rightarrow> []) specs)"

definition decl_entries :: "(Node \<Rightarrow> string) \<Rightarrow> packageSource \<Rightarrow> Decl \<Rightarrow> string list" where
  "decl_entries fmt source decl =
     (case decl of
        GenDecl tok specs \<Rightarrow> declarationEntries fmt source tok specs
      | FuncDecl name recv typ \<Rightarrow>
          if IsExported name \<and> (case recv of None \<Rightarrow> True | Some fieldList \<Rightarrow> exportedReceiver fieldList)
          then [renderFunc fmt name recv typ] else [])"

definition snapshotHeader :: string where
  "snapshotHeader =
     ''# lib-disruptor exported API'' @ newline @
     ''# Generated by cmd/apicheck; do not edit manually.'' @ newline @ newline"

definition render_snapshot :: "(Node \<Rightarrow> string) \<Rightarrow> packageSource \<Rightarrow> string" where
  "render_snapshot fmt source =
     snapshotHeader @
     Join (sort (concat (map (\<lambda>file. concat (map (decl_entries fmt source) file)) (ps_files source)))) newline @ newline"

section \<open>Loading a package\<close>

text \<open>
  A directory is a list of names with a mark for subdirectories; \<open>parse\<close> is \<open>parser.ParseFile\<close> and
  \<open>check\<close> is \<open>types.Config.Check\<close>, which fills the definitions.
\<close>

definition skip_file :: "string \<times> bool \<Rightarrow> bool" where
  "skip_file file \<longleftrightarrow> snd file \<or> \<not> HasSuffix (fst file) ''.go'' \<or> HasSuffix (fst file) ''_test.go''"

fun parse_files :: "(string \<Rightarrow> error + Decl list) \<Rightarrow> (string \<times> bool) list \<Rightarrow> error + Decl list list" where
  "parse_files parse [] = Inr []"
| "parse_files parse (file # rest) =
     (if skip_file file then parse_files parse rest
      else case parse (fst file) of
        Inl err \<Rightarrow> Inl err
      | Inr tree \<Rightarrow>
          (case parse_files parse rest of Inl err \<Rightarrow> Inl err | Inr trees \<Rightarrow> Inr (tree # trees)))"

definition loadPackage ::
  "(string \<Rightarrow> error + (string \<times> bool) list) \<Rightarrow> (string \<Rightarrow> error + Decl list) \<Rightarrow>
   (Decl list list \<Rightarrow> error + (string \<Rightarrow> (string \<times> string option) option)) \<Rightarrow> string \<Rightarrow> error + packageSource"
where
  "loadPackage readDir parse check directory =
     (case readDir directory of
        Inl err \<Rightarrow> Inl err
      | Inr files \<Rightarrow>
          (case parse_files parse files of
             Inl err \<Rightarrow> Inl err
           | Inr parsed \<Rightarrow>
               if length parsed = 0 then Inl (AppError (''no Go source files found in '' @ directory))
               else case check parsed of
                 Inl err \<Rightarrow> Inl err
               | Inr defs \<Rightarrow> Inr \<lparr>ps_files = parsed, ps_defs = defs\<rparr>))"

definition snapshot ::
  "(Node \<Rightarrow> string) \<Rightarrow> (string \<Rightarrow> error + (string \<times> bool) list) \<Rightarrow> (string \<Rightarrow> error + Decl list) \<Rightarrow>
   (Decl list list \<Rightarrow> error + (string \<Rightarrow> (string \<times> string option) option)) \<Rightarrow> string \<Rightarrow> error + string"
where
  "snapshot fmt readDir parse check directory =
     (case loadPackage readDir parse check directory of
        Inl err \<Rightarrow> Inl err | Inr source \<Rightarrow> Inr (render_snapshot fmt source))"

text \<open>
  \<open>main\<close>: without \<open>-check\<close> it prints the snapshot, with it it compares the snapshot with a file. \<open>Failed\<close> and
  \<open>Differs\<close> end with exit code 1.
\<close>

datatype apicheckResult = Printed string | Matches | Differs string | Failed error

definition apicheck_main ::
  "(string \<Rightarrow> error + string) \<Rightarrow> (string \<Rightarrow> error + string) \<Rightarrow> string \<Rightarrow> string \<Rightarrow> apicheckResult"
where
  "apicheck_main snap readFile directory check =
     (case snap directory of
        Inl err \<Rightarrow> Failed err
      | Inr out \<Rightarrow>
          if check = '''' then Printed out
          else case readFile check of
            Inl err \<Rightarrow> Failed err
          | Inr expected \<Rightarrow> if expected \<noteq> out then Differs check else Matches)"

section \<open>What a snapshot depends on\<close>

text \<open>A declaration that contributes to the API by its names.\<close>

fun api_spec :: "Spec \<Rightarrow> bool" where
  "api_spec (TypeSpec name params typ) = IsExported name"
| "api_spec (ValueSpec names) = (\<exists>name \<in> set names. IsExported name)"
| "api_spec (ImportSpec path) = False"

fun api_decl :: "Decl \<Rightarrow> bool" where
  "api_decl (GenDecl tok specs) = (\<exists>spec \<in> set specs. api_spec spec)"
| "api_decl (FuncDecl name recv typ) =
     (IsExported name \<and> (case recv of None \<Rightarrow> True | Some fs \<Rightarrow> exportedReceiver fs))"

lemma hidden_spec: "\<not> api_spec spec \<Longrightarrow> declarationEntries fmt source tok [spec] = []"
  by (cases spec) (auto simp: declarationEntries_def filter_empty_conv)

lemma hidden_decl: "\<not> api_decl decl \<Longrightarrow> decl_entries fmt source decl = []"
proof (cases decl)
  case (GenDecl tok specs)
  assume "\<not> api_decl decl"
  then have "\<forall>spec \<in> set specs. declarationEntries fmt source tok [spec] = []"
    using hidden_spec GenDecl by auto
  then show ?thesis by (auto simp: GenDecl decl_entries_def declarationEntries_def)
qed (auto simp: decl_entries_def split: option.splits)

lemma concat_decl_entries:
  "concat (map (\<lambda>file. concat (map (decl_entries fmt source) file)) files) =
     concat (map (decl_entries fmt source) (concat files))"
  by (induction files) simp_all

lemma visible_entries:
  "concat (map (decl_entries fmt source) decls) = concat (map (decl_entries fmt source) (filter api_decl decls))"
  by (induction decls) (auto simp: hidden_decl)

lemma mset_concat_map: "mset (concat (map f xs)) = (\<Sum>x \<in># mset xs. mset (f x))"
  by (induction xs) simp_all

text \<open>Comments of the fields of a struct do not show.\<close>

lemma struct_loop_comments:
  "struct_loop fmt (map (\<lambda>f. bare_field (Names f) f) fs) out hidden = struct_loop fmt fs out hidden"
  by (induction fmt fs out hidden rule: struct_loop.induct) (auto simp: bare_field_def Let_def split_def)

text \<open>A printed snapshot is accepted as a baseline as long as the snapshot stays the same.\<close>

lemma apicheck_baseline:
  assumes "apicheck_main (snapshot fmt readDir parse chk) readFile dir '''' = Printed out"
    and "check \<noteq> ''''" "readFile check = Inr out"
  shows "apicheck_main (snapshot fmt readDir' parse' chk') readFile dir check = Matches \<longleftrightarrow>
    snapshot fmt readDir' parse' chk' dir = snapshot fmt readDir parse chk dir"
  using assms by (auto simp: apicheck_main_def split: sum.splits)

text \<open>An embedded field of a struct leaves no trace when its type is exported.\<close>

lemma struct_loop_embedded:
  assumes "Names f = []" "embeddedExported (Type f)"
  shows "struct_loop fmt (pre @ f # post) out hidden = struct_loop fmt (pre @ post) out hidden"
  by (induction fmt pre out hidden rule: struct_loop.induct) (simp_all add: assms Let_def split_def)

section \<open>Properties\<close>


text \<open>Two files with a type, a constant and an unexported function, and one file with the exported two.\<close>

definition demo_printer :: "Node \<Rightarrow> string" where
  "demo_printer node =
     (case node of ExprNode (Ident name) \<Rightarrow> name | FuncNode name recv typ \<Rightarrow> ''func '' @ name | _ \<Rightarrow> ''?'')"


text \<open>
  The renderer of a struct drops embedded fields of exported types altogether: adding or removing
  one does not change the rendered API, although such a field is part of it.
\<close>

theorem embedded_field_dropped:
  assumes "Names f = []" "embeddedExported (Type f)"
  shows "renderPublicStruct fmt (pre @ f # post) = renderPublicStruct fmt (pre @ post)"
  by (simp add: renderPublicStruct_def struct_loop_embedded [OF assms])

theorem embedded_field_dropped_witness:
  "renderPublicStruct demo_printer [Field [] (StarExpr (Ident ''Sequence'')) None None None] = renderPublicStruct demo_printer []"
  using embedded_field_dropped [of "Field [] (StarExpr (Ident ''Sequence'')) None None None" demo_printer "[]" "[]"]
  by (simp add: IsExported_def)

end
